(* ===== verification/Miniduo_Prelude.thy ===== *)
theory Miniduo_Prelude
  imports Main "HOL-Library.Word"
begin

text \<open>
  Shared material of the development: the result type in which every failing
  assertion, abort, uncaught exception and out-of-range memory access of the C++
  code is a value, the arithmetic of \<open>size_t\<close>, and the generic lemmas on lists
  (slices and overwriting copies) that the component theories use.
\<close>

named_theorems result_simps \<open>simplification rules for computations in the result type\<close>
named_theorems size_simps \<open>rules that remove the wrap-around of size_t\<close>

section \<open>Results of fallible code\<close>

text \<open>
  The library is built without \<^verbatim>\<open>NDEBUG\<close> (Makefile, \<^verbatim>\<open>CXXFLAGS\<close>), so every
  \<^verbatim>\<open>assert\<close> is live and a failing one ends the process; \<open>AssertFailed\<close> stands for
  it. \<open>Aborted\<close> is an explicit \<^verbatim>\<open>abort()\<close> or \<^verbatim>\<open>exit\<close>, \<open>Uncaught\<close> an exception of the
  standard library that no caller catches, \<open>OutOfBounds\<close> a read or write outside the
  object, \<open>UseAfterFree\<close> an access through a pointer to a destroyed object, and
  \<open>NoReturn\<close> a call that never returns.
\<close>

datatype fault = AssertFailed | Aborted | Uncaught | OutOfBounds | UseAfterFree | NoReturn

type_synonym 'a result = "fault + 'a"

primrec bindR :: "'a result \<Rightarrow> ('a \<Rightarrow> 'b result) \<Rightarrow> 'b result" where
  "bindR (Inl e) f = Inl e"
| "bindR (Inr x) f = f x"

definition assertR :: "bool \<Rightarrow> 'a result \<Rightarrow> 'a result" where
  "assertR b m = (if b then m else Inl AssertFailed)"

definition isOk :: "'a result \<Rightarrow> bool" where
  "isOk m = (case m of Inl _ \<Rightarrow> False | Inr _ \<Rightarrow> True)"

text \<open>A sequence of operations, stopped by the first fault, and the image of a result.\<close>

fun runR :: "('o \<Rightarrow> 's \<Rightarrow> 's result) \<Rightarrow> 'o list \<Rightarrow> 's \<Rightarrow> 's result" where
  "runR step [] s = Inr s"
| "runR step (x # xs) s = bindR (step x s) (runR step xs)"

primrec mapR :: "('a \<Rightarrow> 'b) \<Rightarrow> 'a result \<Rightarrow> 'b result" where
  "mapR f (Inl e) = Inl e"
| "mapR f (Inr x) = Inr (f x)"

section \<open>Arithmetic of size_t\<close>

definition size_modulus :: nat where
  "size_modulus = 2 ^ 64"

definition size_add :: "nat \<Rightarrow> nat \<Rightarrow> nat" where
  "size_add a b = (a + b) mod size_modulus"

definition size_sub :: "nat \<Rightarrow> nat \<Rightarrow> nat" where
  "size_sub a b = (a + (size_modulus - b)) mod size_modulus"

text \<open>The largest number of elements of a \<^verbatim>\<open>std::vector<char>\<close> (\<^verbatim>\<open>PTRDIFF_MAX\<close>).\<close>

definition max_size :: nat where
  "max_size = 2 ^ 63 - 1"

section \<open>Slices and overwriting copies\<close>

definition seg :: "'a list \<Rightarrow> nat \<Rightarrow> nat \<Rightarrow> 'a list" where
  "seg xs i j = take (j - i) (drop i xs)"

definition blit :: "'a list \<Rightarrow> nat \<Rightarrow> 'a list \<Rightarrow> 'a list" where
  "blit xs i ys = take i xs @ ys @ drop (i + length ys) xs"

text \<open>
  \<^verbatim>\<open>std::copy\<close> of characters into a vector at index \<open>i\<close>: the library implements it by
  \<^verbatim>\<open>memmove\<close>, so an overlapping source is read before it is overwritten; a destination
  that passes the end of the vector is a memory error.
\<close>

definition copy_into :: "'a list \<Rightarrow> nat \<Rightarrow> 'a list \<Rightarrow> 'a list result" where
  "copy_into xs i ys = (if i + length ys \<le> length xs then Inr (blit xs i ys) else Inl OutOfBounds)"

text \<open>\<^verbatim>\<open>std::search\<close>: the offset of the first occurrence of a pattern.\<close>

fun search :: "'a list \<Rightarrow> 'a list \<Rightarrow> nat option" where
  "search pat [] = (if pat = [] then Some 0 else None)"
| "search pat (x # xs) =
     (if take (length pat) (x # xs) = pat then Some 0 else map_option Suc (search pat xs))"

section \<open>Lemmas on results\<close>

lemma bindR_eq_Inr [result_simps]: "bindR m f = Inr y \<longleftrightarrow> (\<exists>x. m = Inr x \<and> f x = Inr y)"
  by (cases m) auto

lemma bindR_eq_Inl [result_simps]:
  "bindR m f = Inl e \<longleftrightarrow> m = Inl e \<or> (\<exists>x. m = Inr x \<and> f x = Inl e)"
  by (cases m) auto

lemma bindR_assoc: "bindR (bindR m f) g = bindR m (\<lambda>x. bindR (f x) g)"
  by (cases m) auto

lemma bindR_cong [fundef_cong]:
  "m = m' \<Longrightarrow> (\<And>x. m' = Inr x \<Longrightarrow> f x = g x) \<Longrightarrow> bindR m f = bindR m' g"
  by (cases m') auto

lemma assertR_True [simp]: "assertR True m = m"
  by (simp add: assertR_def)

lemma assertR_False [simp]: "assertR False m = Inl AssertFailed"
  by (simp add: assertR_def)

lemma assertR_eq_Inr [result_simps]: "assertR b m = Inr y \<longleftrightarrow> b \<and> m = Inr y"
  by (simp add: assertR_def)

lemma assertR_eq_Inl [result_simps]:
  "assertR b m = Inl e \<longleftrightarrow> (\<not> b \<and> e = AssertFailed) \<or> (b \<and> m = Inl e)"
  by (auto simp: assertR_def)

lemma isOk_simps [simp]: "isOk (Inr x)" "\<not> isOk (Inl e)"
  by (simp_all add: isOk_def)

lemma isOk_iff: "isOk m \<longleftrightarrow> (\<exists>x. m = Inr x)"
  by (cases m) auto

lemma mapR_eq_Inr [result_simps]: "mapR f m = Inr y \<longleftrightarrow> (\<exists>x. m = Inr x \<and> y = f x)"
  by (cases m) auto

lemma mapR_eq_Inl [result_simps]: "mapR f m = Inl e \<longleftrightarrow> m = Inl e"
  by (cases m) auto

section \<open>Lemmas on sizes\<close>

lemma size_modulus_pos [simp]: "0 < size_modulus"
  by (simp add: size_modulus_def)

lemma max_size_less: "2 * max_size < size_modulus"
  by (simp add: size_modulus_def max_size_def)

lemma size_add_eq [size_simps]: "a + b < size_modulus \<Longrightarrow> size_add a b = a + b"
  by (simp add: size_add_def)

lemma size_sub_eq [size_simps]: "b \<le> a \<Longrightarrow> a < size_modulus \<Longrightarrow> size_sub a b = a - b"
proof -
  assume "b \<le> a" and "a < size_modulus"
  then have "a + (size_modulus - b) = size_modulus + (a - b)"
    using size_modulus_pos by linarith
  then have "size_sub a b = (a - b) mod size_modulus"
    by (simp only: size_sub_def mod_add_self1)
  with \<open>a < size_modulus\<close> show ?thesis by simp
qed

text \<open>The intermediate difference may wrap below zero; the sum comes out right all the same.\<close>

lemma size_add_sub [size_simps]:
  assumes "c \<le> a + b" and "a + b < size_modulus" and "c \<le> size_modulus"
  shows "size_add (size_sub a c) b = a + b - c"
proof -
  have "(a + (size_modulus - c) + b) mod size_modulus = (size_modulus + (a + b - c)) mod size_modulus"
    using assms(1,3) by (intro arg_cong [where f = "\<lambda>n. n mod size_modulus"]) simp
  also have "\<dots> = a + b - c"
    using assms(2) by (simp only: mod_add_self1) simp
  finally show ?thesis
    by (simp add: size_add_def size_sub_def mod_add_left_eq)
qed

section \<open>Lemmas on slices and copies\<close>

lemma length_seg [simp]: "length (seg xs i j) = min (j - i) (length xs - i)"
  by (simp add: seg_def)

lemma seg_empty [simp]: "seg xs i i = []"
  by (simp add: seg_def)

lemma seg_split: "i \<le> j \<Longrightarrow> j \<le> k \<Longrightarrow> seg xs i k = seg xs i j @ seg xs j k"
proof -
  assume "i \<le> j" and "j \<le> k"
  then have "k - i = (j - i) + (k - j)" by simp
  moreover have "drop (j - i) (drop i xs) = drop j xs" using \<open>i \<le> j\<close> by simp
  ultimately show ?thesis by (simp add: seg_def take_add)
qed

lemma take_seg [simp]: "take n (seg xs i j) = seg xs i (min j (i + n))"
proof -
  have "min n (j - i) = min j (i + n) - i" by arith
  then show ?thesis by (simp add: seg_def)
qed

lemma drop_seg [simp]: "drop n (seg xs i j) = seg xs (i + n) j"
  by (simp add: seg_def drop_take add.commute)

lemma seg_append1: "j \<le> length xs \<Longrightarrow> seg (xs @ ys) i j = seg xs i j"
  by (simp add: seg_def)

lemma length_blit [simp]: "i + length ys \<le> length xs \<Longrightarrow> length (blit xs i ys) = length xs"
  by (simp add: blit_def)

lemma blit_Nil [simp]: "blit xs i [] = xs"
  by (simp add: blit_def)

lemma seg_blit_self:
  "i + length ys \<le> length xs \<Longrightarrow> seg (blit xs i ys) i (i + length ys) = ys"
  by (simp add: seg_def blit_def)

lemma seg_blit_before:
  "k \<le> i \<Longrightarrow> i \<le> length xs \<Longrightarrow> seg (blit xs i ys) j k = seg xs j k"
  by (cases "j \<le> k") (auto simp: seg_def blit_def min_def drop_take [symmetric])

lemma seg_blit_after:
  "i + length ys \<le> length xs \<Longrightarrow> i + length ys \<le> j \<Longrightarrow> seg (blit xs i ys) j k = seg xs j k"
  by (simp add: seg_def blit_def)

lemma seg_blit_extend:
  assumes "j \<le> i" and "i + length ys \<le> length xs"
  shows "seg (blit xs i ys) j (i + length ys) = seg xs j i @ ys"
  using assms by (simp add: seg_split [of j i "i + length ys"] seg_blit_before seg_blit_self)

lemma seg_blit_prefix:
  assumes "i + length ys \<le> length xs" and "n \<le> length ys"
  shows "seg (blit xs i ys) i (i + n) = take n ys"
  using assms by (simp add: seg_def blit_def)

lemma copy_into_eq_Inr [result_simps]:
  "copy_into xs i ys = Inr zs \<longleftrightarrow> i + length ys \<le> length xs \<and> zs = blit xs i ys"
  by (auto simp: copy_into_def)

section \<open>Lemmas on searching\<close>

lemma search_SomeD:
  "search pat xs = Some n \<Longrightarrow> n + length pat \<le> length xs \<and> take (length pat) (drop n xs) = pat"
proof (induction xs arbitrary: n)
  case Nil
  then show ?case by (simp split: if_splits)
next
  case (Cons x xs)
  show ?case
  proof (cases "take (length pat) (x # xs) = pat")
    case True
    then have "length pat \<le> length (x # xs)"
      by (metis length_take min.cobounded1)
    with True Cons.prems show ?thesis by auto
  next
    case False
    then show ?thesis using Cons by auto
  qed
qed

lemma search_Some_first:
  "search pat xs = Some n \<Longrightarrow> m < n \<Longrightarrow> take (length pat) (drop m xs) \<noteq> pat"
proof (induction xs arbitrary: m n)
  case Nil
  then show ?case by (simp split: if_splits)
next
  case (Cons x xs)
  then show ?case by (cases m) (auto split: if_splits)
qed

lemma search_NoneD: "search pat xs = None \<Longrightarrow> take (length pat) (drop m xs) \<noteq> pat"
proof (induction xs arbitrary: m)
  case Nil
  then show ?case by (auto split: if_splits)
next
  case (Cons x xs)
  then show ?case by (cases m) (auto split: if_splits)
qed

lemma search_append: "search pat xs = Some n \<Longrightarrow> search pat (xs @ ys) = Some n"
proof (induction xs arbitrary: n)
  case Nil
  then show ?case by (cases ys) (auto split: if_splits)
next
  case (Cons x xs)
  show ?case
  proof (cases "take (length pat) (x # xs) = pat")
    case True
    then have "length pat \<le> length (x # xs)" by (metis length_take min.cobounded1)
    then have "take (length pat) ((x # xs) @ ys) = pat" using True by (simp only: take_append) simp
    with True Cons.prems show ?thesis by simp
  next
    case False
    then obtain m where m: "search pat xs = Some m" "n = Suc m" using Cons.prems by auto
    then have "length pat \<le> length xs" using search_SomeD [OF m(1)] by simp
    then have "take (length pat) ((x # xs) @ ys) = take (length pat) (x # xs)"
      by (simp only: take_append) simp
    with False m Cons.IH show ?thesis by simp
  qed
qed

lemma search_char:
  "x \<notin> set xs \<Longrightarrow> search [x] (xs @ x # ys) = Some (length xs)"
  by (induction xs) auto

lemma search_char_None: "x \<notin> set xs \<Longrightarrow> search [x] xs = None"
  by (induction xs) auto

text \<open>A pattern whose first element does not occur before it is found where it stands.\<close>

lemma search_first:
  "x \<notin> set xs \<Longrightarrow> search (x # pat) (xs @ (x # pat) @ ys) = Some (length xs)"
  by (induction xs) auto

section \<open>Transition systems\<close>

text \<open>
  The interface of an invariant: it holds initially and every step keeps it. Then it holds in
  every reachable state, whatever the interleaving.
\<close>

locale invariant_system =
  fixes step :: "'s \<Rightarrow> 's \<Rightarrow> bool" and start :: 's and inv :: "'s \<Rightarrow> bool"
  assumes inv_start: "inv start" and inv_step: "inv s \<Longrightarrow> step s s' \<Longrightarrow> inv s'"
begin

lemma reachable: "step\<^sup>*\<^sup>* start s \<Longrightarrow> inv s"
  by (induction rule: rtranclp_induct) (auto intro: inv_start inv_step)

end

end
