(* ===== verification/Byte_Buffer.thy ===== *)
theory Byte_Buffer
  imports Miniduo_Prelude
begin

text \<open>
  The class \<^verbatim>\<open>Buffer\<close> of \<^verbatim>\<open>miniduo/buffer.h\<close> and \<^verbatim>\<open>miniduo/buffer.cpp\<close>: a vector of
  characters with a reader and a writer index, eight bytes of cheap prepend space in
  front. Pointers into the vector are indices. The result of \<^verbatim>\<open>readv(2)\<close> is an argument
  of \<open>readFd\<close>. The theory shows that the buffer is a queue of bytes wherever
  \<open>makeSpace\<close> does not take its compacting branch, says exactly what that branch does
  to the readable bytes, and packages the queue laws as the locale \<open>byte_queue\<close>.
\<close>

section \<open>Model\<close>

record buffer =
  bufData :: string
  readerIndex :: nat
  writerIndex :: nat

definition kCheapPrepend :: nat where
  "kCheapPrepend = 8"

definition kInitialSize :: nat where
  "kInitialSize = 1024"

definition kCRLF :: string where
  "kCRLF = [CHR 0x0D, CHR 0x0A]"

definition newBuffer :: buffer where
  "newBuffer = \<lparr>bufData = replicate (kCheapPrepend + kInitialSize) (CHR 0x00),
                readerIndex = kCheapPrepend, writerIndex = kCheapPrepend\<rparr>"

definition swap_buffer :: "buffer \<Rightarrow> buffer \<Rightarrow> buffer \<times> buffer" where
  "swap_buffer b rhs =
     (b\<lparr>bufData := bufData rhs, readerIndex := readerIndex rhs, writerIndex := writerIndex rhs\<rparr>,
      rhs\<lparr>bufData := bufData b, readerIndex := readerIndex b, writerIndex := writerIndex b\<rparr>)"

definition readableBytes :: "buffer \<Rightarrow> nat" where
  "readableBytes b = size_sub (writerIndex b) (readerIndex b)"

definition writableBytes :: "buffer \<Rightarrow> nat" where
  "writableBytes b = size_sub (length (bufData b)) (writerIndex b)"

definition prependableBytes :: "buffer \<Rightarrow> nat" where
  "prependableBytes b = size_sub (readerIndex b) 0"

definition beginRead :: "buffer \<Rightarrow> nat" where
  "beginRead b = 0 + readerIndex b"

definition beginWrite :: "buffer \<Rightarrow> nat" where
  "beginWrite b = 0 + writerIndex b"

definition retrieveAll :: "buffer \<Rightarrow> buffer" where
  "retrieveAll b = b\<lparr>readerIndex := kCheapPrepend, writerIndex := kCheapPrepend\<rparr>"

definition retrieve :: "nat \<Rightarrow> buffer \<Rightarrow> buffer result" where
  "retrieve len b =
     assertR (len \<le> readableBytes b)
       (let b1 = b\<lparr>readerIndex := size_add (readerIndex b) len\<rparr>
        in Inr (if readerIndex b1 = writerIndex b1 then retrieveAll b1 else b1))"

definition retrieveUntil :: "nat \<Rightarrow> buffer \<Rightarrow> buffer result" where
  "retrieveUntil end_ptr b =
     assertR (beginRead b \<le> end_ptr \<and> end_ptr \<le> beginWrite b)
       (let b1 = b\<lparr>readerIndex := size_add (readerIndex b) (end_ptr - beginRead b)\<rparr>
        in Inr (if readerIndex b1 = writerIndex b1 then retrieveAll b1 else b1))"

text \<open>\<^verbatim>\<open>std::string(beginRead(), n)\<close>: the \<open>n\<close> characters from the read position on.\<close>

definition readString :: "buffer \<Rightarrow> nat \<Rightarrow> string" where
  "readString b n = seg (bufData b) (beginRead b) (beginRead b + n)"

definition retrieveAsString :: "buffer \<Rightarrow> string \<times> buffer" where
  "retrieveAsString b = (readString b (readableBytes b), retrieveAll b)"

text \<open>\<^verbatim>\<open>vector::resize\<close>: a size above \<^verbatim>\<open>max_size()\<close> throws \<^verbatim>\<open>std::length_error\<close>.\<close>

definition resize :: "string \<Rightarrow> nat \<Rightarrow> string result" where
  "resize xs n =
     (if max_size < n then Inl Uncaught
      else Inr (take n xs @ replicate (n - length xs) (CHR 0x00)))"

definition makeSpace :: "nat \<Rightarrow> buffer \<Rightarrow> buffer result" where
  "makeSpace len b =
     (if len \<le> writableBytes b then Inr b
      else bindR
        (if len \<le> size_add (size_sub (prependableBytes b) kCheapPrepend) (writableBytes b)
         then bindR (copy_into (bufData b) kCheapPrepend (seg (bufData b) 0 (beginWrite b)))
                (\<lambda>d. Inr (b\<lparr>bufData := d,
                            writerIndex := size_add kCheapPrepend (readableBytes b),
                            readerIndex := kCheapPrepend\<rparr>))
         else bindR (resize (bufData b) (size_add (writerIndex b) len))
                (\<lambda>d. Inr (b\<lparr>bufData := d\<rparr>)))
        (\<lambda>b1. assertR (len \<le> writableBytes b1) (Inr b1)))"

definition appendBuf :: "string \<Rightarrow> buffer \<Rightarrow> buffer result" where
  "appendBuf str b =
     bindR (makeSpace (length str) b)
       (\<lambda>b1. assertR (length str \<le> writableBytes b1)
          (bindR (copy_into (bufData b1) (beginWrite b1) str)
             (\<lambda>d. Inr (b1\<lparr>bufData := d, writerIndex := size_add (writerIndex b1) (length str)\<rparr>))))"

definition prepend :: "string \<Rightarrow> buffer \<Rightarrow> buffer result" where
  "prepend str b =
     assertR (length str \<le> prependableBytes b)
       (let r = size_sub (readerIndex b) (length str)
        in bindR (copy_into (bufData b) r str) (\<lambda>d. Inr (b\<lparr>readerIndex := r, bufData := d\<rparr>)))"

definition shrink :: "nat \<Rightarrow> buffer \<Rightarrow> buffer result" where
  "shrink reserve b =
     (let n = size_add (size_add kCheapPrepend (readableBytes b)) reserve
      in if max_size < n then Inl Uncaught
         else bindR (copy_into (replicate n (CHR 0x00)) kCheapPrepend (readString b (readableBytes b)))
                (\<lambda>buf. let b1 = b\<lparr>bufData := buf\<rparr>
                        in assertR (writableBytes b1 = reserve) (Inr b1)))"

definition hasWritten :: "nat \<Rightarrow> buffer \<Rightarrow> buffer result" where
  "hasWritten len b =
     assertR (len \<le> writableBytes b)
       (Inr (b\<lparr>writerIndex := size_add (writerIndex b) len\<rparr>))"

definition findCRLF_from :: "nat \<Rightarrow> buffer \<Rightarrow> nat option result" where
  "findCRLF_from start b =
     assertR (beginRead b \<le> start) (assertR (start \<le> beginWrite b)
       (Inr (map_option ((+) start) (search kCRLF (seg (bufData b) start (beginWrite b))))))"

definition findCRLF :: "buffer \<Rightarrow> nat option" where
  "findCRLF b =
     map_option ((+) (beginRead b))
       (search kCRLF (seg (bufData b) (beginRead b) (beginWrite b)))"

text \<open>
  The outcome of \<^verbatim>\<open>readv(fd, vec, 2)\<close>: an error number, or the bytes received, which the
  kernel puts into the first segment (the writable space) and then into the second (the
  array \<^verbatim>\<open>extrabuf\<close>).
\<close>

datatype readv_result = ReadvError int | ReadvBytes string

definition extrabufSize :: nat where
  "extrabufSize = 65536"

definition readFd :: "readv_result \<Rightarrow> buffer \<Rightarrow> (int \<times> int option \<times> buffer) result" where
  "readFd res b =
     (let writable = writableBytes b
      in case res of
           ReadvError err \<Rightarrow> Inr (-1, Some err, b)
         | ReadvBytes bytes \<Rightarrow>
             (let n = length bytes;
                  b0 = b\<lparr>bufData := blit (bufData b) (beginWrite b) (take writable bytes)\<rparr>
              in if n \<le> writable
                 then Inr (int n, None, b0\<lparr>writerIndex := size_add (writerIndex b0) n\<rparr>)
                 else bindR (appendBuf (drop writable bytes) (b0\<lparr>writerIndex := length (bufData b0)\<rparr>))
                        (\<lambda>b1. Inr (int n, None, b1))))"

section \<open>Invariant and abstraction\<close>

definition buf_ok :: "buffer \<Rightarrow> bool" where
  "buf_ok b \<longleftrightarrow> readerIndex b \<le> writerIndex b \<and> writerIndex b \<le> length (bufData b)
     \<and> kCheapPrepend \<le> length (bufData b) \<and> length (bufData b) \<le> max_size"

definition contents :: "buffer \<Rightarrow> string" where
  "contents b = seg (bufData b) (readerIndex b) (writerIndex b)"

text \<open>The condition under which \<open>makeSpace\<close> moves the data instead of growing the vector.\<close>

definition compacts :: "nat \<Rightarrow> buffer \<Rightarrow> bool" where
  "compacts len b \<longleftrightarrow> \<not> len \<le> writableBytes b
     \<and> len \<le> size_add (size_sub (prependableBytes b) kCheapPrepend) (writableBytes b)"

text \<open>Room for \<open>len\<close> more bytes without compaction and within the largest vector.\<close>

definition room :: "nat \<Rightarrow> buffer \<Rightarrow> bool" where
  "room len b \<longleftrightarrow> \<not> compacts len b \<and> writerIndex b + len \<le> max_size"

text \<open>The same for a read of \<open>len\<close> bytes, whose tail beyond the writable space is appended.\<close>

definition read_room :: "nat \<Rightarrow> buffer \<Rightarrow> bool" where
  "read_room len b \<longleftrightarrow> len \<le> writableBytes b
     \<or> kCheapPrepend \<le> readerIndex b \<and> readerIndex b + writableBytes b < len + kCheapPrepend
        \<and> writerIndex b + len \<le> max_size"

section \<open>The operations of a buffer, as one type\<close>

datatype buffer_op =
    Retrieve nat
  | RetrieveUntil nat
  | RetrieveAll
  | Append string
  | Prepend string
  | Shrink nat
  | MakeSpace nat
  | HasWritten nat
  | ReadFd readv_result

fun buffer_step :: "buffer_op \<Rightarrow> buffer \<Rightarrow> buffer result" where
  "buffer_step (Retrieve n) b = retrieve n b"
| "buffer_step (RetrieveUntil e) b = retrieveUntil e b"
| "buffer_step RetrieveAll b = Inr (retrieveAll b)"
| "buffer_step (Append s) b = appendBuf s b"
| "buffer_step (Prepend s) b = prepend s b"
| "buffer_step (Shrink n) b = shrink n b"
| "buffer_step (MakeSpace n) b = makeSpace n b"
| "buffer_step (HasWritten n) b = hasWritten n b"
| "buffer_step (ReadFd r) b = bindR (readFd r b) (\<lambda>(_, _, b'). Inr b')"

text \<open>Arguments of at most the largest vector size.\<close>

fun op_bounded :: "buffer_op \<Rightarrow> bool" where
  "op_bounded (Append s) = (length s \<le> max_size)"
| "op_bounded (MakeSpace n) = (n \<le> max_size)"
| "op_bounded (ReadFd (ReadvBytes s)) = (length s \<le> max_size)"
| "op_bounded _ = True"

section \<open>Basic lemmas\<close>

named_theorems buffer_defs \<open>definitions of the buffer operations\<close>

declare beginRead_def [buffer_defs] beginWrite_def [buffer_defs] retrieveAll_def [buffer_defs]

lemma kCheapPrepend_small: "kCheapPrepend \<le> size_modulus" "kCheapPrepend + max_size < size_modulus"
  by (simp_all add: kCheapPrepend_def size_modulus_def max_size_def)

lemma buf_okD:
  assumes "buf_ok b"
  shows "readerIndex b \<le> writerIndex b" "writerIndex b \<le> length (bufData b)"
    "kCheapPrepend \<le> length (bufData b)" "length (bufData b) \<le> max_size"
    "readerIndex b < size_modulus" "writerIndex b < size_modulus"
    "length (bufData b) < size_modulus"
  using assms max_size_less by (auto simp: buf_ok_def)

lemma readableBytes_eq [simp]: "buf_ok b \<Longrightarrow> readableBytes b = writerIndex b - readerIndex b"
  by (simp add: readableBytes_def size_sub_eq buf_okD)

lemma writableBytes_eq [simp]: "buf_ok b \<Longrightarrow> writableBytes b = length (bufData b) - writerIndex b"
  by (simp add: writableBytes_def size_sub_eq buf_okD)

lemma prependableBytes_eq [simp]: "buf_ok b \<Longrightarrow> prependableBytes b = readerIndex b"
  by (simp add: prependableBytes_def size_sub_eq buf_okD)

lemma length_contents: "buf_ok b \<Longrightarrow> length (contents b) = readableBytes b"
  by (auto simp: contents_def buf_ok_def)

lemma readString_contents:
  "buf_ok b \<Longrightarrow> n \<le> readableBytes b \<Longrightarrow> readString b n = take n (contents b)"
  using buf_okD(1) [of b]
  by (simp add: readString_def contents_def beginRead_def min_absorb2)

lemma newBuffer_ok: "buf_ok newBuffer"
  by (simp add: buf_ok_def newBuffer_def kCheapPrepend_def kInitialSize_def max_size_def)

lemma contents_newBuffer [simp]: "contents newBuffer = []"
  by (simp add: contents_def newBuffer_def)

lemma buf_ok_retrieveAll: "buf_ok b \<Longrightarrow> buf_ok (retrieveAll b)"
  by (simp add: buf_ok_def retrieveAll_def)

lemma contents_retrieveAll [simp]: "contents (retrieveAll b) = []"
  by (simp add: contents_def retrieveAll_def)

section \<open>Consuming bytes\<close>

text \<open>Moving the reader, with the reset to the front when the buffer runs empty.\<close>

lemma advance_reader:
  assumes "buf_ok b" and "n \<le> readableBytes b"
  defines "b1 \<equiv> b\<lparr>readerIndex := size_add (readerIndex b) n\<rparr>"
  defines "b' \<equiv> (if readerIndex b1 = writerIndex b1 then retrieveAll b1 else b1)"
  shows "buf_ok b' \<and> contents b' = drop n (contents b)"
proof -
  have n: "readerIndex b + n \<le> writerIndex b" using assms(1,2) buf_okD(1) [of b] by simp
  have r: "size_add (readerIndex b) n = readerIndex b + n"
    using n buf_okD(6) [OF assms(1)] by (simp add: size_add_eq)
  have "buf_ok b1" using assms(1) n by (simp add: b1_def r buf_ok_def)
  moreover have "contents b1 = drop n (contents b)" by (simp add: b1_def r contents_def)
  moreover have "readerIndex b1 = writerIndex b1 \<Longrightarrow> contents b1 = []" by (simp add: contents_def)
  ultimately show ?thesis by (auto simp: b'_def buf_ok_retrieveAll)
qed

lemma retrieve_ok:
  assumes "buf_ok b" and "n \<le> readableBytes b"
  obtains b' where "retrieve n b = Inr b'" "buf_ok b'" "contents b' = drop n (contents b)"
  using that assms(2) advance_reader [OF assms]
  unfolding retrieve_def Let_def by (simp only: assertR_True simp_thms)

lemma retrieve_all:
  assumes "buf_ok b"
  shows "retrieve (readableBytes b) b = Inr (retrieveAll b)" and "readableBytes (retrieveAll b) = 0"
proof -
  have "size_add (readerIndex b) (readableBytes b) = writerIndex b"
    using assms buf_okD(1) [OF assms] buf_okD(6) [OF assms] by (simp add: size_add_eq buf_ok_def)
  then show "retrieve (readableBytes b) b = Inr (retrieveAll b)" by (simp add: retrieve_def retrieveAll_def Let_def)
  show "readableBytes (retrieveAll b) = 0"
    using length_contents [OF buf_ok_retrieveAll [OF assms]] by simp
qed

lemma retrieve_short: "readableBytes b < n \<Longrightarrow> retrieve n b = Inl AssertFailed"
  by (simp add: retrieve_def)

lemma retrieveUntil_ok:
  assumes "buf_ok b" and "readerIndex b \<le> e" and "e \<le> writerIndex b"
  obtains b' where "retrieveUntil e b = Inr b'" "buf_ok b'"
    "contents b' = drop (e - readerIndex b) (contents b)"
proof -
  have "e - readerIndex b \<le> readableBytes b" using assms by simp
  from advance_reader [OF assms(1) this] that assms(2,3) show thesis
    unfolding retrieveUntil_def Let_def beginRead_def beginWrite_def
    by (simp only: assertR_True simp_thms add_0)
qed

section \<open>Making space and appending\<close>

lemma compacts_iff:
  assumes "buf_ok b" and "kCheapPrepend \<le> readerIndex b"
  shows "compacts len b \<longleftrightarrow>
    writableBytes b < len \<and> len + kCheapPrepend \<le> readerIndex b + writableBytes b"
proof -
  have "readerIndex b + (length (bufData b) - writerIndex b) < size_modulus"
    using buf_okD [OF assms(1)] by simp
  then show ?thesis
    using assms kCheapPrepend_small(1) by (auto simp: compacts_def size_add_sub)
qed

text \<open>A buffer whose reader stands at the front never compacts: it has nothing to gain.\<close>

lemma front_not_compacts: "buf_ok b \<Longrightarrow> readerIndex b = kCheapPrepend \<Longrightarrow> \<not> compacts len b"
  by (simp add: compacts_iff)

lemma makeSpace_enough: "len \<le> writableBytes b \<Longrightarrow> makeSpace len b = Inr b"
  by (simp add: makeSpace_def)

lemma makeSpace_grow:
  assumes "buf_ok b" and "room len b" and "\<not> len \<le> writableBytes b"
  shows "makeSpace len b = Inr (b\<lparr>bufData := bufData b @
           replicate (writerIndex b + len - length (bufData b)) (CHR 0x00)\<rparr>)"
    and "buf_ok (b\<lparr>bufData := bufData b @
           replicate (writerIndex b + len - length (bufData b)) (CHR 0x00)\<rparr>)" (is "buf_ok ?b1")
proof -
  have le: "writerIndex b + len \<le> max_size" "length (bufData b) \<le> writerIndex b + len"
    using assms by (auto simp: room_def)
  then show ok: "buf_ok ?b1" using assms(1) by (auto simp: buf_ok_def)
  have add: "size_add (writerIndex b) len = writerIndex b + len"
    using le max_size_less by (simp add: size_add_eq)
  have "\<not> len \<le> size_add (size_sub (prependableBytes b) kCheapPrepend) (writableBytes b)"
    using assms(2,3) by (simp add: room_def compacts_def)
  with assms(3) le ok show "makeSpace len b = Inr ?b1"
    by (simp add: makeSpace_def resize_def add take_all)
qed

lemma appendBuf_fits:
  assumes "buf_ok b" and "length s \<le> writableBytes b"
  shows "appendBuf s b = Inr (b\<lparr>bufData := blit (bufData b) (writerIndex b) s,
                                writerIndex := writerIndex b + length s\<rparr>)"
  using assms buf_okD [OF assms(1)]
  by (simp add: appendBuf_def makeSpace_enough copy_into_def beginWrite_def size_add_eq)

lemma blit_at_writer:
  assumes "buf_ok b" and "length s \<le> writableBytes b"
  defines "b' \<equiv> b\<lparr>bufData := blit (bufData b) (writerIndex b) s,
                  writerIndex := writerIndex b + length s\<rparr>"
  shows "buf_ok b' \<and> contents b' = contents b @ s"
proof -
  have "writerIndex b + length s \<le> length (bufData b)"
    using assms(1,2) buf_okD(2) [of b] by simp
  with buf_okD [OF assms(1)] show ?thesis
    by (simp add: b'_def buf_ok_def contents_def seg_blit_extend)
qed

lemma contents_grow: "buf_ok b \<Longrightarrow> contents (b\<lparr>bufData := bufData b @ xs\<rparr>) = contents b"
  by (simp add: contents_def seg_append1 buf_okD)

lemma appendBuf_via_makeSpace:
  assumes "makeSpace (length s) b = Inr b1" and "buf_ok b1" and "length s \<le> writableBytes b1"
  obtains b' where "appendBuf s b = Inr b'" "buf_ok b'" "contents b' = contents b1 @ s"
proof -
  from assms(1,3) have "appendBuf s b = appendBuf s b1"
    by (simp add: appendBuf_def makeSpace_enough)
  with appendBuf_fits [OF assms(2,3)] blit_at_writer [OF assms(2,3)] that show thesis by metis
qed

lemma appendBuf_ok:
  assumes "buf_ok b" and "room (length s) b"
  obtains b' where "appendBuf s b = Inr b'" "buf_ok b'" "contents b' = contents b @ s"
proof (cases "length s \<le> writableBytes b")
  case True
  with makeSpace_enough assms(1) that show thesis by (metis appendBuf_via_makeSpace)
next
  case False
  note grow = makeSpace_grow [OF assms False]
  have "length s \<le> writableBytes (b\<lparr>bufData := bufData b @
      replicate (writerIndex b + length s - length (bufData b)) (CHR 0x00)\<rparr>)"
    using False assms(1) grow(2) by simp
  from appendBuf_via_makeSpace [OF grow this] that contents_grow [OF assms(1)]
  show thesis by metis
qed

text \<open>A buffer whose reader stands at the front keeps it there when bytes are appended.\<close>

lemma appendBuf_front:
  assumes "buf_ok b" and "readerIndex b = kCheapPrepend" and "writerIndex b + length s \<le> max_size"
  obtains b' where "appendBuf s b = Inr b'" "buf_ok b'" "contents b' = contents b @ s"
    "readerIndex b' = kCheapPrepend" "writerIndex b' = writerIndex b + length s"
proof -
  have room: "room (length s) b" using assms front_not_compacts by (simp add: room_def)
  obtain b' where b': "appendBuf s b = Inr b'" "buf_ok b'" "contents b' = contents b @ s"
    by (rule appendBuf_ok [OF assms(1) room])
  have "readerIndex b' = readerIndex b \<and> writerIndex b' = writerIndex b + length s"
  proof (cases "length s \<le> writableBytes b")
    case True
    from appendBuf_fits [OF assms(1) this] b'(1) show ?thesis by auto
  next
    case False
    note grow = makeSpace_grow [OF assms(1) room False]
    let ?b1 = "b\<lparr>bufData := bufData b @ replicate (writerIndex b + length s - length (bufData b)) (CHR 0x00)\<rparr>"
    have fits: "length s \<le> writableBytes ?b1" using grow(2) False assms(1) by simp
    then have "appendBuf s b = appendBuf s ?b1" using grow(1) by (simp add: appendBuf_def makeSpace_enough)
    with appendBuf_fits [OF grow(2) fits] b'(1) show ?thesis by auto
  qed
  with b' assms(2) that show thesis by simp
qed

text \<open>
  The compacting branch copies from \<^verbatim>\<open>begin()\<close>, the start of the vector, and not from
  \<^verbatim>\<open>beginRead()\<close>. Within the vector the readable bytes become its first bytes; past it the
  copy runs over the end.
\<close>

lemma makeSpace_compact:
  assumes "buf_ok b" and "compacts len b" and "writerIndex b + kCheapPrepend \<le> length (bufData b)"
  defines "b1 \<equiv> b\<lparr>bufData := blit (bufData b) kCheapPrepend (take (writerIndex b) (bufData b)),
                  writerIndex := kCheapPrepend + (writerIndex b - readerIndex b),
                  readerIndex := kCheapPrepend\<rparr>"
  shows "makeSpace len b = Inr b1 \<and> buf_ok b1 \<and> len \<le> writableBytes b1
    \<and> contents b1 = take (readableBytes b) (bufData b)"
proof -
  have seg: "seg (bufData b) 0 (beginWrite b) = take (writerIndex b) (bufData b)"
    by (simp add: seg_def beginWrite_def)
  have len: "length (take (writerIndex b) (bufData b)) = writerIndex b"
    using buf_okD(2) [OF assms(1)] by simp
  have add: "size_add kCheapPrepend (writerIndex b - readerIndex b)
      = kCheapPrepend + (writerIndex b - readerIndex b)"
    using buf_okD [OF assms(1)] kCheapPrepend_small(2) by (simp add: size_add_eq)
  have ok: "buf_ok b1" using assms(1,3) len by (auto simp: buf_ok_def b1_def)
  have "readerIndex b + (length (bufData b) - writerIndex b) < size_modulus"
    using buf_okD [OF assms(1)] by simp
  then have "size_add (size_sub (readerIndex b) kCheapPrepend) (length (bufData b) - writerIndex b)
      = readerIndex b + (length (bufData b) - writerIndex b) - kCheapPrepend"
    using assms(3) kCheapPrepend_small(1) by (intro size_add_sub) auto
  then have fits: "len \<le> writableBytes b1"
    using assms(1-3) buf_okD [OF assms(1)] ok len by (simp add: compacts_def b1_def ac_simps)
  have "makeSpace len b = assertR (len \<le> writableBytes b1) (Inr b1)"
    using assms(1-3) len
    by (simp add: makeSpace_def compacts_def seg add copy_into_def b1_def add.commute)
  moreover have "contents b1 = take (readableBytes b) (bufData b)"
    using assms(1,3) len
    by (simp add: contents_def b1_def seg_blit_prefix min_absorb1)
  ultimately show ?thesis using ok fits by simp
qed

lemma makeSpace_overrun:
  assumes "buf_ok b" and "compacts len b" and "length (bufData b) < writerIndex b + kCheapPrepend"
  shows "makeSpace len b = Inl OutOfBounds"
proof -
  have "length (seg (bufData b) 0 (beginWrite b)) = writerIndex b"
    using buf_okD(2) [OF assms(1)] by (simp add: beginWrite_def)
  with assms show ?thesis by (simp add: makeSpace_def compacts_def copy_into_def add.commute)
qed

section \<open>Reading, prepending, searching\<close>

lemma readFd_fits:
  assumes "buf_ok b" and "length bytes \<le> writableBytes b"
  obtains b' where "readFd (ReadvBytes bytes) b = Inr (int (length bytes), None, b')" "buf_ok b'"
    "contents b' = contents b @ bytes"
proof -
  have "size_add (writerIndex b) (length bytes) = writerIndex b + length bytes"
    using assms buf_okD [OF assms(1)] by (simp add: size_add_eq)
  with that assms blit_at_writer [OF assms] show thesis
    by (simp add: readFd_def Let_def beginWrite_def)
qed

text \<open>A read beyond the writable space fills the vector and appends the rest.\<close>

lemma readFd_spill_eq:
  assumes "buf_ok b" and "\<not> length bytes \<le> writableBytes b"
  obtains b0 where "buf_ok b0" "contents b0 = contents b @ take (writableBytes b) bytes"
    "writerIndex b0 = length (bufData b0)" "length (bufData b0) = length (bufData b)"
    "readerIndex b0 = readerIndex b"
    "readFd (ReadvBytes bytes) b =
       bindR (appendBuf (drop (writableBytes b) bytes) b0) (\<lambda>b1. Inr (int (length bytes), None, b1))"
proof -
  let ?s = "take (writableBytes b) bytes"
  let ?b0 = "b\<lparr>bufData := blit (bufData b) (writerIndex b) ?s, writerIndex := writerIndex b + length ?s\<rparr>"
  have full: "writerIndex b + length ?s = length (bufData b)"
    using assms buf_okD(2) [OF assms(1)] by simp
  have "buf_ok ?b0" "contents ?b0 = contents b @ ?s"
    using blit_at_writer [OF assms(1), of ?s] by simp_all
  moreover have "length (blit (bufData b) (writerIndex b) ?s) = length (bufData b)"
    using full by simp
  moreover have "readFd (ReadvBytes bytes) b =
      bindR (appendBuf (drop (writableBytes b) bytes) ?b0) (\<lambda>b1. Inr (int (length bytes), None, b1))"
    using assms(2) full calculation(3) by (simp add: readFd_def Let_def beginWrite_def)
  ultimately show thesis using full by (intro that [of ?b0]) simp_all
qed

lemma readFd_spills:
  assumes "buf_ok b" and "\<not> length bytes \<le> writableBytes b" and "read_room (length bytes) b"
  obtains b' where "readFd (ReadvBytes bytes) b = Inr (int (length bytes), None, b')" "buf_ok b'"
    "contents b' = contents b @ bytes"
proof -
  let ?t = "drop (writableBytes b) bytes"
  obtain b0 where b0: "buf_ok b0" "contents b0 = contents b @ take (writableBytes b) bytes"
    "writerIndex b0 = length (bufData b0)" "length (bufData b0) = length (bufData b)"
    "readerIndex b0 = readerIndex b"
    and eq: "readFd (ReadvBytes bytes) b =
      bindR (appendBuf ?t b0) (\<lambda>b1. Inr (int (length bytes), None, b1))"
    using readFd_spill_eq [OF assms(1,2)] by blast
  have "room (length ?t) b0"
    using assms b0 buf_okD(2) [OF assms(1)] by (auto simp: room_def compacts_iff read_room_def)
  from appendBuf_ok [OF b0(1) this] obtain b' where
    "appendBuf ?t b0 = Inr b'" "buf_ok b'" "contents b' = contents b @ bytes"
    using b0(2) by (metis append.assoc append_take_drop_id)
  with that eq show thesis by simp
qed

lemma readFd_ok:
  assumes "buf_ok b" and "read_room (length bytes) b"
  shows "\<exists>b'. readFd (ReadvBytes bytes) b = Inr (int (length bytes), None, b') \<and> buf_ok b'
    \<and> contents b' = contents b @ bytes"
proof (cases "length bytes \<le> writableBytes b")
  case True
  then show ?thesis using readFd_fits [OF assms(1)] by blast
next
  case False
  then show ?thesis using readFd_spills [OF assms(1) _ assms(2)] by blast
qed

lemma prepend_ok:
  assumes "buf_ok b" and "length s \<le> readerIndex b"
  obtains b' where "prepend s b = Inr b'" "buf_ok b'" "contents b' = s @ contents b"
proof -
  let ?r = "readerIndex b - length s"
  let ?b' = "b\<lparr>readerIndex := ?r, bufData := blit (bufData b) ?r s\<rparr>"
  have r: "size_sub (readerIndex b) (length s) = ?r"
    using assms buf_okD [OF assms(1)] by (simp add: size_sub_eq)
  have le: "?r + length s = readerIndex b" "?r + length s \<le> length (bufData b)"
    using assms buf_okD [OF assms(1)] by auto
  have "prepend s b = Inr ?b'"
    using assms le(2) by (simp add: prepend_def r copy_into_def Let_def)
  moreover have "buf_ok ?b'" using assms(1) le by (auto simp: buf_ok_def)
  moreover have "contents ?b' = s @ contents b"
  proof -
    have "contents ?b' = seg (blit (bufData b) ?r s) ?r (readerIndex b) @
            seg (blit (bufData b) ?r s) (readerIndex b) (writerIndex b)"
      using buf_okD(1) [OF assms(1)] by (simp add: contents_def seg_split [of ?r "readerIndex b" "writerIndex b"])
    also have "seg (blit (bufData b) ?r s) ?r (readerIndex b) = s"
      using seg_blit_self [OF le(2)] le(1) by simp
    also have "seg (blit (bufData b) ?r s) (readerIndex b) (writerIndex b) = contents b"
      using seg_blit_after [OF le(2)] le(1) by (simp add: contents_def)
    finally show ?thesis .
  qed
  ultimately show thesis by (rule that)
qed

lemma shrink_at_front:
  assumes "buf_ok b" and "readerIndex b = kCheapPrepend"
    and "kCheapPrepend + readableBytes b + n \<le> max_size"
  obtains b' where "shrink n b = Inr b'" "buf_ok b'" "contents b' = contents b" "writableBytes b' = n"
proof -
  let ?k = "kCheapPrepend + readableBytes b + n"
  let ?b' = "b\<lparr>bufData := blit (replicate ?k (CHR 0x00)) kCheapPrepend (contents b)\<rparr>"
  have w: "kCheapPrepend + readableBytes b = writerIndex b" using assms buf_okD(1) [of b] by simp
  have k: "size_add (size_add kCheapPrepend (readableBytes b)) n = ?k"
    using assms(3) max_size_less by (simp add: size_add_eq)
  have len: "length (contents b) = readableBytes b" using assms(1) by (rule length_contents)
  have ok: "buf_ok ?b'" using assms w len by (auto simp: buf_ok_def)
  have wr: "writableBytes ?b' = n" using ok w len assms(1) by simp
  moreover have "contents ?b' = contents b"
  proof -
    have "contents ?b' = seg (blit (replicate ?k (CHR 0x00)) kCheapPrepend (contents b))
        kCheapPrepend (kCheapPrepend + length (contents b))"
      using w len assms(2) by (simp add: contents_def)
    also have "\<dots> = contents b" using len by (intro seg_blit_self) simp
    finally show ?thesis .
  qed
  moreover have "shrink n b = Inr ?b'"
    using assms(3) len wr readString_contents [OF assms(1) le_refl]
    by (simp add: shrink_def Let_def k copy_into_def)
  ultimately show thesis using ok that by blast
qed

lemma findCRLF_Some:
  assumes "buf_ok b" and "findCRLF b = Some p"
  shows "search kCRLF (contents b) = Some (p - readerIndex b)" "readerIndex b \<le> p"
    "p + 2 \<le> writerIndex b"
proof -
  obtain n where n: "search kCRLF (contents b) = Some n" "p = readerIndex b + n"
    using assms(2) by (auto simp: findCRLF_def contents_def beginRead_def beginWrite_def)
  then show "search kCRLF (contents b) = Some (p - readerIndex b)" "readerIndex b \<le> p" by simp_all
  have "n + 2 \<le> length (contents b)" using search_SomeD [OF n(1)] by (simp add: kCRLF_def)
  then show "p + 2 \<le> writerIndex b" using n(2) assms(1) by (simp add: length_contents)
qed

lemma findCRLF_None: "findCRLF b = None \<longleftrightarrow> search kCRLF (contents b) = None"
  by (simp add: findCRLF_def contents_def beginRead_def beginWrite_def)

section \<open>Every operation keeps the invariant\<close>

lemma makeSpace_preserves:
  assumes "buf_ok b" and "n \<le> max_size" and "makeSpace n b = Inr b'"
  shows "buf_ok b' \<and> n \<le> writableBytes b'"
proof -
  consider (enough) "n \<le> writableBytes b"
    | (move) "compacts n b" "writerIndex b + kCheapPrepend \<le> length (bufData b)"
    | (over) "compacts n b" "length (bufData b) < writerIndex b + kCheapPrepend"
    | (grow) "\<not> compacts n b" "\<not> n \<le> writableBytes b"
    by linarith
  then show ?thesis
  proof cases
    case enough
    then show ?thesis using assms by (simp add: makeSpace_enough)
  next
    case move
    from makeSpace_compact [OF assms(1) move] assms(3) show ?thesis by (auto simp del: writableBytes_eq)
  next
    case over
    from makeSpace_overrun [OF assms(1) over] assms(3) show ?thesis by simp
  next
    case grow
    have add: "size_add (writerIndex b) n = writerIndex b + n"
      using assms(2) buf_okD [OF assms(1)] max_size_less by (simp add: size_add_eq)
    with grow assms(1,3) have "writerIndex b + n \<le> max_size"
      by (auto simp: makeSpace_def compacts_def resize_def result_simps split: if_splits)
    with grow have "room n b" by (simp add: room_def)
    from makeSpace_grow [OF assms(1) this grow(2)] assms(1,3) grow(2) show ?thesis by auto
  qed
qed

lemma appendBuf_preserves:
  assumes "buf_ok b" and "length s \<le> max_size" and "appendBuf s b = Inr b'"
  shows "buf_ok b'"
proof -
  obtain b1 where b1: "makeSpace (length s) b = Inr b1"
    using assms(3) by (auto simp: appendBuf_def result_simps)
  from makeSpace_preserves [OF assms(1,2) this] have "buf_ok b1" "length s \<le> writableBytes b1" by auto
  from appendBuf_via_makeSpace [OF b1 this] assms(3) show ?thesis by (metis Inr_inject)
qed

text \<open>
  \<open>shrink\<close> does not move the indices to the new layout; its own assertion lets it through
  only when they already fit it.
\<close>

lemma shrink_assert:
  assumes "buf_ok b" and "shrink n b = Inr b'"
  shows "readerIndex b = kCheapPrepend" and "kCheapPrepend + readableBytes b + n \<le> max_size"
proof -
  let ?k = "kCheapPrepend + readableBytes b"
  define d where "d = replicate (size_add (size_add kCheapPrepend (readableBytes b)) n) (CHR 0x00)"
  have d: "length d \<le> max_size" "size_sub (length d) (writerIndex b) = n"
    "?k \<le> length d" "length d = size_add (size_add kCheapPrepend (readableBytes b)) n"
    unfolding d_def using assms(2) readString_contents [OF assms(1) le_refl] length_contents [OF assms(1)]
    by (auto simp: shrink_def Let_def result_simps writableBytes_def split: if_splits)
  have k: "size_add kCheapPrepend (readableBytes b) = ?k" "?k < size_modulus"
    using d(1,3) max_size_less by (simp_all add: size_add_eq)
  have n: "n < size_modulus" using d(2) by (auto simp: size_sub_def)
  have no_wrap: "?k + n < size_modulus"
  proof (rule ccontr)
    assume "\<not> ?k + n < size_modulus"
    then have "length d = ?k + n - size_modulus"
      using d(4) k n by (simp add: size_add_def mod_if [of "?k + n"])
    with d(3) n show False by (simp add: kCheapPrepend_def)
  qed
  then have len: "length d = ?k + n" using d(4) k(1) by (simp add: size_add_eq)
  show "?k + n \<le> max_size" using d(1) len by simp
  have w: "writerIndex b = readerIndex b + readableBytes b" using buf_okD(1) [OF assms(1)] assms(1) by simp
  show "readerIndex b = kCheapPrepend"
  proof (cases "writerIndex b \<le> length d")
    case True
    then have "length d - writerIndex b = n" using d(2) no_wrap len by (simp add: size_sub_eq)
    with True w len show ?thesis by linarith
  next
    case False
    then have "size_sub (length d) (writerIndex b) = length d + (size_modulus - writerIndex b)"
      using buf_okD(6) [OF assms(1)] by (simp add: size_sub_def)
    with False d(2) len buf_okD(6) [OF assms(1)] show ?thesis by linarith
  qed
qed

lemma shrink_preserves: "buf_ok b \<Longrightarrow> shrink n b = Inr b' \<Longrightarrow> buf_ok b'"
  using shrink_at_front shrink_assert by (metis Inr_inject)

lemma retrieve_preserves: "buf_ok b \<Longrightarrow> retrieve n b = Inr b' \<Longrightarrow> buf_ok b'"
  using retrieve_ok [of b n] by (auto simp: retrieve_def result_simps)

lemma retrieveUntil_preserves: "buf_ok b \<Longrightarrow> retrieveUntil e b = Inr b' \<Longrightarrow> buf_ok b'"
  using retrieveUntil_ok [of b e]
  by (auto simp: retrieveUntil_def result_simps beginRead_def beginWrite_def)

lemma prepend_preserves: "buf_ok b \<Longrightarrow> prepend s b = Inr b' \<Longrightarrow> buf_ok b'"
  using prepend_ok [of b s] by (auto simp: prepend_def result_simps Let_def)

lemma hasWritten_preserves: "buf_ok b \<Longrightarrow> hasWritten n b = Inr b' \<Longrightarrow> buf_ok b'"
  using buf_okD [of b] by (auto simp: hasWritten_def result_simps size_add_eq) (simp add: buf_ok_def)

lemma readFd_preserves:
  assumes "buf_ok b" and "readFd (ReadvBytes bytes) b = Inr (n, e, b')" and "length bytes \<le> max_size"
  shows "buf_ok b'"
proof (cases "length bytes \<le> writableBytes b")
  case True
  with assms readFd_fits show ?thesis by (metis Inr_inject prod.inject)
next
  case False
  obtain b0 where b0: "buf_ok b0" "readFd (ReadvBytes bytes) b =
      bindR (appendBuf (drop (writableBytes b) bytes) b0) (\<lambda>b1. Inr (int (length bytes), None, b1))"
    using readFd_spill_eq [OF assms(1) False] by blast
  have len: "length (drop (writableBytes b) bytes) \<le> max_size" using assms(3) by simp
  from assms(2) b0(2) have "appendBuf (drop (writableBytes b) bytes) b0 = Inr b'"
    by (auto simp: bindR_eq_Inr)
  then show ?thesis by (rule appendBuf_preserves [OF b0(1) len])
qed

section \<open>The buffer as a queue of bytes\<close>

text \<open>
  What the users of a buffer rely on (the connection, the HTTP parser): pushing appends to the
  abstract string where there is room, popping drops from its front, and a failed pop is an
  assertion failure. The two lemmas are the client's view: with \<open>done\<close> the bytes already
  taken out, nothing is lost, duplicated or reordered between \<open>done\<close> and the queue.
\<close>

locale byte_queue =
  fixes inv :: "'b \<Rightarrow> bool"
    and abs :: "'b \<Rightarrow> string"
    and room :: "nat \<Rightarrow> 'b \<Rightarrow> bool"
    and push :: "string \<Rightarrow> 'b \<Rightarrow> 'b result"
    and pop :: "nat \<Rightarrow> 'b \<Rightarrow> 'b result"
  assumes push_ok: "inv b \<Longrightarrow> room (length s) b \<Longrightarrow>
      \<exists>b'. push s b = Inr b' \<and> inv b' \<and> abs b' = abs b @ s"
    and pop_ok: "inv b \<Longrightarrow> n \<le> length (abs b) \<Longrightarrow>
      \<exists>b'. pop n b = Inr b' \<and> inv b' \<and> abs b' = drop n (abs b)"
    and pop_short: "inv b \<Longrightarrow> length (abs b) < n \<Longrightarrow> pop n b = Inl AssertFailed"
begin

lemma push_stream:
  assumes "inv b" and "room (length s) b" and "done @ abs b = sent"
  obtains b' where "push s b = Inr b'" "inv b'" "done @ abs b' = sent @ s"
  using push_ok [OF assms(1,2)] assms(3) that by auto

lemma pop_stream:
  assumes "inv b" and "n \<le> length (abs b)" and "done @ abs b = sent"
  obtains b' where "pop n b = Inr b'" "inv b'" "(done @ take n (abs b)) @ abs b' = sent"
  using pop_ok [OF assms(1,2)] assms(3) that by auto

end

interpretation bq: byte_queue buf_ok contents room appendBuf retrieve
proof unfold_locales
  show "\<exists>b'. appendBuf s b = Inr b' \<and> buf_ok b' \<and> contents b' = contents b @ s"
    if "buf_ok b" "room (length s) b" for b s
    using appendBuf_ok [OF that] by blast
  show "\<exists>b'. retrieve n b = Inr b' \<and> buf_ok b' \<and> contents b' = drop n (contents b)"
    if "buf_ok b" "n \<le> length (contents b)" for b n
    using retrieve_ok that by (metis length_contents)
  show "retrieve n b = Inl AssertFailed" if "buf_ok b" "length (contents b) < n" for b n
    using that by (simp add: retrieve_short length_contents)
qed

section \<open>Properties\<close>

lemma newBuffer_room: "n \<le> max_size - kCheapPrepend \<Longrightarrow> room n newBuffer"
  using front_not_compacts [OF newBuffer_ok]
  by (simp add: room_def newBuffer_def kCheapPrepend_def max_size_def)

lemma newBuffer_simps [simp]:
  "readerIndex newBuffer = 8" "writerIndex newBuffer = 8" "length (bufData newBuffer) = 1032"
  "bufData newBuffer = replicate 1032 (CHR 0x00)"
  by (simp_all add: newBuffer_def kCheapPrepend_def kInitialSize_def)

text \<open>
  C18: the queue laws of a buffer. Where \<open>makeSpace\<close> does not compact and the vector does not
  pass its largest size, \<open>append\<close> succeeds and adds exactly the given bytes behind the
  readable ones; \<open>retrieve\<close> of at most the readable bytes succeeds and drops exactly those
  from the front; more is an assertion failure. With \<open>done\<close> the bytes taken out so far, the
  stream is kept in order.
\<close>

theorem buffer_is_queue:
  assumes "buf_ok b"
  shows "(room (length s) b \<longrightarrow>
            (\<exists>b'. appendBuf s b = Inr b' \<and> buf_ok b' \<and> done @ contents b' = (done @ contents b) @ s))
       \<and> (n \<le> length (contents b) \<longrightarrow>
            (\<exists>b'. retrieve n b = Inr b' \<and> buf_ok b'
               \<and> (done @ take n (contents b)) @ contents b' = done @ contents b))
       \<and> (length (contents b) < n \<longrightarrow> retrieve n b = Inl AssertFailed)"
proof (intro conjI impI)
  show "\<exists>b'. appendBuf s b = Inr b' \<and> buf_ok b' \<and> done @ contents b' = (done @ contents b) @ s"
    if "room (length s) b" using bq.push_stream [OF assms that refl, of "done"] by blast
  show "\<exists>b'. retrieve n b = Inr b' \<and> buf_ok b' \<and> (done @ take n (contents b)) @ contents b' = done @ contents b"
    if "n \<le> length (contents b)" using bq.pop_stream [OF assms that refl, of "done"] by blast
  show "retrieve n b = Inl AssertFailed" if "length (contents b) < n"
    using assms that by (rule bq.pop_short)
qed

theorem buffer_is_queue_witness:
  "buf_ok newBuffer \<and> room (length ''hello'') newBuffer
   \<and> (\<exists>b'. appendBuf ''hello'' newBuffer = Inr b' \<and> contents b' = ''hello'')
   \<and> retrieve 1 newBuffer = Inl AssertFailed"
proof -
  have room: "room (length ''hello'') newBuffer"
    by (rule newBuffer_room) (simp add: kCheapPrepend_def max_size_def)
  from buffer_is_queue [OF newBuffer_ok, of "''hello''" "[]" 1] this newBuffer_ok show ?thesis
    by (simp del: list.size) blast
qed

text \<open>
  C26: every operation of a buffer keeps \<^verbatim>\<open>readerIndex_ <= writerIndex_ <= buffer_.size()\<close> and
  the size limits whenever it returns, for arguments of at most the largest vector size; this
  covers the compacting branch and \<open>shrink\<close>.
\<close>

theorem buffer_step_keeps_invariant:
  assumes "buf_ok b" and "op_bounded op" and "buffer_step op b = Inr b'"
  shows "buf_ok b'"
proof (cases op)
  case (ReadFd r)
  with assms show ?thesis
    by (cases r) (auto simp: bindR_eq_Inr dest: readFd_preserves, simp add: readFd_def Let_def)
next
  case RetrieveAll
  with assms show ?thesis by (auto intro: buf_ok_retrieveAll)
next
  case (Retrieve n)
  with assms show ?thesis by (auto dest: retrieve_preserves)
next
  case (RetrieveUntil e)
  with assms show ?thesis by (auto dest: retrieveUntil_preserves)
next
  case (Append s)
  with assms show ?thesis by (auto dest: appendBuf_preserves)
next
  case (Prepend s)
  with assms show ?thesis by (auto dest: prepend_preserves)
next
  case (Shrink n)
  with assms show ?thesis by (auto dest: shrink_preserves)
next
  case (MakeSpace n)
  with assms show ?thesis by (auto dest: makeSpace_preserves)
next
  case (HasWritten n)
  with assms show ?thesis by (auto dest: hasWritten_preserves)
qed

theorem buffer_step_keeps_invariant_witness:
  "\<exists>b'. op_bounded (Append ''GET'') \<and> buffer_step (Append ''GET'') newBuffer = Inr b' \<and> buf_ok b'"
proof -
  obtain b' where "buffer_step (Append ''GET'') newBuffer = Inr b'"
    using appendBuf_ok [OF newBuffer_ok newBuffer_room, of "''GET''"]
    by (auto simp: kCheapPrepend_def max_size_def)
  with buffer_step_keeps_invariant [OF newBuffer_ok _ this] show ?thesis by (simp add: max_size_def)
qed

lemma appendBuf_compacting:
  assumes "buf_ok b" and "compacts (length s) b"
  shows "if writerIndex b + kCheapPrepend \<le> length (bufData b)
         then \<exists>b'. appendBuf s b = Inr b' \<and> contents b' = take (readableBytes b) (bufData b) @ s
         else appendBuf s b = Inl OutOfBounds"
proof (cases "writerIndex b + kCheapPrepend \<le> length (bufData b)")
  case True
  let ?b1 = "b\<lparr>bufData := blit (bufData b) kCheapPrepend (take (writerIndex b) (bufData b)),
               writerIndex := kCheapPrepend + (writerIndex b - readerIndex b),
               readerIndex := kCheapPrepend\<rparr>"
  from makeSpace_compact [OF assms True] have "makeSpace (length s) b = Inr ?b1" "buf_ok ?b1"
    "length s \<le> writableBytes ?b1" and c: "contents ?b1 = take (readableBytes b) (bufData b)"
    by blast+
  from appendBuf_via_makeSpace [OF this(1-3)] c True show ?thesis by metis
next
  case False
  with makeSpace_overrun [OF assms] show ?thesis by (simp add: appendBuf_def)
qed

text \<open>A fresh buffer into which \<open>s\<close> has been put and of which \<open>n\<close> bytes have been taken.\<close>

lemma used_buffer:
  assumes "length s \<le> 1024" and "n < length s"
  defines "b \<equiv> \<lparr>bufData = blit (replicate 1032 (CHR 0x00)) 8 s, readerIndex = 8 + n,
               writerIndex = 8 + length s\<rparr>"
  shows "\<exists>b1. appendBuf s newBuffer = Inr b1 \<and> retrieve n b1 = Inr b"
    and "buf_ok b" and "contents b = drop n s"
proof -
  let ?b1 = "\<lparr>bufData = blit (replicate 1032 (CHR 0x00)) 8 s, readerIndex = 8, writerIndex = 8 + length s\<rparr>"
  have ok: "buf_ok ?b1" and ok': "buf_ok b"
    using assms by (simp_all add: buf_ok_def b_def kCheapPrepend_def max_size_def)
  have eq: "newBuffer = \<lparr>bufData = replicate 1032 (CHR 0x00), readerIndex = 8, writerIndex = 8\<rparr>"
    by (simp add: newBuffer_def kCheapPrepend_def kInitialSize_def)
  have "appendBuf s newBuffer = Inr ?b1"
    using appendBuf_fits [OF newBuffer_ok, of s] newBuffer_ok assms(1) by (simp add: eq)
  moreover have "retrieve n ?b1 = Inr b"
    using ok assms by (simp add: retrieve_def Let_def b_def size_add_eq size_modulus_def)
  ultimately show "\<exists>b1. appendBuf s newBuffer = Inr b1 \<and> retrieve n b1 = Inr b" by blast
  show "buf_ok b" by (rule ok')
  show "contents b = drop n s"
    using assms(1,2) by (simp add: contents_def b_def seg_def blit_def)
qed

text \<open>
  What an append does when \<open>makeSpace\<close> compacts. The copy starts at \<^verbatim>\<open>begin()\<close> instead of
  \<^verbatim>\<open>beginRead()\<close>: the readable bytes are replaced by the first bytes of the vector, or, when
  fewer than eight bytes of the vector lie behind the writer, the copy runs over its end.
\<close>

lemma append_compacting:
  assumes "buf_ok b" and "compacts (length s) b"
  shows "if writerIndex b + kCheapPrepend \<le> length (bufData b)
         then \<exists>b'. appendBuf s b = Inr b' \<and> contents b' = take (readableBytes b) (bufData b) @ s
         else appendBuf s b = Inl OutOfBounds"
  using assms by (rule appendBuf_compacting)

lemma append_compacting_example:
  "\<exists>(b :: buffer) b'. buf_ok b \<and> compacts 30 b \<and> appendBuf (replicate 30 CHR ''z'') b = Inr b'
     \<and> contents b' = take 100 (bufData b) @ replicate 30 CHR ''z''"
proof -
  let ?s = "replicate 1000 CHR ''x''"
  let ?b = "\<lparr>bufData = blit (replicate 1032 (CHR 0x00)) 8 ?s, readerIndex = 908, writerIndex = 1008\<rparr>"
  from used_buffer [of ?s 900] have ok: "buf_ok ?b" by simp
  then have c: "compacts (length (replicate 30 CHR ''z'')) ?b"
    by (simp add: compacts_iff kCheapPrepend_def)
  from append_compacting [OF ok c] ok c show ?thesis
    by - (rule exI [of _ ?b], simp add: kCheapPrepend_def)
qed

text \<open>
  C30: a reachable corruption. On a fresh buffer, append 900 times \<open>x\<close> and 100 times \<open>y\<close>,
  retrieve 900 bytes and append 30 times \<open>z\<close>: the readable bytes should be the 100 \<open>y\<close> and
  the 30 \<open>z\<close>; they are 8 zero bytes, 92 \<open>x\<close> and the 30 \<open>z\<close>. With 1020 bytes in the buffer
  instead, the last append writes outside the vector.
\<close>

theorem append_after_retrieve_corrupts:
  "(\<exists>b1 b2 b3. appendBuf (replicate 900 x @ replicate 100 y) newBuffer = Inr b1
      \<and> retrieve 900 b1 = Inr b2 \<and> contents b2 = replicate 100 y
      \<and> appendBuf (replicate 30 z) b2 = Inr b3
      \<and> contents b3 = replicate 8 (CHR 0x00) @ replicate 92 x @ replicate 30 z)
   \<and> (\<exists>b1 b2. appendBuf (replicate 1020 x) newBuffer = Inr b1
      \<and> retrieve 900 b1 = Inr b2 \<and> appendBuf (replicate 30 z) b2 = Inl OutOfBounds)"
proof
  let ?s = "replicate 900 x @ replicate 100 y"
  let ?b = "\<lparr>bufData = blit (replicate 1032 (CHR 0x00)) 8 ?s, readerIndex = 908, writerIndex = 1008\<rparr>"
  from used_buffer [of ?s 900] have u: "\<exists>b1. appendBuf ?s newBuffer = Inr b1 \<and> retrieve 900 b1 = Inr ?b"
    "buf_ok ?b" "contents ?b = replicate 100 y" by simp_all
  have "compacts (length (replicate 30 z)) ?b"
    using u(2) by (simp add: compacts_iff kCheapPrepend_def)
  from appendBuf_compacting [OF u(2) this] u(2)
  have "\<exists>b3. appendBuf (replicate 30 z) ?b = Inr b3
      \<and> contents b3 = take 100 (blit (replicate 1032 (CHR 0x00)) 8 ?s) @ replicate 30 z"
    by (simp add: kCheapPrepend_def)
  moreover have "take 100 (blit (replicate 1032 (CHR 0x00)) 8 ?s) = replicate 8 (CHR 0x00) @ replicate 92 x"
    by (simp add: blit_def)
  ultimately show "\<exists>b1 b2 b3. appendBuf ?s newBuffer = Inr b1
      \<and> retrieve 900 b1 = Inr b2 \<and> contents b2 = replicate 100 y
      \<and> appendBuf (replicate 30 z) b2 = Inr b3
      \<and> contents b3 = replicate 8 (CHR 0x00) @ replicate 92 x @ replicate 30 z"
    using u(1,3) by (metis append.assoc)
next
  let ?b = "\<lparr>bufData = blit (replicate 1032 (CHR 0x00)) 8 (replicate 1020 x), readerIndex = 908, writerIndex = 1028\<rparr>"
  from used_buffer [of "replicate 1020 x" 900]
  have u: "\<exists>b1. appendBuf (replicate 1020 x) newBuffer = Inr b1 \<and> retrieve 900 b1 = Inr ?b" "buf_ok ?b"
    by simp_all
  have "compacts (length (replicate 30 z)) ?b"
    using u(2) by (simp add: compacts_iff kCheapPrepend_def)
  from appendBuf_compacting [OF u(2) this] have "appendBuf (replicate 30 z) ?b = Inl OutOfBounds"
    by (simp add: kCheapPrepend_def)
  with u(1) show "\<exists>b1 b2. appendBuf (replicate 1020 x) newBuffer = Inr b1
      \<and> retrieve 900 b1 = Inr b2 \<and> appendBuf (replicate 30 z) b2 = Inl OutOfBounds" by blast
qed

text \<open>
  \<open>readFd\<close>. A failed \<^verbatim>\<open>readv\<close> leaves the buffer alone and stores the error number; a
  successful one returns the number of bytes and puts exactly the received bytes behind the
  readable ones, whether they fit the writable space or spill into \<^verbatim>\<open>extrabuf\<close> and from there
  into a grown vector.
\<close>

lemma readFd_receives:
  "readFd (ReadvError err) b = Inr (-1, Some err, b)
   \<and> (buf_ok b \<and> read_room (length bytes) b \<longrightarrow>
       (\<exists>b'. readFd (ReadvBytes bytes) b = Inr (int (length bytes), None, b') \<and> buf_ok b'
          \<and> contents b' = contents b @ bytes))"
  using readFd_ok [of b bytes] by (auto simp: readFd_def)

lemma readFd_receives_example:
  "\<exists>b'. readFd (ReadvBytes (replicate 2000 CHR ''a'')) newBuffer = Inr (2000, None, b')
      \<and> contents b' = replicate 2000 CHR ''a''"
  using readFd_receives [of 0 newBuffer "replicate 2000 CHR ''a''"] newBuffer_ok
  by (auto simp: read_room_def kCheapPrepend_def max_size_def)

text \<open>
  \<open>prepend\<close> and \<open>retrieve\<close> are inverse on the contents: after prepending at most
  \<^verbatim>\<open>prependableBytes()\<close> bytes they are the first readable bytes, and retrieving as many gives
  the old contents back; prepending more is an assertion failure.
\<close>

lemma prepend_retrieve_roundtrip:
  assumes "buf_ok b"
  shows "if length s \<le> prependableBytes b
         then \<exists>b1 b2. prepend s b = Inr b1 \<and> contents b1 = s @ contents b
                \<and> retrieve (length s) b1 = Inr b2 \<and> contents b2 = contents b
         else prepend s b = Inl AssertFailed"
proof (cases "length s \<le> prependableBytes b")
  case True
  then obtain b1 where b1: "prepend s b = Inr b1" "buf_ok b1" "contents b1 = s @ contents b"
    using prepend_ok [OF assms, of s] assms by auto
  then have "length s \<le> readableBytes b1" using length_contents [of b1] by simp
  from retrieve_ok [OF b1(2) this] b1 True show ?thesis by auto
qed (simp add: prepend_def)

lemma prepend_retrieve_roundtrip_example:
  "\<exists>b1 b2. prepend ''len='' newBuffer = Inr b1 \<and> contents b1 = ''len=''
     \<and> retrieve 4 b1 = Inr b2 \<and> contents b2 = []"
  using prepend_retrieve_roundtrip [OF newBuffer_ok, of "''len=''"] newBuffer_ok
  by (simp add: eval_nat_numeral)

text \<open>
  \<open>shrink\<close> moves the readable bytes to the front of a new vector but leaves the indices as
  they were. It returns exactly when the reader already stands at the front (and the new size
  is allowed), and then keeps the contents and leaves \<open>n\<close> writable bytes; otherwise it ends
  in its own assertion or in the vector's \<^verbatim>\<open>length_error\<close>.
\<close>

lemma shrink_only_at_front:
  assumes "buf_ok b"
  shows "(\<exists>b'. shrink n b = Inr b') \<longleftrightarrow>
           readerIndex b = kCheapPrepend \<and> kCheapPrepend + readableBytes b + n \<le> max_size"
    (is "?L \<longleftrightarrow> ?R")
proof
  show "?L \<Longrightarrow> ?R" using shrink_assert [OF assms] by blast
  show "?R \<Longrightarrow> ?L" using shrink_at_front [OF assms, of n] by blast
qed

lemma shrink_only_at_front_example:
  "(\<exists>b'. shrink 16 newBuffer = Inr b') \<and> \<not> (\<exists>b'. shrink 16 (newBuffer\<lparr>writerIndex := 10, readerIndex := 9\<rparr>) = Inr b')"
proof -
  have "buf_ok (newBuffer\<lparr>writerIndex := 10, readerIndex := 9\<rparr>)"
    by (simp add: buf_ok_def kCheapPrepend_def max_size_def)
  from shrink_only_at_front [OF this, of 16] shrink_only_at_front [OF newBuffer_ok, of 16] newBuffer_ok
  show ?thesis by (simp add: kCheapPrepend_def max_size_def)
qed

end
