(* ===== verification/Channel.thy ===== *)
theory Channel
  imports Miniduo_Prelude
begin

text \<open>
  The class \<^verbatim>\<open>Channel\<close> of \<^verbatim>\<open>miniduo/channel.h\<close> and \<^verbatim>\<open>miniduo/channel.cpp\<close>: a file
  descriptor, the events its owner is interested in, the events the poller reported, and
  the callbacks. A channel object is named by a number (its address); the type parameter
  \<open>'cb\<close> is the type of callbacks. \<open>handleEvent\<close> returns the calls it makes, in order.
  The interest set is shown to be exactly a pair of booleans, reading and writing.
\<close>

unbundle bit_operations_syntax

section \<open>Model\<close>

definition POLLIN :: "32 word" where "POLLIN = 0x1"
definition POLLPRI :: "32 word" where "POLLPRI = 0x2"
definition POLLOUT :: "32 word" where "POLLOUT = 0x4"
definition POLLERR :: "32 word" where "POLLERR = 0x8"
definition POLLHUP :: "32 word" where "POLLHUP = 0x10"
definition POLLNVAL :: "32 word" where "POLLNVAL = 0x20"
definition POLLRDHUP :: "32 word" where "POLLRDHUP = 0x2000"

definition kNoneEvent :: "32 word" where "kNoneEvent = 0"
definition kReadEvent :: "32 word" where "kReadEvent = POLLIN OR POLLPRI"
definition kWriteEvent :: "32 word" where "kWriteEvent = POLLOUT"

record 'cb channel =
  chId :: nat
  chLoop :: nat
  chFd :: int
  chEvents :: "32 word"
  chRevents :: "32 word"
  readCallback :: "'cb option"
  writeCallback :: "'cb option"
  errorCallback :: "'cb option"
  closeCallback :: "'cb option"

definition newChannel :: "nat \<Rightarrow> nat \<Rightarrow> int \<Rightarrow> 'cb channel" where
  "newChannel this loop fd =
     \<lparr>chId = this, chLoop = loop, chFd = fd, chEvents = 0, chRevents = 0,
      readCallback = None, writeCallback = None, errorCallback = None, closeCallback = None\<rparr>"

definition setReadCallback :: "'cb \<Rightarrow> 'cb channel \<Rightarrow> 'cb channel" where
  "setReadCallback cb ch = ch\<lparr>readCallback := Some cb\<rparr>"

definition setWriteCallback :: "'cb \<Rightarrow> 'cb channel \<Rightarrow> 'cb channel" where
  "setWriteCallback cb ch = ch\<lparr>writeCallback := Some cb\<rparr>"

definition setErrorCallback :: "'cb \<Rightarrow> 'cb channel \<Rightarrow> 'cb channel" where
  "setErrorCallback cb ch = ch\<lparr>errorCallback := Some cb\<rparr>"

definition setRevents :: "32 word \<Rightarrow> 'cb channel \<Rightarrow> 'cb channel" where
  "setRevents revt ch = ch\<lparr>chRevents := revt\<rparr>"

definition isNoneEvent :: "'cb channel \<Rightarrow> bool" where
  "isNoneEvent ch = (chEvents ch = kNoneEvent)"

definition isWriting :: "'cb channel \<Rightarrow> bool" where
  "isWriting ch = (chEvents ch AND kWriteEvent \<noteq> 0)"

text \<open>
  The parts of \<^verbatim>\<open>enableReading\<close>, \<^verbatim>\<open>enableWriting\<close> and \<^verbatim>\<open>disableAll\<close> that change the
  channel; the call of \<^verbatim>\<open>update()\<close> that follows goes to the owner loop.
\<close>

definition readingEvents :: "bool \<Rightarrow> 'cb channel \<Rightarrow> 'cb channel" where
  "readingEvents enable ch =
     (if enable then ch\<lparr>chEvents := chEvents ch OR kReadEvent\<rparr>
      else ch\<lparr>chEvents := chEvents ch AND NOT kReadEvent\<rparr>)"

definition writingEvents :: "bool \<Rightarrow> 'cb channel \<Rightarrow> 'cb channel" where
  "writingEvents enable ch =
     (if enable then ch\<lparr>chEvents := chEvents ch OR kWriteEvent\<rparr>
      else ch\<lparr>chEvents := chEvents ch AND NOT kWriteEvent\<rparr>)"

definition noEvents :: "'cb channel \<Rightarrow> 'cb channel" where
  "noEvents ch = ch\<lparr>chEvents := kNoneEvent\<rparr>"

text \<open>The calls of a callback; only the read callback takes the receive time.\<close>

datatype 'cb call = Call 'cb | CallAt 'cb int

definition callIf :: "bool \<Rightarrow> 'cb call option \<Rightarrow> 'cb call list" where
  "callIf b c = (if b then (case c of None \<Rightarrow> [] | Some x \<Rightarrow> [x]) else [])"

definition handleEvent :: "int \<Rightarrow> 'cb channel \<Rightarrow> 'cb call list" where
  "handleEvent recvTime ch =
     (let revents = chRevents ch
      in callIf (revents AND POLLHUP \<noteq> 0 \<and> \<not> revents AND POLLIN \<noteq> 0)
           (map_option Call (closeCallback ch))
       @ callIf (revents AND (POLLERR OR POLLNVAL) \<noteq> 0) (map_option Call (errorCallback ch))
       @ callIf (revents AND (POLLIN OR POLLPRI OR POLLRDHUP) \<noteq> 0)
           (map_option (\<lambda>cb. CallAt cb recvTime) (readCallback ch))
       @ callIf (revents AND POLLOUT \<noteq> 0) (map_option Call (writeCallback ch)))"

section \<open>The interest set as two booleans\<close>

definition evmask :: "bool \<Rightarrow> bool \<Rightarrow> 32 word" where
  "evmask reading writing =
     (if reading then kReadEvent else 0) OR (if writing then kWriteEvent else 0)"

lemmas poll_bits = POLLIN_def POLLPRI_def POLLOUT_def POLLERR_def POLLHUP_def POLLNVAL_def
  POLLRDHUP_def kNoneEvent_def kReadEvent_def kWriteEvent_def

definition chan_ok :: "'cb channel \<Rightarrow> bool" where
  "chan_ok ch \<longleftrightarrow> 0 \<le> chFd ch \<and> (\<exists>r w. chEvents ch = evmask r w)"

lemma evmask_eq_iff: "evmask r w = evmask r' w' \<longleftrightarrow> r = r' \<and> w = w'"
  by (cases r; cases w; cases r'; cases w') (simp_all add: evmask_def poll_bits)

lemma evmask_update:
  "evmask r w OR kReadEvent = evmask True w" "evmask r w AND NOT kReadEvent = evmask False w"
  "evmask r w OR kWriteEvent = evmask r True" "evmask r w AND NOT kWriteEvent = evmask r False"
  by (cases r; cases w; simp add: evmask_def poll_bits)+

lemma evmask_tests:
  "evmask r w = kNoneEvent \<longleftrightarrow> \<not> r \<and> \<not> w" "evmask r w AND kWriteEvent \<noteq> 0 \<longleftrightarrow> w"
  by (cases r; cases w; simp add: evmask_def poll_bits)+

lemma evmask_short: "ucast (ucast (evmask r w) :: 16 word) = evmask r w"
  by (cases r; cases w) (simp_all add: evmask_def poll_bits)

section \<open>Sequences of interest changes\<close>

datatype chan_op = EnableReading bool | EnableWriting bool | DisableAll

fun chan_step :: "chan_op \<Rightarrow> 'cb channel \<Rightarrow> 'cb channel" where
  "chan_step (EnableReading e) ch = readingEvents e ch"
| "chan_step (EnableWriting e) ch = writingEvents e ch"
| "chan_step DisableAll ch = noEvents ch"

text \<open>The specification: two switches.\<close>

fun switch_step :: "chan_op \<Rightarrow> bool \<times> bool \<Rightarrow> bool \<times> bool" where
  "switch_step (EnableReading e) (r, w) = (e, w)"
| "switch_step (EnableWriting e) (r, w) = (r, e)"
| "switch_step DisableAll (r, w) = (False, False)"

definition refines_switch :: "'cb channel \<Rightarrow> bool \<times> bool \<Rightarrow> bool" where
  "refines_switch ch s \<longleftrightarrow> chEvents ch = evmask (fst s) (snd s)"

lemma chan_step_refines:
  assumes "refines_switch ch s"
  shows "refines_switch (chan_step c ch) (switch_step c s)"
proof -
  obtain r w where s: "s = (r, w)" by (cases s)
  have "evmask False False = kNoneEvent" by (simp add: evmask_def kNoneEvent_def)
  with s assms show ?thesis
    by (cases c) (auto simp: refines_switch_def readingEvents_def writingEvents_def noEvents_def evmask_update)
qed

lemma chan_steps_refine:
  "refines_switch ch s \<Longrightarrow> refines_switch (fold chan_step cs ch) (fold switch_step cs s)"
  by (induction cs arbitrary: ch s) (simp_all add: chan_step_refines)

lemma chan_step_frame:
  "chId (chan_step c ch) = chId ch" "chFd (chan_step c ch) = chFd ch"
  "chRevents (chan_step c ch) = chRevents ch" "chLoop (chan_step c ch) = chLoop ch"
  by (cases c; simp add: readingEvents_def writingEvents_def noEvents_def)+

lemma chan_ok_step: "chan_ok ch \<Longrightarrow> chan_ok (chan_step c ch)"
proof -
  assume "chan_ok ch"
  then obtain r w where "refines_switch ch (r, w)" "0 \<le> chFd ch"
    by (auto simp: chan_ok_def refines_switch_def)
  then show ?thesis
    using chan_step_refines chan_step_frame(2) [of c ch]
    by (fastforce simp: chan_ok_def refines_switch_def)
qed

lemma refines_switch_new: "refines_switch (newChannel this loop fd) (False, False)"
  by (simp add: refines_switch_def newChannel_def evmask_def)

lemma refines_switch_tests:
  assumes "refines_switch ch s"
  shows "isNoneEvent ch \<longleftrightarrow> s = (False, False)" "isWriting ch \<longleftrightarrow> snd s"
  using assms by (cases s; simp add: refines_switch_def isNoneEvent_def isWriting_def evmask_tests)+

lemma chan_okI_refines: "0 \<le> chFd ch \<Longrightarrow> refines_switch ch s \<Longrightarrow> chan_ok ch"
  by (auto simp: chan_ok_def refines_switch_def)

section \<open>Everything a client can do to a channel\<close>

datatype 'cb chan_config =
    SetRead 'cb
  | SetWrite 'cb
  | SetError 'cb
  | SetRevents "32 word"
  | Interest chan_op

fun configure :: "'cb chan_config \<Rightarrow> 'cb channel \<Rightarrow> 'cb channel" where
  "configure (SetRead cb) ch = setReadCallback cb ch"
| "configure (SetWrite cb) ch = setWriteCallback cb ch"
| "configure (SetError cb) ch = setErrorCallback cb ch"
| "configure (SetRevents r) ch = setRevents r ch"
| "configure (Interest c) ch = chan_step c ch"

lemma configure_close: "closeCallback (configure c ch) = closeCallback ch"
proof (cases c)
  case (Interest d)
  then show ?thesis by (cases d) (simp_all add: readingEvents_def writingEvents_def noEvents_def)
qed (simp_all add: setReadCallback_def setWriteCallback_def setErrorCallback_def setRevents_def)

lemma configures_close: "closeCallback (fold configure cs ch) = closeCallback ch"
  by (induction cs arbitrary: ch) (simp_all add: configure_close)

section \<open>Properties\<close>

text \<open>
  A channel's interest word is a faithful encoding of two switches. After any sequence of
  \<^verbatim>\<open>enableReading\<close>, \<^verbatim>\<open>enableWriting\<close> and \<^verbatim>\<open>disableAll\<close> on a new channel, the word
  is \<^verbatim>\<open>POLLIN|POLLPRI\<close> and \<^verbatim>\<open>POLLOUT\<close> as the last setting of each switch says,
  \<^verbatim>\<open>isWriting\<close> reads the second switch and \<^verbatim>\<open>isNoneEvent\<close> holds exactly when both are off.
\<close>

lemma channel_interest_switches:
  "let ch = fold chan_step cs (newChannel this loop fd); s = fold switch_step cs (False, False)
   in chEvents ch = evmask (fst s) (snd s) \<and> (isWriting ch \<longleftrightarrow> snd s)
      \<and> (isNoneEvent ch \<longleftrightarrow> s = (False, False))"
proof -
  have "refines_switch (fold chan_step cs (newChannel this loop fd)) (fold switch_step cs (False, False))"
    by (intro chan_steps_refine refines_switch_new)
  from this refines_switch_tests [OF this] show ?thesis
    by (simp add: Let_def refines_switch_def)
qed

text \<open>
  A hang-up is reported to nobody: the class has a close callback but no way to set it, so a
  descriptor for which the kernel reports \<^verbatim>\<open>POLLHUP\<close> alone is handled by no call at all.
\<close>

lemma hangup_unreported: "handleEvent t (setRevents POLLHUP (fold configure cs (newChannel this loop fd))) = []"
proof -
  have "closeCallback (fold configure cs (newChannel this loop fd)) = None" by (simp add: configures_close newChannel_def)
  then show ?thesis by (simp add: handleEvent_def setRevents_def callIf_def poll_bits)
qed

end
