(* ===== verification/Poller_Interface.thy ===== *)
theory Poller_Interface
  imports Channel
begin

text \<open>
  What the event loop expects of a poller, the abstract class \<^verbatim>\<open>BasePoller\<close> of
  \<^verbatim>\<open>miniduo/poller.h\<close>: channels are added, updated and removed, and at every moment the
  kernel watches exactly the descriptors of the registered channels whose interest set is not
  empty. The specification machine \<open>reg_step\<close> keeps two maps, who is registered and what is
  watched; the locale \<open>poller\<close> states its laws for an implementation, and the refinement of
  whole runs is proved once inside it.
\<close>

section \<open>The specification machine\<close>

datatype 'cb poller_op =
    AddChannel "'cb channel"
  | UpdateChannel "'cb channel"
  | RemoveChannel "'cb channel"

fun op_channel :: "'cb poller_op \<Rightarrow> 'cb channel" where
  "op_channel (AddChannel ch) = ch"
| "op_channel (UpdateChannel ch) = ch"
| "op_channel (RemoveChannel ch) = ch"

definition interest :: "'cb channel \<Rightarrow> 32 word option" where
  "interest ch = (if isNoneEvent ch then None else Some (chEvents ch))"

type_synonym registry = "(int \<rightharpoonup> nat) \<times> (int \<rightharpoonup> 32 word)"

fun reg_step :: "'cb poller_op \<Rightarrow> registry \<Rightarrow> registry result" where
  "reg_step (AddChannel ch) (reg, watch) =
     assertR (reg (chFd ch) = None)
       (Inr (reg(chFd ch \<mapsto> chId ch), watch(chFd ch := interest ch)))"
| "reg_step (UpdateChannel ch) (reg, watch) =
     assertR (reg (chFd ch) = Some (chId ch))
       (Inr (reg, watch(chFd ch := interest ch)))"
| "reg_step (RemoveChannel ch) (reg, watch) =
     assertR (reg (chFd ch) = Some (chId ch) \<and> isNoneEvent ch)
       (Inr (reg(chFd ch := None), watch(chFd ch := None)))"

section \<open>The interface\<close>

text \<open>
  A step of a poller either fails exactly as the specification machine does, or succeeds with
  the abstract result and keeps the invariant.
\<close>

locale poller =
  fixes inv :: "'p \<Rightarrow> bool"
    and registered :: "'p \<Rightarrow> int \<rightharpoonup> nat"
    and watched :: "'p \<Rightarrow> int \<rightharpoonup> 32 word"
    and step :: "'cb poller_op \<Rightarrow> 'p \<Rightarrow> 'p result"
  assumes step_refines: "inv p \<Longrightarrow> chan_ok (op_channel x) \<Longrightarrow>
      mapR (\<lambda>p. (registered p, watched p)) (step x p) = reg_step x (registered p, watched p)"
    and step_inv: "inv p \<Longrightarrow> chan_ok (op_channel x) \<Longrightarrow> step x p = Inr p' \<Longrightarrow> inv p'"
    and watched_registered: "inv p \<Longrightarrow> dom (watched p) \<subseteq> dom (registered p)"
begin

lemma run_refines:
  assumes "inv p" and "list_all (\<lambda>x. chan_ok (op_channel x)) xs"
  shows "mapR (\<lambda>p. (registered p, watched p)) (runR step xs p)
           = runR reg_step xs (registered p, watched p)"
  using assms
proof (induction xs arbitrary: p)
  case (Cons x xs)
  then have ok: "chan_ok (op_channel x)" by simp
  show ?case
  proof (cases "step x p")
    case (Inl e)
    with step_refines [OF Cons.prems(1) ok]
    have "reg_step x (registered p, watched p) = Inl e" by simp
    with Inl show ?thesis by simp
  next
    case (Inr p1)
    with step_refines [OF Cons.prems(1) ok]
    have "reg_step x (registered p, watched p) = Inr (registered p1, watched p1)" by simp
    moreover have "inv p1" using step_inv [OF Cons.prems(1) ok Inr] .
    ultimately show ?thesis using Cons Inr by simp
  qed
qed simp

lemma run_inv:
  "inv p \<Longrightarrow> list_all (\<lambda>x. chan_ok (op_channel x)) xs \<Longrightarrow> runR step xs p = Inr p' \<Longrightarrow> inv p'"
proof (induction xs arbitrary: p)
  case (Cons x xs)
  then show ?case by (auto simp: result_simps intro: step_inv)
qed simp

end

end
