(* ===== verification/EPoll_Poller.thy ===== *)
theory EPoll_Poller
  imports Poller_Interface
begin

text \<open>
  The class \<^verbatim>\<open>EPollPoller\<close> of \<^verbatim>\<open>miniduo/poller.cpp\<close>, the poller every event loop creates.
  Its map \<^verbatim>\<open>channels_\<close> records for each descriptor the channel and whether the descriptor
  has been given to the kernel. The calls of \<^verbatim>\<open>epoll_ctl(2)\<close> are recorded in order in the
  state; their return value is only logged by the code. The theory shows that the recorded
  calls never break the protocol of \<^verbatim>\<open>epoll_ctl\<close> (no second \<^verbatim>\<open>ADD\<close>, no \<^verbatim>\<open>MOD\<close> or
  \<^verbatim>\<open>DEL\<close> of an absent descriptor) and that the poller refines the specification machine.
\<close>

section \<open>Model\<close>

datatype channel_state = NEW | ADDED | DELETED

datatype ctl_op = EPOLL_CTL_ADD | EPOLL_CTL_MOD | EPOLL_CTL_DEL

record ctl_call =
  ctlOp :: ctl_op
  ctlFd :: int
  ctlEvents :: "32 word"
  ctlPtr :: nat

record epoll_poller =
  epChannels :: "int \<rightharpoonup> nat \<times> channel_state"
  epEvents :: nat
  epCalls :: "ctl_call list"

definition kInitEventListSize :: nat where
  "kInitEventListSize = 16"

text \<open>
  The members as the constructor initialises them, and the constructor, which ends the process when
  \<^verbatim>\<open>epoll_create1(2)\<close> fails; \<open>ret\<close> is what that call returns, the descriptor of the kernel object.
\<close>

definition newEPollPoller :: epoll_poller where
  "newEPollPoller = \<lparr>epChannels = Map.empty, epEvents = kInitEventListSize, epCalls = []\<rparr>"

definition createEPollPoller :: "int \<Rightarrow> epoll_poller result" where
  "createEPollPoller ret = (if ret < 0 then Inl Aborted else Inr newEPollPoller)"

definition ep_update :: "ctl_op \<Rightarrow> 'cb channel \<Rightarrow> epoll_poller \<Rightarrow> epoll_poller" where
  "ep_update operation ch p =
     p\<lparr>epCalls := epCalls p @
        [\<lparr>ctlOp = operation, ctlFd = chFd ch, ctlEvents = chEvents ch, ctlPtr = chId ch\<rparr>]\<rparr>"

definition ep_updateChannel :: "'cb channel \<Rightarrow> epoll_poller \<Rightarrow> epoll_poller result" where
  "ep_updateChannel ch p =
     (case epChannels p (chFd ch) of
        None \<Rightarrow> Inl AssertFailed
      | Some (c, st) \<Rightarrow>
          assertR (c = chId ch)
            (Inr (if st = NEW \<or> st = DELETED
                  then (if \<not> isNoneEvent ch
                        then ep_update EPOLL_CTL_ADD ch
                               (p\<lparr>epChannels := (epChannels p)(chFd ch \<mapsto> (c, ADDED))\<rparr>)
                        else p)
                  else (if \<not> isNoneEvent ch
                        then ep_update EPOLL_CTL_MOD ch p
                        else ep_update EPOLL_CTL_DEL ch
                               (p\<lparr>epChannels := (epChannels p)(chFd ch \<mapsto> (c, DELETED))\<rparr>)))))"

definition ep_addChannel :: "'cb channel \<Rightarrow> epoll_poller \<Rightarrow> epoll_poller result" where
  "ep_addChannel ch p =
     assertR (epChannels p (chFd ch) = None)
       (ep_updateChannel ch (p\<lparr>epChannels := (epChannels p)(chFd ch \<mapsto> (chId ch, NEW))\<rparr>))"

definition ep_removeChannel :: "'cb channel \<Rightarrow> epoll_poller \<Rightarrow> epoll_poller result" where
  "ep_removeChannel ch p =
     (case epChannels p (chFd ch) of
        None \<Rightarrow> Inl AssertFailed
      | Some (c, st) \<Rightarrow>
          assertR (c = chId ch)
            (assertR (isNoneEvent ch)
               (let p1 = (if st = ADDED then ep_update EPOLL_CTL_DEL ch p else p)
                in Inr (p1\<lparr>epChannels := (epChannels p1)(chFd ch := None)\<rparr>))))"

fun ep_step :: "'cb poller_op \<Rightarrow> epoll_poller \<Rightarrow> epoll_poller result" where
  "ep_step (AddChannel ch) p = ep_addChannel ch p"
| "ep_step (UpdateChannel ch) p = ep_updateChannel ch p"
| "ep_step (RemoveChannel ch) p = ep_removeChannel ch p"

text \<open>
  A ready event of \<^verbatim>\<open>epoll_wait(2)\<close>: the pointer stored with the descriptor and the ready
  events. \<open>fdOf\<close> reads the descriptor of a channel object. The result is the list of
  channels with the events to be stored in them, in order.
\<close>

fun ep_fill :: "(nat \<Rightarrow> int) \<Rightarrow> (int \<rightharpoonup> nat \<times> channel_state) \<Rightarrow> (nat \<times> 32 word) list
    \<Rightarrow> (nat \<times> 32 word) list result" where
  "ep_fill fdOf chans [] = Inr []"
| "ep_fill fdOf chans ((c, ev) # evs) =
     (case chans (fdOf c) of
        None \<Rightarrow> Inl AssertFailed
      | Some (c', _) \<Rightarrow>
          assertR (c' = c) (bindR (ep_fill fdOf chans evs) (\<lambda>act. Inr ((c, ev) # act))))"

definition ep_fillActiveChannels :: "(nat \<Rightarrow> int) \<Rightarrow> (nat \<times> 32 word) list \<Rightarrow> epoll_poller
    \<Rightarrow> (nat \<times> 32 word) list result" where
  "ep_fillActiveChannels fdOf evs p =
     assertR (length evs \<le> epEvents p) (ep_fill fdOf (epChannels p) evs)"

text \<open>The outcome of \<^verbatim>\<open>epoll_wait\<close>: an error number, or the ready events (none on a timeout).\<close>

datatype epoll_wait_result = EpollError int | EpollEvents "(nat \<times> 32 word) list"

definition ep_poll :: "(nat \<Rightarrow> int) \<Rightarrow> epoll_wait_result \<Rightarrow> epoll_poller
    \<Rightarrow> ((nat \<times> 32 word) list \<times> epoll_poller) result" where
  "ep_poll fdOf res p =
     (case res of
        EpollError _ \<Rightarrow> Inr ([], p)
      | EpollEvents evs \<Rightarrow>
          if evs \<noteq> []
          then bindR (ep_fillActiveChannels fdOf evs p)
                 (\<lambda>act. Inr (act, if length evs = epEvents p
                                   then p\<lparr>epEvents := epEvents p * 2\<rparr> else p))
          else Inr ([], p))"

section \<open>What the recorded calls ask of the kernel\<close>

fun ctl_effect :: "ctl_call \<Rightarrow> (int \<rightharpoonup> nat \<times> 32 word) \<Rightarrow> (int \<rightharpoonup> nat \<times> 32 word) option" where
  "ctl_effect c k =
     (case ctlOp c of
        EPOLL_CTL_ADD \<Rightarrow>
          (case k (ctlFd c) of None \<Rightarrow> Some (k(ctlFd c \<mapsto> (ctlPtr c, ctlEvents c))) | Some _ \<Rightarrow> None)
      | EPOLL_CTL_MOD \<Rightarrow>
          (case k (ctlFd c) of None \<Rightarrow> None | Some _ \<Rightarrow> Some (k(ctlFd c \<mapsto> (ctlPtr c, ctlEvents c))))
      | EPOLL_CTL_DEL \<Rightarrow>
          (case k (ctlFd c) of None \<Rightarrow> None | Some _ \<Rightarrow> Some (k(ctlFd c := None))))"

text \<open>\<open>Some k\<close>: every call meets the condition of its operation and \<open>k\<close> is the resulting set.\<close>

definition kernel_set :: "ctl_call list \<Rightarrow> (int \<rightharpoonup> nat \<times> 32 word) option" where
  "kernel_set cs = fold (\<lambda>c k. Option.bind k (ctl_effect c)) cs (Some Map.empty)"

definition ep_registered :: "epoll_poller \<Rightarrow> int \<rightharpoonup> nat" where
  "ep_registered p fd = map_option fst (epChannels p fd)"

definition ep_watched :: "epoll_poller \<Rightarrow> int \<rightharpoonup> 32 word" where
  "ep_watched p fd =
     (case kernel_set (epCalls p) of None \<Rightarrow> None | Some k \<Rightarrow> map_option snd (k fd))"

text \<open>
  The calls respect the protocol, and the kernel holds a descriptor, with the channel's address
  as its data, exactly when the map says \<^verbatim>\<open>ADDED\<close>.
\<close>

definition ep_inv :: "epoll_poller \<Rightarrow> bool" where
  "ep_inv p \<longleftrightarrow> (\<exists>k. kernel_set (epCalls p) = Some k \<and>
     (\<forall>fd. map_option fst (k fd) =
        (case epChannels p fd of Some (c, ADDED) \<Rightarrow> Some c | _ \<Rightarrow> None)))"

lemma kernel_set_snoc: "kernel_set (cs @ [c]) = Option.bind (kernel_set cs) (ctl_effect c)"
  by (simp add: kernel_set_def)

section \<open>Refinement\<close>

lemma ep_invE:
  assumes "ep_inv p"
  obtains k where "kernel_set (epCalls p) = Some k"
    and "\<And>fd. map_option fst (k fd) = (case epChannels p fd of Some (c, ADDED) \<Rightarrow> Some c | _ \<Rightarrow> None)"
    and "\<And>fd. ep_watched p fd = map_option snd (k fd)"
  using assms by (auto simp: ep_inv_def ep_watched_def)

lemma ep_inv_new: "ep_inv newEPollPoller"
  by (simp add: ep_inv_def newEPollPoller_def kernel_set_def)

lemma ep_abs_new: "ep_registered newEPollPoller = Map.empty" "ep_watched newEPollPoller = Map.empty"
  by (auto simp: ep_registered_def ep_watched_def newEPollPoller_def kernel_set_def)

text \<open>One recorded call: the effect on the kernel's set, on the invariant and on the watched set.\<close>

lemma ep_call_inv:
  assumes "kernel_set (epCalls p) = Some k" and "ctl_effect c k = Some k'"
    and "\<And>fd. map_option fst (k' fd) = (case chans fd of Some (c, ADDED) \<Rightarrow> Some c | _ \<Rightarrow> None)"
  shows "ep_inv (p\<lparr>epChannels := chans, epCalls := epCalls p @ [c]\<rparr>)"
    and "ep_watched (p\<lparr>epChannels := chans, epCalls := epCalls p @ [c]\<rparr>) = (\<lambda>fd. map_option snd (k' fd))"
  using assms by (auto simp: ep_inv_def ep_watched_def kernel_set_snoc simp del: ctl_effect.simps)

lemma ep_updateChannel_ok:
  assumes "ep_inv p" and "epChannels p (chFd ch) = Some (chId ch, st)"
  obtains p' where "ep_updateChannel ch p = Inr p'" "ep_inv p'"
    "ep_registered p' = ep_registered p" "ep_watched p' = (ep_watched p)(chFd ch := interest ch)"
proof -
  note goal = that
  let ?fd = "chFd ch" and ?c = "chId ch"
  obtain k where k: "kernel_set (epCalls p) = Some k"
    "\<And>fd. map_option fst (k fd) = (case epChannels p fd of Some (c, ADDED) \<Rightarrow> Some c | _ \<Rightarrow> None)"
    "\<And>fd. ep_watched p fd = map_option snd (k fd)"
    using ep_invE [OF assms(1)] by blast
  let ?call = "\<lambda>x. \<lparr>ctlOp = x, ctlFd = ?fd, ctlEvents = chEvents ch, ctlPtr = ?c\<rparr>"
  let ?p' = "\<lambda>x st'. p\<lparr>epChannels := (epChannels p)(?fd \<mapsto> (?c, st')), epCalls := epCalls p @ [?call x]\<rparr>"
  have kfd: "map_option fst (k ?fd) = (if st = ADDED then Some ?c else None)"
    using k(2) [of ?fd] assms(2) by (cases st) auto
  have reg: "ep_registered (?p' x st') = ep_registered p" for x st'
    using assms(2) by (auto simp: ep_registered_def)
  have step: thesis
    if eq: "ep_updateChannel ch p = Inr (?p' x st')" and eff: "ctl_effect (?call x) k = Some k'"
      and k': "k' = k(?fd := map_option (Pair ?c) (interest ch))" and "interest ch \<noteq> None \<longleftrightarrow> st' = ADDED"
    for x st' k'
  proof -
    have new: "map_option fst (k' fd) =
        (case ((epChannels p)(?fd \<mapsto> (?c, st'))) fd of Some (c, ADDED) \<Rightarrow> Some c | _ \<Rightarrow> None)" for fd
      using k(2) [of fd] k' that(4) by (cases st') auto
    have inv: "ep_inv (?p' x st')" by (rule ep_call_inv(1) [OF k(1) eff new])
    have "ep_watched (?p' x st') = (\<lambda>fd. map_option snd (k' fd))"
      by (rule ep_call_inv(2) [OF k(1) eff new])
    also have "\<dots> = (ep_watched p)(?fd := interest ch)"
      by (auto simp: k' k(3) option.map_comp o_def option.map_ident)
    finally show thesis by (rule goal [OF eq inv reg])
  qed
  consider (skip) "isNoneEvent ch" "st \<noteq> ADDED" | (del) "isNoneEvent ch" "st = ADDED"
    | (add) "\<not> isNoneEvent ch" "st \<noteq> ADDED" | (mod) "\<not> isNoneEvent ch" "st = ADDED" by blast
  then show thesis
  proof cases
    case skip
    then have "ep_updateChannel ch p = Inr p"
      using assms(2) by (cases st) (simp_all add: ep_updateChannel_def)
    moreover have "ep_watched p = (ep_watched p)(?fd := interest ch)"
      using skip kfd k(3) [of ?fd] by (auto simp: interest_def)
    ultimately show thesis using assms(1) that by metis
  next
    case del
    with assms(2) kfd show thesis
      by (intro step [where x = EPOLL_CTL_DEL and st' = DELETED])
        (auto simp: ep_updateChannel_def ep_update_def interest_def)
  next
    case add
    with assms(2) kfd show thesis
      by (intro step [where x = EPOLL_CTL_ADD and st' = ADDED])
        (cases st, auto simp: ep_updateChannel_def ep_update_def interest_def)
  next
    case mod
    with assms(2) kfd show thesis
      by (intro step [where x = EPOLL_CTL_MOD and st' = ADDED])
        (auto simp: ep_updateChannel_def ep_update_def interest_def map_upd_triv)
  qed
qed

lemma ep_rechannel:
  assumes "ep_inv p"
    and "\<And>fd. (case chans fd of Some (c, ADDED) \<Rightarrow> Some c | _ \<Rightarrow> None)
            = (case epChannels p fd of Some (c, ADDED) \<Rightarrow> Some c | _ \<Rightarrow> None)"
  shows "ep_inv (p\<lparr>epChannels := chans\<rparr>)" and "ep_watched (p\<lparr>epChannels := chans\<rparr>) = ep_watched p"
  using assms by (auto simp: ep_inv_def ep_watched_def)

lemma ep_addChannel_ok:
  assumes "ep_inv p" and "epChannels p (chFd ch) = None"
  obtains p' where "ep_addChannel ch p = Inr p'" "ep_inv p'"
    "ep_registered p' = (ep_registered p)(chFd ch \<mapsto> chId ch)"
    "ep_watched p' = (ep_watched p)(chFd ch := interest ch)"
proof -
  let ?chans = "(epChannels p)(chFd ch \<mapsto> (chId ch, NEW))"
  have p0: "ep_inv (p\<lparr>epChannels := ?chans\<rparr>)" "ep_watched (p\<lparr>epChannels := ?chans\<rparr>) = ep_watched p"
    using ep_rechannel [OF assms(1), of ?chans] assms(2) by simp_all
  have reg: "ep_registered (p\<lparr>epChannels := ?chans\<rparr>) = (ep_registered p)(chFd ch \<mapsto> chId ch)"
    by (auto simp: ep_registered_def)
  have new: "epChannels (p\<lparr>epChannels := ?chans\<rparr>) (chFd ch) = Some (chId ch, NEW)" by simp
  obtain p' where "ep_updateChannel ch (p\<lparr>epChannels := ?chans\<rparr>) = Inr p'" "ep_inv p'"
    "ep_registered p' = ep_registered (p\<lparr>epChannels := ?chans\<rparr>)"
    "ep_watched p' = (ep_watched (p\<lparr>epChannels := ?chans\<rparr>))(chFd ch := interest ch)"
    by (rule ep_updateChannel_ok [OF p0(1) new])
  with reg p0(2) assms(2) that show thesis by (simp add: ep_addChannel_def)
qed

lemma ep_removeChannel_ok:
  assumes "ep_inv p" and "epChannels p (chFd ch) = Some (chId ch, st)" and "isNoneEvent ch"
  obtains p' where "ep_removeChannel ch p = Inr p'" "ep_inv p'"
    "ep_registered p' = (ep_registered p)(chFd ch := None)"
    "ep_watched p' = (ep_watched p)(chFd ch := None)"
proof -
  let ?fd = "chFd ch" and ?chans = "(epChannels p)(chFd ch := None)"
  obtain k where k: "kernel_set (epCalls p) = Some k"
    "\<And>fd. map_option fst (k fd) = (case epChannels p fd of Some (c, ADDED) \<Rightarrow> Some c | _ \<Rightarrow> None)"
    "\<And>fd. ep_watched p fd = map_option snd (k fd)"
    using ep_invE [OF assms(1)] by blast
  have kfd: "map_option fst (k ?fd) = (if st = ADDED then Some (chId ch) else None)"
    using k(2) [of ?fd] assms(2) by (cases st) auto
  show thesis
  proof (cases "st = ADDED")
    case True
    let ?call = "\<lparr>ctlOp = EPOLL_CTL_DEL, ctlFd = ?fd, ctlEvents = chEvents ch, ctlPtr = chId ch\<rparr>"
    let ?p' = "p\<lparr>epChannels := ?chans, epCalls := epCalls p @ [?call]\<rparr>"
    have eff: "ctl_effect ?call k = Some (k(?fd := None))" using kfd True by auto
    have new: "map_option fst ((k(?fd := None)) fd) =
        (case ?chans fd of Some (c, ADDED) \<Rightarrow> Some c | _ \<Rightarrow> None)" for fd
      using k(2) [of fd] by simp
    have "ep_removeChannel ch p = Inr ?p'"
      using assms(2,3) True by (simp add: ep_removeChannel_def ep_update_def)
    moreover have "ep_registered ?p' = (ep_registered p)(?fd := None)"
      by (auto simp: ep_registered_def)
    moreover have "ep_watched ?p' = (ep_watched p)(?fd := None)"
      using ep_call_inv(2) [where chans = ?chans, OF k(1) eff new] by (auto simp: k(3))
    moreover have "ep_inv ?p'" by (rule ep_call_inv(1) [OF k(1) eff new])
    ultimately show thesis using that by blast
  next
    case False
    have "(case ?chans fd of Some (c, ADDED) \<Rightarrow> Some c | _ \<Rightarrow> None)
        = (case epChannels p fd of Some (c, ADDED) \<Rightarrow> Some c | _ \<Rightarrow> None)" for fd
      using assms(2) False by (cases st) auto
    note p1 = ep_rechannel [where chans = ?chans, OF assms(1) this]
    have "ep_watched p = (ep_watched p)(?fd := None)" using kfd k(3) [of ?fd] False by auto
    moreover have "ep_removeChannel ch p = Inr (p\<lparr>epChannels := ?chans\<rparr>)"
      using assms(2,3) False by (simp add: ep_removeChannel_def)
    moreover have "ep_registered (p\<lparr>epChannels := ?chans\<rparr>) = (ep_registered p)(?fd := None)"
      by (auto simp: ep_registered_def)
    ultimately show thesis using that p1 by simp
  qed
qed

lemma ep_registered_iff:
  "ep_registered p fd = Some c \<longleftrightarrow> (\<exists>st. epChannels p fd = Some (c, st))"
  "ep_registered p fd = None \<longleftrightarrow> epChannels p fd = None"
  by (auto simp: ep_registered_def)

lemma ep_step_fails:
  "epChannels p (chFd ch) \<noteq> None \<Longrightarrow> ep_addChannel ch p = Inl AssertFailed"
  "\<nexists>st. epChannels p (chFd ch) = Some (chId ch, st) \<Longrightarrow> ep_updateChannel ch p = Inl AssertFailed"
  "\<not> ((\<exists>st. epChannels p (chFd ch) = Some (chId ch, st)) \<and> isNoneEvent ch)
     \<Longrightarrow> ep_removeChannel ch p = Inl AssertFailed"
  by (auto simp: ep_addChannel_def ep_updateChannel_def ep_removeChannel_def assertR_def
      split: option.splits)

text \<open>One step of the poller against one step of the specification machine.\<close>

lemma ep_step_spec:
  assumes "ep_inv p"
  shows "mapR (\<lambda>p. (ep_registered p, ep_watched p)) (ep_step x p)
           = reg_step x (ep_registered p, ep_watched p)
    \<and> (\<forall>p'. ep_step x p = Inr p' \<longrightarrow> ep_inv p')"
proof (cases x)
  case (AddChannel ch)
  show ?thesis
  proof (cases "epChannels p (chFd ch)")
    case None
    obtain p' where "ep_addChannel ch p = Inr p'" "ep_inv p'"
      "ep_registered p' = (ep_registered p)(chFd ch \<mapsto> chId ch)"
      "ep_watched p' = (ep_watched p)(chFd ch := interest ch)"
      by (rule ep_addChannel_ok [OF assms None])
    with AddChannel None show ?thesis by (simp add: ep_registered_iff)
  qed (use AddChannel in \<open>simp add: ep_step_fails ep_registered_def\<close>)
next
  case (UpdateChannel ch)
  show ?thesis
  proof (cases "ep_registered p (chFd ch) = Some (chId ch)")
    case True
    then obtain st where st: "epChannels p (chFd ch) = Some (chId ch, st)" by (auto simp: ep_registered_iff)
    obtain p' where "ep_updateChannel ch p = Inr p'" "ep_inv p'" "ep_registered p' = ep_registered p"
      "ep_watched p' = (ep_watched p)(chFd ch := interest ch)"
      by (rule ep_updateChannel_ok [OF assms st])
    with UpdateChannel True show ?thesis by simp
  qed (use UpdateChannel in \<open>simp add: ep_step_fails ep_registered_iff\<close>)
next
  case (RemoveChannel ch)
  show ?thesis
  proof (cases "ep_registered p (chFd ch) = Some (chId ch) \<and> isNoneEvent ch")
    case True
    then obtain st where st: "epChannels p (chFd ch) = Some (chId ch, st)" by (auto simp: ep_registered_iff)
    obtain p' where "ep_removeChannel ch p = Inr p'" "ep_inv p'"
      "ep_registered p' = (ep_registered p)(chFd ch := None)"
      "ep_watched p' = (ep_watched p)(chFd ch := None)"
      using ep_removeChannel_ok [OF assms st] True by blast
    with RemoveChannel True show ?thesis by simp
  qed (use RemoveChannel in \<open>auto simp: ep_step_fails ep_registered_iff assertR_def\<close>)
qed

lemma ep_watched_dom: "ep_inv p \<Longrightarrow> dom (ep_watched p) \<subseteq> dom (ep_registered p)"
proof
  fix fd assume "ep_inv p" "fd \<in> dom (ep_watched p)"
  moreover from this obtain k where
    "map_option fst (k fd) = (case epChannels p fd of Some (c, ADDED) \<Rightarrow> Some c | _ \<Rightarrow> None)"
    "ep_watched p fd = map_option snd (k fd)"
    by (metis ep_invE)
  ultimately show "fd \<in> dom (ep_registered p)"
    by (cases "epChannels p fd") (auto simp: ep_registered_def)
qed

interpretation ep: poller ep_inv ep_registered ep_watched ep_step
proof unfold_locales
  show "dom (ep_watched p) \<subseteq> dom (ep_registered p)" if "ep_inv p" for p
    using that by (rule ep_watched_dom)
qed (use ep_step_spec in blast)+

section \<open>Polling\<close>

text \<open>
  Filling the active list succeeds on every list of ready events whose pointers are registered
  channels, and returns them unchanged; \<open>fdOf\<close> must agree with the map.
\<close>

lemma ep_fill_ok:
  "list_all (\<lambda>(c, ev). \<exists>st. chans (fdOf c) = Some (c, st)) evs \<Longrightarrow> ep_fill fdOf chans evs = Inr evs"
proof (induction evs)
  case (Cons x evs)
  then show ?case by (cases x) auto
qed simp

lemma ep_fill_fails:
  "\<not> list_all (\<lambda>(c, ev). \<exists>st. chans (fdOf c) = Some (c, st)) evs \<Longrightarrow>
     ep_fill fdOf chans evs = Inl AssertFailed"
proof (induction evs)
  case (Cons x evs)
  obtain c ev where x: "x = (c, ev)" by (cases x)
  show ?case
  proof (cases "\<exists>st. chans (fdOf c) = Some (c, st)")
    case True
    with Cons x show ?thesis by auto
  next
    case False
    with x show ?thesis by (auto simp: assertR_def split: option.splits)
  qed
qed simp

section \<open>Properties\<close>

text \<open>A channel that is watched for reading, as the constructors of the library set one up.\<close>

abbreviation reading_channel :: "nat \<Rightarrow> int \<Rightarrow> nat channel" where
  "reading_channel c fd \<equiv> readingEvents True (newChannel c 0 fd)"

lemma reading_channel_ok: "0 \<le> fd \<Longrightarrow> chan_ok (reading_channel c fd)" "\<not> isNoneEvent (reading_channel c fd)"
  by (auto simp: chan_ok_def readingEvents_def newChannel_def evmask_def isNoneEvent_def poll_bits
      intro: exI [of _ True] exI [of _ False])

text \<open>
  C19: the protocol of \<^verbatim>\<open>epoll_ctl\<close> is never broken. After any sequence of
  \<open>addChannel\<close>, \<open>updateChannel\<close> and \<open>removeChannel\<close> that passes the assertions, the calls
  made so far, replayed from the empty set, never add a present descriptor and never modify or
  delete an absent one, and the kernel then holds a descriptor with a channel's address
  exactly when \<^verbatim>\<open>channels_\<close> maps it to that channel in state \<^verbatim>\<open>ADDED\<close>.
\<close>

theorem epoll_ctl_protocol:
  assumes "list_all (\<lambda>x. chan_ok (op_channel x)) xs" and "runR ep_step xs newEPollPoller = Inr p"
  shows "\<exists>k. kernel_set (epCalls p) = Some k
    \<and> (\<forall>fd c. (\<exists>ev. k fd = Some (c, ev)) \<longleftrightarrow> epChannels p fd = Some (c, ADDED))"
proof -
  have "ep_inv p" using ep_inv_new assms by (rule ep.run_inv)
  then obtain k where k: "kernel_set (epCalls p) = Some k"
    "\<And>fd. map_option fst (k fd) = (case epChannels p fd of Some (c, ADDED) \<Rightarrow> Some c | _ \<Rightarrow> None)"
    by (metis ep_invE)
  have "(\<exists>ev. k fd = Some (c, ev)) \<longleftrightarrow> epChannels p fd = Some (c, ADDED)" for fd c
  proof -
    have "(\<exists>ev. k fd = Some (c, ev)) \<longleftrightarrow> map_option fst (k fd) = Some c" by auto
    also have "\<dots> \<longleftrightarrow> epChannels p fd = Some (c, ADDED)"
      by (auto simp: k(2) split: option.splits channel_state.splits)
    finally show ?thesis .
  qed
  with k(1) show ?thesis by blast
qed

theorem epoll_ctl_protocol_witness:
  "\<exists>p k. runR ep_step [AddChannel (reading_channel 7 3)] newEPollPoller = Inr p
     \<and> kernel_set (epCalls p) = Some k \<and> (\<exists>ev. k 3 = Some (7, ev))"
proof -
  let ?ch = "reading_channel 7 3"
  let ?p = "\<lparr>epChannels = [3 \<mapsto> (7, ADDED)], epEvents = 16,
             epCalls = [\<lparr>ctlOp = EPOLL_CTL_ADD, ctlFd = 3, ctlEvents = chEvents ?ch, ctlPtr = 7\<rparr>]\<rparr>"
  have fd: "chFd ?ch = 3" "chId ?ch = 7" by (simp_all add: readingEvents_def newChannel_def)
  have run: "runR ep_step [AddChannel ?ch] newEPollPoller = Inr ?p"
    using reading_channel_ok(2) [of 7 3] fd
    by (simp add: ep_addChannel_def ep_updateChannel_def ep_update_def newEPollPoller_def
        kInitEventListSize_def)
  from epoll_ctl_protocol [OF _ run] reading_channel_ok(1) [of 3 7]
  have "\<exists>k. kernel_set (epCalls ?p) = Some k \<and> (\<exists>ev. k 3 = Some (7, ev))" by auto
  with run show ?thesis by blast
qed

text \<open>
  Polling. On ready events whose data pointers are registered channels, at most as many as
  the event array holds, \<open>poll\<close> activates exactly these channels with these events, in order,
  keeps the registration, and doubles the array exactly when it was full; a pointer to a
  channel that is no longer registered under its descriptor is an assertion failure.
\<close>

theorem ep_poll_delivers:
  assumes "length evs \<le> epEvents p"
  shows "if \<forall>(c, ev) \<in> set evs. \<exists>st. epChannels p (fdOf c) = Some (c, st)
         then ep_poll fdOf (EpollEvents evs) p =
                Inr (evs, p\<lparr>epEvents := (if evs \<noteq> [] \<and> length evs = epEvents p then 2 else 1) * epEvents p\<rparr>)
         else ep_poll fdOf (EpollEvents evs) p = Inl AssertFailed"
proof -
  let ?reg = "list_all (\<lambda>(c, ev). \<exists>st. epChannels p (fdOf c) = Some (c, st)) evs"
  have reg: "(\<forall>(c, ev) \<in> set evs. \<exists>st. epChannels p (fdOf c) = Some (c, st)) \<longleftrightarrow> ?reg"
    by (simp add: list_all_iff)
  show ?thesis
  proof (cases ?reg)
    case True
    then have "ep_fill fdOf (epChannels p) evs = Inr evs" by (rule ep_fill_ok)
    with True reg assms show ?thesis by (simp add: ep_poll_def ep_fillActiveChannels_def)
  next
    case False
    then have "evs \<noteq> []" by auto
    with False reg assms ep_fill_fails [OF False] show ?thesis
      by (simp add: ep_poll_def ep_fillActiveChannels_def)
  qed
qed

theorem ep_poll_delivers_example:
  "ep_poll (\<lambda>_. 3) (EpollEvents [(7, 1)]) \<lparr>epChannels = [3 \<mapsto> (7, ADDED)], epEvents = 1, epCalls = []\<rparr>
     = Inr ([(7, 1)], \<lparr>epChannels = [3 \<mapsto> (7, ADDED)], epEvents = 2, epCalls = []\<rparr>)
   \<and> ep_poll (\<lambda>_. 4) (EpollEvents [(7, 1)]) \<lparr>epChannels = [3 \<mapsto> (7, ADDED)], epEvents = 1, epCalls = []\<rparr>
     = Inl AssertFailed"
  using ep_poll_delivers [of "[(7, 1)]" "\<lparr>epChannels = [3 \<mapsto> (7, ADDED)], epEvents = 1, epCalls = []\<rparr>" "\<lambda>_. 3"]
    ep_poll_delivers [of "[(7, 1)]" "\<lparr>epChannels = [3 \<mapsto> (7, ADDED)], epEvents = 1, epCalls = []\<rparr>" "\<lambda>_. 4"]
  by simp

end
