(* ===== verification/Poll_Poller.thy ===== *)
theory Poll_Poller
  imports Poller_Interface
begin

text \<open>
  The class \<^verbatim>\<open>PollPoller\<close> of \<^verbatim>\<open>miniduo/poller.cpp\<close>, the \<^verbatim>\<open>poll(2)\<close> back end: a dense vector
  of \<^verbatim>\<open>struct pollfd\<close> and a map from descriptors to the channel and its position in the
  vector; a channel without interest is parked under the negative number \<open>-fd-1\<close>, and removal
  moves the last entry into the hole. The theory shows that the map and the vector stay
  inverse to each other and that the poller refines the same specification machine as the
  \<^verbatim>\<open>epoll\<close> one.
\<close>

section \<open>Model\<close>

record pollfd =
  pfdFd :: int
  pfdEvents :: "16 word"
  pfdRevents :: "16 word"

record poll_poller =
  pollfds :: "pollfd list"
  ppChannels :: "int \<rightharpoonup> nat \<times> nat"

definition newPollPoller :: poll_poller where
  "newPollPoller = \<lparr>pollfds = [], ppChannels = Map.empty\<rparr>"

definition pp_addChannel :: "'cb channel \<Rightarrow> poll_poller \<Rightarrow> poll_poller result" where
  "pp_addChannel ch p =
     assertR (ppChannels p (chFd ch) = None)
       (let pfd = \<lparr>pfdFd = (if isNoneEvent ch then - chFd ch - 1 else chFd ch),
                   pfdEvents = ucast (chEvents ch), pfdRevents = 0\<rparr>
        in Inr (p\<lparr>ppChannels := (ppChannels p)(chFd ch \<mapsto> (chId ch, length (pollfds p))),
                  pollfds := pollfds p @ [pfd]\<rparr>))"

definition pp_updateChannel :: "'cb channel \<Rightarrow> poll_poller \<Rightarrow> poll_poller result" where
  "pp_updateChannel ch p =
     (case ppChannels p (chFd ch) of
        None \<Rightarrow> Inl AssertFailed
      | Some (c, idx) \<Rightarrow>
          assertR (c = chId ch)
            (assertR (idx < length (pollfds p))
               (let pfd = pollfds p ! idx
                in assertR (pfdFd pfd = chFd ch \<or> pfdFd pfd = - chFd ch - 1)
                     (let pfd1 = pfd\<lparr>pfdEvents := ucast (chEvents ch), pfdRevents := 0,
                                     pfdFd := chFd ch\<rparr>;
                          pfd2 = (if isNoneEvent ch then pfd1\<lparr>pfdFd := - chFd ch - 1\<rparr> else pfd1)
                      in Inr (p\<lparr>pollfds := (pollfds p)[idx := pfd2]\<rparr>)))))"

definition pp_removeChannel :: "'cb channel \<Rightarrow> poll_poller \<Rightarrow> poll_poller result" where
  "pp_removeChannel ch p =
     (case ppChannels p (chFd ch) of
        None \<Rightarrow> Inl AssertFailed
      | Some (c, idx) \<Rightarrow>
          assertR (c = chId ch)
            (assertR (isNoneEvent ch)
               (assertR (idx < length (pollfds p))
                  (let chans = (ppChannels p)(chFd ch := None);
                       p1 = (if idx < length (pollfds p) - 1
                             then (let backfd = pfdFd (last (pollfds p));
                                       fds = (pollfds p)[idx := last (pollfds p),
                                               length (pollfds p) - 1 := pollfds p ! idx];
                                       endfd = (if backfd < 0 then - backfd - 1 else backfd);
                                       c' = (case chans endfd of None \<Rightarrow> 0 | Some (c', _) \<Rightarrow> c')
                                   in p\<lparr>ppChannels := chans(endfd \<mapsto> (c', idx)), pollfds := fds\<rparr>)
                             else p\<lparr>ppChannels := chans\<rparr>)
                   in Inr (p1\<lparr>pollfds := butlast (pollfds p1)\<rparr>)))))"

fun pp_step :: "'cb poller_op \<Rightarrow> poll_poller \<Rightarrow> poll_poller result" where
  "pp_step (AddChannel ch) p = pp_addChannel ch p"
| "pp_step (UpdateChannel ch) p = pp_updateChannel ch p"
| "pp_step (RemoveChannel ch) p = pp_removeChannel ch p"

text \<open>
  \<^verbatim>\<open>fillActiveChannels\<close>: walk the vector until \<open>numEvents\<close> entries with a positive
  (signed) \<^verbatim>\<open>revents\<close> have been found. \<open>fdOf\<close> reads the descriptor of a channel object.
\<close>

fun pp_fill :: "(nat \<Rightarrow> int) \<Rightarrow> (int \<rightharpoonup> nat \<times> nat) \<Rightarrow> nat \<Rightarrow> pollfd list
    \<Rightarrow> (nat \<times> 32 word) list result" where
  "pp_fill fdOf chans numEvents [] = Inr []"
| "pp_fill fdOf chans numEvents (pfd # fds) =
     (if numEvents = 0 then Inr []
      else if 0 < sint (pfdRevents pfd)
      then (case chans (pfdFd pfd) of
              None \<Rightarrow> Inl AssertFailed
            | Some (c, _) \<Rightarrow>
                assertR (fdOf c = pfdFd pfd)
                  (bindR (pp_fill fdOf chans (numEvents - 1) fds)
                     (\<lambda>act. Inr ((c, scast (pfdRevents pfd)) # act))))
      else pp_fill fdOf chans numEvents fds)"

text \<open>
  The outcome of \<^verbatim>\<open>poll(2)\<close>: an error, or the number of ready entries together with the
  \<^verbatim>\<open>revents\<close> the kernel stored in the vector.
\<close>

datatype poll_result = PollError int | PollReady nat "16 word list"

definition pp_poll :: "(nat \<Rightarrow> int) \<Rightarrow> poll_result \<Rightarrow> poll_poller
    \<Rightarrow> ((nat \<times> 32 word) list \<times> poll_poller) result" where
  "pp_poll fdOf res p =
     (case res of
        PollError _ \<Rightarrow> Inr ([], p)
      | PollReady numEvents revs \<Rightarrow>
          (let p1 = p\<lparr>pollfds := map2 (\<lambda>pfd r. pfd\<lparr>pfdRevents := r\<rparr>) (pollfds p) revs\<rparr>
           in if 0 < numEvents
              then bindR (pp_fill fdOf (ppChannels p1) numEvents (pollfds p1)) (\<lambda>act. Inr (act, p1))
              else Inr ([], p1)))"

section \<open>Invariant and abstraction\<close>

definition fd_of_entry :: "int \<Rightarrow> int" where
  "fd_of_entry f = (if f < 0 then - f - 1 else f)"

definition pp_inv :: "poll_poller \<Rightarrow> bool" where
  "pp_inv p \<longleftrightarrow>
     (\<forall>fd c i. ppChannels p fd = Some (c, i) \<longrightarrow>
        i < length (pollfds p) \<and> fd_of_entry (pfdFd (pollfds p ! i)) = fd)
   \<and> (\<forall>i < length (pollfds p). \<exists>c. ppChannels p (fd_of_entry (pfdFd (pollfds p ! i))) = Some (c, i))"

definition pp_registered :: "poll_poller \<Rightarrow> int \<rightharpoonup> nat" where
  "pp_registered p fd = map_option fst (ppChannels p fd)"

text \<open>\<^verbatim>\<open>poll(2)\<close> ignores entries with a negative descriptor.\<close>

definition entry_interest :: "pollfd \<Rightarrow> 32 word option" where
  "entry_interest pfd = (if pfdFd pfd < 0 then None else Some (ucast (pfdEvents pfd)))"

definition pp_watched :: "poll_poller \<Rightarrow> int \<rightharpoonup> 32 word" where
  "pp_watched p fd =
     (case ppChannels p fd of None \<Rightarrow> None | Some (c, i) \<Rightarrow> entry_interest (pollfds p ! i))"

lemma fd_of_entry_simps [simp]:
  "0 \<le> fd \<Longrightarrow> fd_of_entry fd = fd" "0 \<le> fd \<Longrightarrow> fd_of_entry (- fd - 1) = fd"
  by (simp_all add: fd_of_entry_def)

lemma fd_of_entry_nonneg: "0 \<le> fd_of_entry f"
  by (simp add: fd_of_entry_def)

lemma fd_of_entry_iff: "0 \<le> fd \<Longrightarrow> fd_of_entry f = fd \<longleftrightarrow> f = fd \<or> f = - fd - 1"
  by (auto simp: fd_of_entry_def)

lemma pp_inv_new: "pp_inv newPollPoller"
  by (simp add: pp_inv_def newPollPoller_def)

lemma pp_abs_new: "pp_registered newPollPoller = Map.empty" "pp_watched newPollPoller = Map.empty"
  by (auto simp: pp_registered_def pp_watched_def newPollPoller_def)

lemma pp_invD:
  assumes "pp_inv p" and "ppChannels p fd = Some (c, i)"
  shows "i < length (pollfds p)" and "fd_of_entry (pfdFd (pollfds p ! i)) = fd" and "0 \<le> fd"
proof -
  show "i < length (pollfds p)" "fd_of_entry (pfdFd (pollfds p ! i)) = fd"
    using assms unfolding pp_inv_def by blast+
  then show "0 \<le> fd" using fd_of_entry_nonneg by metis
qed

lemma pp_invE:
  assumes "pp_inv p" and "i < length (pollfds p)"
  obtains c where "ppChannels p (fd_of_entry (pfdFd (pollfds p ! i))) = Some (c, i)"
  using assms unfolding pp_inv_def by blast

lemma pp_index_inj:
  assumes "pp_inv p" and "ppChannels p fd = Some (c, i)" and "ppChannels p fd' = Some (c', i)"
  shows "fd = fd'"
  using pp_invD(2) [OF assms(1,2)] pp_invD(2) [OF assms(1,3)] by simp

section \<open>Refinement\<close>

lemma chan_ok_short: "chan_ok ch \<Longrightarrow> ucast (ucast (chEvents ch) :: 16 word) = chEvents ch"
  by (auto simp: chan_ok_def evmask_short)

lemma entry_interest_channel:
  assumes "chan_ok ch" and "pfdFd pfd = (if isNoneEvent ch then - chFd ch - 1 else chFd ch)"
    and "pfdEvents pfd = ucast (chEvents ch)"
  shows "entry_interest pfd = interest ch" and "fd_of_entry (pfdFd pfd) = chFd ch"
  using assms chan_ok_short [OF assms(1)]
  by (auto simp: entry_interest_def interest_def chan_ok_def)

lemma pp_addChannel_ok:
  assumes "pp_inv p" and "chan_ok ch" and "ppChannels p (chFd ch) = None"
  obtains p' where "pp_addChannel ch p = Inr p'" "pp_inv p'"
    "pp_registered p' = (pp_registered p)(chFd ch \<mapsto> chId ch)"
    "pp_watched p' = (pp_watched p)(chFd ch := interest ch)"
proof -
  let ?pfd = "\<lparr>pfdFd = (if isNoneEvent ch then - chFd ch - 1 else chFd ch),
               pfdEvents = ucast (chEvents ch), pfdRevents = 0\<rparr>"
  let ?p' = "p\<lparr>ppChannels := (ppChannels p)(chFd ch \<mapsto> (chId ch, length (pollfds p))),
              pollfds := pollfds p @ [?pfd]\<rparr>"
  have fd: "fd_of_entry (pfdFd ?pfd) = chFd ch" using assms(2) by (simp add: chan_ok_def)
  have "pp_inv ?p'"
  proof -
    have "i < length (pollfds ?p') \<and> fd_of_entry (pfdFd (pollfds ?p' ! i)) = f"
      if "ppChannels ?p' f = Some (c, i)" for f c i
      using that fd pp_invD [OF assms(1), of f c i] by (cases "f = chFd ch") (auto simp: nth_append)
    moreover have "\<exists>c. ppChannels ?p' (fd_of_entry (pfdFd (pollfds ?p' ! i))) = Some (c, i)"
      if "i < length (pollfds ?p')" for i
    proof (cases "i < length (pollfds p)")
      case True
      then obtain c where "ppChannels p (fd_of_entry (pfdFd (pollfds p ! i))) = Some (c, i)"
        by (rule pp_invE [OF assms(1)])
      with True assms(3) show ?thesis by (auto simp: nth_append)
    next
      case False
      with that fd show ?thesis by (simp add: nth_append less_Suc_eq)
    qed
    ultimately show ?thesis unfolding pp_inv_def by blast
  qed
  moreover have "pp_addChannel ch p = Inr ?p'" using assms(3) by (simp add: pp_addChannel_def)
  moreover have "pp_registered ?p' = (pp_registered p)(chFd ch \<mapsto> chId ch)"
    by (auto simp: pp_registered_def)
  moreover have "pp_watched ?p' f = ((pp_watched p)(chFd ch := interest ch)) f" for f
    using entry_interest_channel(1) [OF assms(2), of ?pfd] pp_invD(1) [OF assms(1), of f]
    by (auto simp: pp_watched_def nth_append split: option.splits)
  ultimately show thesis using that by blast
qed

text \<open>Overwriting an entry that keeps its descriptor.\<close>

lemma pp_overwrite:
  assumes "pp_inv p" and "ppChannels p fd = Some (c, i)" and "fd_of_entry (pfdFd pfd) = fd"
  shows "pp_inv (p\<lparr>pollfds := (pollfds p)[i := pfd]\<rparr>)"
    and "pp_watched (p\<lparr>pollfds := (pollfds p)[i := pfd]\<rparr>) = (pp_watched p)(fd := entry_interest pfd)"
proof -
  let ?p' = "p\<lparr>pollfds := (pollfds p)[i := pfd]\<rparr>"
  have i: "i < length (pollfds p)" using pp_invD(1) [OF assms(1,2)] .
  have same: "fd_of_entry (pfdFd (pollfds ?p' ! j)) = fd_of_entry (pfdFd (pollfds p ! j))"
    if "j < length (pollfds p)" for j
    using that i pp_invD(2) [OF assms(1,2)] assms(3) by (cases "i = j") auto
  show "pp_inv ?p'"
    using assms(1) same unfolding pp_inv_def by (simp add: same)
  show "pp_watched ?p' = (pp_watched p)(fd := entry_interest pfd)"
  proof
    fix f
    show "pp_watched ?p' f = ((pp_watched p)(fd := entry_interest pfd)) f"
    proof (cases "f = fd")
      case True
      with assms(2) i show ?thesis by (simp add: pp_watched_def)
    next
      case False
      then have "\<And>c' j. ppChannels p f = Some (c', j) \<Longrightarrow> j \<noteq> i"
        using pp_index_inj [OF assms(1,2)] by blast
      with False show ?thesis by (auto simp: pp_watched_def split: option.splits)
    qed
  qed
qed

lemma pp_updateChannel_ok:
  assumes "pp_inv p" and "chan_ok ch" and "ppChannels p (chFd ch) = Some (chId ch, i)"
  obtains p' where "pp_updateChannel ch p = Inr p'" "pp_inv p'"
    "pp_registered p' = pp_registered p" "pp_watched p' = (pp_watched p)(chFd ch := interest ch)"
proof -
  let ?pfd = "(pollfds p ! i)\<lparr>pfdEvents := ucast (chEvents ch), pfdRevents := 0,
                pfdFd := if isNoneEvent ch then - chFd ch - 1 else chFd ch\<rparr>"
  let ?p' = "p\<lparr>pollfds := (pollfds p)[i := ?pfd]\<rparr>"
  have pfd: "entry_interest ?pfd = interest ch" "fd_of_entry (pfdFd ?pfd) = chFd ch"
    using entry_interest_channel [OF assms(2), of ?pfd] by simp_all
  have "i < length (pollfds p)" "0 \<le> chFd ch" "fd_of_entry (pfdFd (pollfds p ! i)) = chFd ch"
    using pp_invD [OF assms(1,3)] by auto
  then have "pp_updateChannel ch p = Inr ?p'"
    using assms(3) by (auto simp: pp_updateChannel_def fd_of_entry_iff)
  moreover have "pp_registered ?p' = pp_registered p" by (auto simp: pp_registered_def)
  ultimately show thesis
    using that pp_overwrite [OF assms(1,3) pfd(2)] pfd(1) by metis
qed

text \<open>
  Removal: the last entry moves into the hole and the map follows it. \<open>fds\<close> is the vector
  afterwards, \<open>chans\<close> the map.
\<close>

lemma pp_removeChannel_eq:
  assumes "pp_inv p" and "ppChannels p (chFd ch) = Some (chId ch, i)" and "isNoneEvent ch"
  obtains fds chans where "pp_removeChannel ch p = Inr (p\<lparr>ppChannels := chans, pollfds := fds\<rparr>)"
    and "fds = butlast ((pollfds p)[i := last (pollfds p)])"
    and "\<And>f. chans f = (if f = chFd ch then None
                        else case ppChannels p f of None \<Rightarrow> None
                          | Some (c, j) \<Rightarrow> Some (c, if j = length (pollfds p) - 1 then i else j))"
proof -
  let ?n = "length (pollfds p) - 1"
  note i = pp_invD [OF assms(1,2)]
  show thesis
  proof (cases "i < ?n")
    case False
    then have n: "i = ?n" using i(1) by simp
    have "pp_removeChannel ch p =
        Inr (p\<lparr>ppChannels := (ppChannels p)(chFd ch := None), pollfds := butlast (pollfds p)\<rparr>)"
      using assms(2,3) i(1) False by (simp add: pp_removeChannel_def)
    moreover have "(pollfds p)[i := last (pollfds p)] = pollfds p"
      using i(1) n by (metis last_conv_nth length_0_conv list_update_id not_less_zero)
    ultimately show thesis
      by (intro that [of "butlast (pollfds p)" "(ppChannels p)(chFd ch := None)"])
        (auto simp: n split: option.splits)
  next
    case True
    let ?endfd = "fd_of_entry (pfdFd (last (pollfds p)))"
    have last: "last (pollfds p) = pollfds p ! ?n" using i(1) by (intro last_conv_nth) auto
    have n: "?n < length (pollfds p)" using i(1) by simp
    obtain c where c: "ppChannels p ?endfd = Some (c, ?n)"
      unfolding last by (rule pp_invE [OF assms(1) n])
    have "?endfd \<noteq> chFd ch" using c assms(2) True by auto
    with c assms(2,3) i(1) True have eq: "pp_removeChannel ch p =
        Inr (p\<lparr>ppChannels := (ppChannels p)(chFd ch := None, ?endfd \<mapsto> (c, i)),
               pollfds := butlast ((pollfds p)[i := last (pollfds p), ?n := pollfds p ! i])\<rparr>)"
      by (simp add: pp_removeChannel_def Let_def fd_of_entry_def)
    have swap: "butlast ((pollfds p)[i := last (pollfds p), ?n := pollfds p ! i])
        = butlast ((pollfds p)[i := last (pollfds p)])"
      by (simp add: butlast_list_update)
    have "((ppChannels p)(chFd ch := None, ?endfd \<mapsto> (c, i))) f =
        (if f = chFd ch then None
         else case ppChannels p f of None \<Rightarrow> None
           | Some (c, j) \<Rightarrow> Some (c, if j = ?n then i else j))" for f
    proof (cases "f = ?endfd")
      case True
      with c \<open>?endfd \<noteq> chFd ch\<close> show ?thesis by simp
    next
      case False
      then have "j \<noteq> ?n" if "ppChannels p f = Some (c', j)" for c' j
        using that pp_index_inj [OF assms(1) c] by blast
      with False show ?thesis by (auto split: option.splits)
    qed
    then show thesis by (rule that [OF eq swap])
  qed
qed

lemma pp_removeChannel_ok:
  assumes "pp_inv p" and "ppChannels p (chFd ch) = Some (chId ch, i)" and "isNoneEvent ch"
  obtains p' where "pp_removeChannel ch p = Inr p'" "pp_inv p'"
    "pp_registered p' = (pp_registered p)(chFd ch := None)"
    "pp_watched p' = (pp_watched p)(chFd ch := None)"
proof -
  let ?n = "length (pollfds p) - 1"
  note i = pp_invD [OF assms(1,2)]
  obtain fds chans where eq: "pp_removeChannel ch p = Inr (p\<lparr>ppChannels := chans, pollfds := fds\<rparr>)"
    and fds: "fds = butlast ((pollfds p)[i := last (pollfds p)])"
    and chans: "\<And>f. chans f = (if f = chFd ch then None
                        else case ppChannels p f of None \<Rightarrow> None
                          | Some (c, j) \<Rightarrow> Some (c, if j = ?n then i else j))"
    by (rule pp_removeChannel_eq [OF assms]) blast
  let ?p' = "p\<lparr>ppChannels := chans, pollfds := fds\<rparr>"
  have last: "last (pollfds p) = pollfds p ! ?n" using i(1) by (intro last_conv_nth) auto
  have len: "length fds = ?n" by (simp add: fds)
  have nth: "fds ! j = pollfds p ! (if j = i then ?n else j)" if "j < ?n" for j
    using that last by (simp add: fds nth_butlast)
  have chanD: "\<exists>j0. ppChannels p f = Some (c, j0) \<and> f \<noteq> chFd ch \<and> j0 \<noteq> i \<and> j < ?n
      \<and> fds ! j = pollfds p ! j0" if "chans f = Some (c, j)" for f c j
  proof -
    from that chans obtain j0 where j0: "ppChannels p f = Some (c, j0)" "f \<noteq> chFd ch"
      "j = (if j0 = ?n then i else j0)"
      by (auto split: if_splits option.splits)
    moreover have "j0 \<noteq> i" using pp_index_inj [OF assms(1,2)] j0(1,2) by blast
    moreover have "j0 < length (pollfds p)" using pp_invD(1) [OF assms(1) j0(1)] .
    ultimately show ?thesis using nth i(1) by auto
  qed
  have "pp_inv ?p'"
  proof -
    have "j < length (pollfds ?p') \<and> fd_of_entry (pfdFd (pollfds ?p' ! j)) = f"
      if "ppChannels ?p' f = Some (c, j)" for f c j
      using chanD [of f c j] that pp_invD(2) [OF assms(1)] len by force
    moreover have "\<exists>c. ppChannels ?p' (fd_of_entry (pfdFd (pollfds ?p' ! j))) = Some (c, j)"
      if j: "j < length (pollfds ?p')" for j
    proof -
      let ?j0 = "if j = i then ?n else j"
      have "?j0 < length (pollfds p)" using j len by auto
      then obtain c where c: "ppChannels p (fd_of_entry (pfdFd (pollfds p ! ?j0))) = Some (c, ?j0)"
        by (rule pp_invE [OF assms(1)])
      have "fd_of_entry (pfdFd (pollfds p ! ?j0)) \<noteq> chFd ch"
        using c assms(2) j len by (auto split: if_splits)
      with c nth [of j] j len show ?thesis by (simp add: chans)
    qed
    ultimately show ?thesis unfolding pp_inv_def by blast
  qed
  moreover have "pp_registered ?p' = (pp_registered p)(chFd ch := None)"
    by (auto simp: pp_registered_def chans split: option.splits)
  moreover have "pp_watched ?p' f = ((pp_watched p)(chFd ch := None)) f" for f
  proof (cases "chans f")
    case None
    then show ?thesis by (auto simp: chans pp_watched_def split: if_splits option.splits)
  next
    case (Some cj)
    then obtain c j where "chans f = Some (c, j)" by (cases cj) auto
    from this chanD [OF this] show ?thesis by (auto simp: pp_watched_def)
  qed
  ultimately show thesis using that eq by blast
qed

lemma pp_registered_iff:
  "pp_registered p fd = Some c \<longleftrightarrow> (\<exists>i. ppChannels p fd = Some (c, i))"
  "pp_registered p fd = None \<longleftrightarrow> ppChannels p fd = None"
  by (auto simp: pp_registered_def)

lemma pp_step_fails:
  "ppChannels p (chFd ch) \<noteq> None \<Longrightarrow> pp_addChannel ch p = Inl AssertFailed"
  "\<nexists>i. ppChannels p (chFd ch) = Some (chId ch, i) \<Longrightarrow> pp_updateChannel ch p = Inl AssertFailed"
  "\<not> ((\<exists>i. ppChannels p (chFd ch) = Some (chId ch, i)) \<and> isNoneEvent ch)
     \<Longrightarrow> pp_removeChannel ch p = Inl AssertFailed"
  by (auto simp: pp_addChannel_def pp_updateChannel_def pp_removeChannel_def assertR_def
      split: option.splits)

lemma pp_step_spec:
  assumes "pp_inv p" and "chan_ok (op_channel x)"
  shows "mapR (\<lambda>p. (pp_registered p, pp_watched p)) (pp_step x p)
           = reg_step x (pp_registered p, pp_watched p)
    \<and> (\<forall>p'. pp_step x p = Inr p' \<longrightarrow> pp_inv p')"
proof (cases x)
  case (AddChannel ch)
  then have ok: "chan_ok ch" using assms(2) by simp
  show ?thesis
  proof (cases "ppChannels p (chFd ch)")
    case None
    obtain p' where "pp_addChannel ch p = Inr p'" "pp_inv p'"
      "pp_registered p' = (pp_registered p)(chFd ch \<mapsto> chId ch)"
      "pp_watched p' = (pp_watched p)(chFd ch := interest ch)"
      by (rule pp_addChannel_ok [OF assms(1) ok None])
    with AddChannel None show ?thesis by (simp add: pp_registered_iff)
  qed (use AddChannel in \<open>simp add: pp_step_fails pp_registered_def\<close>)
next
  case (UpdateChannel ch)
  then have ok: "chan_ok ch" using assms(2) by simp
  show ?thesis
  proof (cases "pp_registered p (chFd ch) = Some (chId ch)")
    case True
    then obtain i where i: "ppChannels p (chFd ch) = Some (chId ch, i)" by (auto simp: pp_registered_iff)
    obtain p' where "pp_updateChannel ch p = Inr p'" "pp_inv p'" "pp_registered p' = pp_registered p"
      "pp_watched p' = (pp_watched p)(chFd ch := interest ch)"
      by (rule pp_updateChannel_ok [OF assms(1) ok i])
    with UpdateChannel True show ?thesis by simp
  qed (use UpdateChannel in \<open>simp add: pp_step_fails pp_registered_iff\<close>)
next
  case (RemoveChannel ch)
  show ?thesis
  proof (cases "pp_registered p (chFd ch) = Some (chId ch) \<and> isNoneEvent ch")
    case True
    then obtain i where i: "ppChannels p (chFd ch) = Some (chId ch, i)" by (auto simp: pp_registered_iff)
    obtain p' where "pp_removeChannel ch p = Inr p'" "pp_inv p'"
      "pp_registered p' = (pp_registered p)(chFd ch := None)"
      "pp_watched p' = (pp_watched p)(chFd ch := None)"
      using pp_removeChannel_ok [OF assms(1) i] True by blast
    with RemoveChannel True show ?thesis by simp
  qed (use RemoveChannel in \<open>auto simp: pp_step_fails pp_registered_iff assertR_def\<close>)
qed

lemma pp_watched_dom: "dom (pp_watched p) \<subseteq> dom (pp_registered p)"
  by (auto simp: pp_watched_def pp_registered_def split: option.splits)

interpretation pp: poller pp_inv pp_registered pp_watched pp_step
proof unfold_locales
  show "dom (pp_watched p) \<subseteq> dom (pp_registered p)" if "pp_inv p" for p
    by (rule pp_watched_dom)
qed (use pp_step_spec in blast)+

section \<open>Polling\<close>

definition entry_ready :: "pollfd \<Rightarrow> bool" where
  "entry_ready pfd \<longleftrightarrow> 0 < sint (pfdRevents pfd)"

lemma pp_fill_ok:
  assumes "\<And>pfd. pfd \<in> set fds \<Longrightarrow> entry_ready pfd \<Longrightarrow>
      chans (pfdFd pfd) = Some (who pfd, pos pfd) \<and> fdOf (who pfd) = pfdFd pfd"
    and "length (filter entry_ready fds) \<le> n"
  shows "pp_fill fdOf chans n fds =
    Inr (map (\<lambda>pfd. (who pfd, scast (pfdRevents pfd))) (filter entry_ready fds))"
  using assms
proof (induction fds arbitrary: n)
  case (Cons pfd fds)
  show ?case
  proof (cases "n = 0")
    case True
    then have "filter entry_ready (pfd # fds) = []" using Cons.prems(2) by simp
    with True show ?thesis by simp
  next
    case False
    show ?thesis
    proof (cases "entry_ready pfd")
      case True
      then have "pp_fill fdOf chans (n - 1) fds =
          Inr (map (\<lambda>pfd. (who pfd, scast (pfdRevents pfd))) (filter entry_ready fds))"
        using Cons.prems by (intro Cons.IH) auto
      with True False Cons.prems(1) [of pfd] show ?thesis by (simp add: entry_ready_def [symmetric])
    next
      case notready: False
      then have "pp_fill fdOf chans n fds =
          Inr (map (\<lambda>pfd. (who pfd, scast (pfdRevents pfd))) (filter entry_ready fds))"
        using Cons.prems by (intro Cons.IH) auto
      with notready False show ?thesis by (simp add: entry_ready_def [symmetric])
    qed
  qed
qed simp

text \<open>
  What \<^verbatim>\<open>poll(2)\<close> promises of the \<^verbatim>\<open>revents\<close> it stores: one for each entry, zero for the
  ignored entries, never negative as a \<^verbatim>\<open>short\<close>, and the return value is the number of
  nonzero ones.
\<close>

definition poll_contract :: "poll_poller \<Rightarrow> nat \<Rightarrow> 16 word list \<Rightarrow> bool" where
  "poll_contract p n revs \<longleftrightarrow> length revs = length (pollfds p)
     \<and> (\<forall>i < length revs. 0 \<le> sint (revs ! i) \<and> (pfdFd (pollfds p ! i) < 0 \<longrightarrow> revs ! i = 0))
     \<and> n = length (filter (\<lambda>r. r \<noteq> 0) revs)"

text \<open>The channel registered under an entry of the vector.\<close>

definition entry_channel :: "poll_poller \<Rightarrow> pollfd \<Rightarrow> nat" where
  "entry_channel p pfd = fst (the (ppChannels p (pfdFd pfd)))"

lemma pp_rerevents:
  assumes "length revs = length (pollfds p)"
  defines "p1 \<equiv> p\<lparr>pollfds := map2 (\<lambda>pfd r. pfd\<lparr>pfdRevents := r\<rparr>) (pollfds p) revs\<rparr>"
  shows "pp_inv p1 = pp_inv p" and "pp_registered p1 = pp_registered p"
    and "pp_inv p \<Longrightarrow> pp_watched p1 = pp_watched p"
proof -
  have nth: "i < length (pollfds p) \<Longrightarrow> pollfds p1 ! i = (pollfds p ! i)\<lparr>pfdRevents := revs ! i\<rparr>" for i
    using assms(1) by (simp add: p1_def)
  have len: "length (pollfds p1) = length (pollfds p)" "ppChannels p1 = ppChannels p"
    using assms(1) by (simp_all add: p1_def)
  show "pp_inv p1 = pp_inv p" unfolding pp_inv_def len by (simp add: nth cong: conj_cong)
  show "pp_registered p1 = pp_registered p" by (auto simp: pp_registered_def len)
  show "pp_watched p1 = pp_watched p" if "pp_inv p"
    using pp_invD(1) [OF that]
    by (auto simp: pp_watched_def len nth entry_interest_def split: option.splits)
qed

lemma sint_pos_iff: "0 \<le> sint (r :: 16 word) \<Longrightarrow> 0 < sint r \<longleftrightarrow> r \<noteq> 0"
  by (metis less_le signed_0 signed_eq_0_iff)

lemma poll_contract_ready:
  assumes "poll_contract p n revs"
  shows "filter entry_ready (map2 (\<lambda>pfd r. pfd\<lparr>pfdRevents := r\<rparr>) (pollfds p) revs)
      = map (\<lambda>(pfd, r). pfd\<lparr>pfdRevents := r\<rparr>) (filter (\<lambda>(pfd, r). r \<noteq> 0) (zip (pollfds p) revs))"
    and "length (filter (\<lambda>(pfd, r). r \<noteq> 0) (zip (pollfds p) revs)) = n"
proof -
  have "(entry_ready \<circ> (\<lambda>(pfd, r). pfd\<lparr>pfdRevents := r\<rparr>)) x = (\<lambda>(pfd, r). r \<noteq> 0) x"
    if "x \<in> set (zip (pollfds p) revs)" for x
  proof -
    obtain pfd r where x: "x = (pfd, r)" by (cases x)
    with that have "r \<in> set revs" by (auto dest: set_zip_rightD)
    then have "0 \<le> sint r" using assms by (auto simp: poll_contract_def in_set_conv_nth)
    with x sint_pos_iff show ?thesis by (auto simp: entry_ready_def)
  qed
  then show "filter entry_ready (map2 (\<lambda>pfd r. pfd\<lparr>pfdRevents := r\<rparr>) (pollfds p) revs)
      = map (\<lambda>(pfd, r). pfd\<lparr>pfdRevents := r\<rparr>) (filter (\<lambda>(pfd, r). r \<noteq> 0) (zip (pollfds p) revs))"
    unfolding filter_map by (intro arg_cong [where f = "map _"] filter_cong) auto
  have "map snd (filter (\<lambda>(pfd, r). r \<noteq> 0) (zip (pollfds p) revs))
      = filter (\<lambda>r. r \<noteq> 0) (map snd (zip (pollfds p) revs))"
    by (simp add: filter_map o_def case_prod_unfold)
  also have "\<dots> = filter (\<lambda>r. r \<noteq> 0) revs" using assms by (simp add: poll_contract_def)
  finally have "length (map snd (filter (\<lambda>(pfd, r). r \<noteq> 0) (zip (pollfds p) revs)))
      = length (filter (\<lambda>r. r \<noteq> 0) revs)" by (rule arg_cong)
  then show "length (filter (\<lambda>(pfd, r). r \<noteq> 0) (zip (pollfds p) revs)) = n"
    using assms by (simp add: poll_contract_def)
qed

lemma poll_contract_entry:
  assumes "pp_inv p" and "poll_contract p n revs" and "(pfd, r) \<in> set (zip (pollfds p) revs)" "r \<noteq> 0"
  obtains c i where "ppChannels p (pfdFd pfd) = Some (c, i)"
proof -
  obtain i where i: "i < length (pollfds p)" "pfd = pollfds p ! i" "r = revs ! i" "i < length revs"
    using assms(3) by (auto simp: in_set_zip)
  with assms(2,4) have "0 \<le> pfdFd pfd" by (force simp: poll_contract_def)
  moreover obtain c where "ppChannels p (fd_of_entry (pfdFd (pollfds p ! i))) = Some (c, i)"
    by (rule pp_invE [OF assms(1) i(1)])
  ultimately show thesis using i(2) that by simp
qed

section \<open>Properties\<close>

text \<open>
  The \<^verbatim>\<open>poll(2)\<close> back end delivers every ready channel exactly once. If the vector and
  the map are consistent, channel objects answer their own descriptor, and the kernel keeps
  its contract for \<^verbatim>\<open>poll(2)\<close>, then \<^verbatim>\<open>PollPoller::poll\<close> succeeds (no assertion fails), the
  active list holds, in the order of the vector, the channel of each entry with nonzero
  \<^verbatim>\<open>revents\<close> together with those \<^verbatim>\<open>revents\<close>, and registration and interest are unchanged.
\<close>

theorem pp_poll_delivers:
  assumes "pp_inv p" and "\<forall>fd c i. ppChannels p fd = Some (c, i) \<longrightarrow> fdOf c = fd"
    and "poll_contract p n revs"
  shows "\<exists>p1. pp_poll fdOf (PollReady n revs) p =
      Inr (map (\<lambda>(pfd, r). (entry_channel p pfd, scast r))
             (filter (\<lambda>(pfd, r). r \<noteq> 0) (zip (pollfds p) revs)), p1)
    \<and> pp_inv p1 \<and> pp_registered p1 = pp_registered p \<and> pp_watched p1 = pp_watched p"
proof -
  let ?set = "\<lambda>(pfd, r). pfd\<lparr>pfdRevents := r\<rparr>"
  let ?p1 = "p\<lparr>pollfds := map2 (\<lambda>pfd r. pfd\<lparr>pfdRevents := r\<rparr>) (pollfds p) revs\<rparr>"
  let ?ready = "filter (\<lambda>(pfd, r). r \<noteq> 0) (zip (pollfds p) revs)"
  have len: "length revs = length (pollfds p)" using assms(3) by (simp add: poll_contract_def)
  have "ppChannels p (pfdFd pfd) = Some (entry_channel p pfd, snd (the (ppChannels p (pfdFd pfd))))
      \<and> fdOf (entry_channel p pfd) = pfdFd pfd"
    if ready: "pfd \<in> set (pollfds ?p1)" "entry_ready pfd" for pfd
  proof -
    from ready have "pfd \<in> set (filter entry_ready (pollfds ?p1))" by simp
    then obtain q r where "(q, r) \<in> set (zip (pollfds p) revs)" "r \<noteq> 0" "pfd = q\<lparr>pfdRevents := r\<rparr>"
      using poll_contract_ready(1) [OF assms(3)] by auto
    moreover from this obtain c i where "ppChannels p (pfdFd q) = Some (c, i)"
      using poll_contract_entry [OF assms(1,3)] by blast
    ultimately show ?thesis using assms(2) by (simp add: entry_channel_def)
  qed
  moreover have "length (filter entry_ready (pollfds ?p1)) \<le> n"
    using poll_contract_ready [OF assms(3)] by simp
  ultimately have "pp_fill fdOf (ppChannels p) n (pollfds ?p1) =
      Inr (map (\<lambda>pfd. (entry_channel p pfd, scast (pfdRevents pfd))) (filter entry_ready (pollfds ?p1)))"
    by (rule pp_fill_ok)
  also have "map (\<lambda>pfd. (entry_channel p pfd, scast (pfdRevents pfd))) (filter entry_ready (pollfds ?p1))
      = map (\<lambda>(pfd, r). (entry_channel p pfd, scast r)) ?ready"
    using poll_contract_ready(1) [OF assms(3)]
    by (simp add: case_prod_unfold entry_channel_def o_def)
  finally have "pp_poll fdOf (PollReady n revs) p =
      Inr (map (\<lambda>(pfd, r). (entry_channel p pfd, scast r)) ?ready, ?p1)"
    using poll_contract_ready(2) [OF assms(3)] by (auto simp: pp_poll_def Let_def)
  with pp_rerevents [OF len] assms(1) show ?thesis by blast
qed

theorem pp_poll_delivers_example:
  "\<exists>(p :: poll_poller) p1. pp_inv p \<and> poll_contract p 1 [0, 1]
     \<and> pp_poll (\<lambda>c. if c = 7 then 3 else 5) (PollReady 1 [0, 1]) p = Inr ([(7, 1)], p1) \<and> pp_inv p1"
proof -
  let ?p = "\<lparr>pollfds = [\<lparr>pfdFd = -6, pfdEvents = 0, pfdRevents = 0\<rparr>, \<lparr>pfdFd = 3, pfdEvents = 3, pfdRevents = 0\<rparr>],
             ppChannels = [3 \<mapsto> (7, 1), 5 \<mapsto> (8, 0)]\<rparr>"
  let ?fdOf = "\<lambda>c :: nat. if c = 7 then 3 else (5 :: int)"
  have inv: "pp_inv ?p"
    by (auto simp: pp_inv_def fd_of_entry_def less_Suc_eq split: if_splits)
  have own: "\<forall>fd c i. ppChannels ?p fd = Some (c, i) \<longrightarrow> ?fdOf c = fd" by (auto split: if_splits)
  have con: "poll_contract ?p 1 [0, 1]" by (auto simp: poll_contract_def less_Suc_eq)
  from pp_poll_delivers [where fdOf = ?fdOf, OF inv own con] have
    "\<exists>p1. pp_poll ?fdOf (PollReady 1 [0, 1]) ?p = Inr ([(7, 1)], p1) \<and> pp_inv p1"
    by (auto simp: entry_channel_def)
  with inv con show ?thesis by - (rule exI [of _ ?p], blast)
qed

end
