(* ===== verification/Timer_Queue.thy ===== *)
theory Timer_Queue
  imports Miniduo_Prelude Complex_Main "HOL-Library.Product_Lexorder"
begin

text \<open>
  The classes \<^verbatim>\<open>Timer\<close> and \<^verbatim>\<open>TimerQueue\<close> of \<^verbatim>\<open>miniduo/timer.h\<close> and
  \<^verbatim>\<open>miniduo/timer.cpp\<close>. The ordered set \<^verbatim>\<open>timers_\<close> of pairs of an expiration and a
  pointer is a sorted list of pairs of an integer and a natural number, the timer's address
  (0 is the null pointer); the live \<^verbatim>\<open>Timer\<close> objects are a map from addresses, so a
  \<^verbatim>\<open>weak_ptr\<close> locks exactly when its address is in the map. A finite \<^verbatim>\<open>double\<close> is a rational
  number; every floating-point operation rounds by the parameter \<open>fl\<close>. \<^verbatim>\<open>Timestamp\<close> is
  \<^verbatim>\<open>int64_t\<close>: sums and differences wrap around as on the usual machines, and a \<^verbatim>\<open>double\<close> outside of its
  range is converted to its least value. Clock readings are arguments; they are not the greatest
  \<^verbatim>\<open>int64_t\<close>, so that the sentry \<^verbatim>\<open>now + 1\<close> exists. What a callback does to the queue is a list of actions, the calls it makes.
\<close>

section \<open>Model: timers\<close>

type_synonym timestamp = int

record timer =
  tmCallback :: nat
  tmExpiration :: timestamp
  tmInterval :: rat

definition repeat_timer :: "timer \<Rightarrow> bool" where
  "repeat_timer tm \<longleftrightarrow> 0 < tmInterval tm"

definition setUnrepeat :: "timer \<Rightarrow> timer" where
  "setUnrepeat tm = tm\<lparr>tmInterval := 0\<rparr>"

text \<open>
  \<^verbatim>\<open>int64_t\<close> arithmetic. Conversion of a \<^verbatim>\<open>double\<close> drops the fraction; a value out of range, for which the
  language defines no result, becomes \<^verbatim>\<open>INT64_MIN\<close>, as the conversion instruction of x86-64 does.
\<close>

definition int64 :: "int \<Rightarrow> int" where
  "int64 i = (i + 2 ^ 63) mod 2 ^ 64 - 2 ^ 63"

definition trunc_double :: "rat \<Rightarrow> int" where
  "trunc_double x =
     (let i = (if 0 \<le> x then \<lfloor>x\<rfloor> else \<lceil>x\<rceil>) in if - (2 ^ 63) \<le> i \<and> i < 2 ^ 63 then i else - (2 ^ 63))"

definition restart :: "(rat \<Rightarrow> rat) \<Rightarrow> timestamp \<Rightarrow> timer \<Rightarrow> timer" where
  "restart fl now tm =
     tm\<lparr>tmExpiration := (if repeat_timer tm
          then trunc_double (fl (fl (of_int now) + fl (tmInterval tm * 1000000))) else 0)\<rparr>"

section \<open>Model: the timer descriptor\<close>

record itimerspec =
  tv_sec :: int
  tv_nsec :: int

text \<open>The last \<^verbatim>\<open>timerfd_settime\<close>: when it was called and the one-shot value it set.\<close>

record alarm =
  setAt :: timestamp
  alarmValue :: itimerspec

definition resetTimerfd :: "timestamp \<Rightarrow> timestamp \<Rightarrow> alarm" where
  "resetTimerfd now expiration =
     (let microseconds = int64 (expiration - now);
          microseconds = (if microseconds < 100 then 100 else microseconds)
      in \<lparr>setAt = now,
          alarmValue = \<lparr>tv_sec = microseconds div 1000000,
                        tv_nsec = (microseconds mod 1000000) * 1000\<rparr>\<rparr>)"

section \<open>Model: the queue\<close>

type_synonym timer_entry = "timestamp \<times> nat"

record timer_queue =
  tqTimers :: "timer_entry list"
  tqHeap :: "nat \<rightharpoonup> timer"
  tqAlarm :: "alarm option"

definition newTimerQueue :: timer_queue where
  "newTimerQueue = \<lparr>tqTimers = [], tqHeap = Map.empty, tqAlarm = None\<rparr>"

text \<open>\<^verbatim>\<open>std::make_shared<Timer>\<close> in \<^verbatim>\<open>EventLoop::runAt\<close> and \<^verbatim>\<open>EventLoop::runEvery\<close>.\<close>

definition makeTimer :: "nat \<Rightarrow> timer \<Rightarrow> timer_queue \<Rightarrow> timer_queue" where
  "makeTimer a tm q = q\<lparr>tqHeap := (tqHeap q)(a \<mapsto> tm)\<rparr>"

text \<open>The test of \<^verbatim>\<open>insert\<close>: the set is empty or starts later.\<close>

definition earliest :: "timestamp \<Rightarrow> timer_entry list \<Rightarrow> bool" where
  "earliest when es = (case es of [] \<Rightarrow> True | it # _ \<Rightarrow> when < fst it)"

definition insert_timer :: "nat \<Rightarrow> timer_queue \<Rightarrow> (bool \<times> timer_queue) result" where
  "insert_timer a q =
     (case tqHeap q a of
        None \<Rightarrow> Inl UseAfterFree
      | Some tm \<Rightarrow>
          (let when = tmExpiration tm;
               earliestChanged = earliest when (tqTimers q)
           in assertR ((when, a) \<notin> set (tqTimers q))
                (Inr (earliestChanged, q\<lparr>tqTimers := insort (when, a) (tqTimers q)\<rparr>))))"

definition addTimer :: "bool \<Rightarrow> timestamp \<Rightarrow> nat \<Rightarrow> timer_queue \<Rightarrow> timer_queue result" where
  "addTimer inLoop clock a q =
     (if \<not> inLoop then Inl Aborted
      else case tqHeap q a of
             None \<Rightarrow> Inl UseAfterFree
           | Some tm \<Rightarrow>
               (let when = tmExpiration tm
                in bindR (insert_timer a q)
                     (\<lambda>(earliestChanged, q1).
                        Inr (if earliestChanged then q1\<lparr>tqAlarm := Some (resetTimerfd clock when)\<rparr>
                             else q1))))"

text \<open>
  \<^verbatim>\<open>cancelTimer\<close>: an entry erased from the set drops the last strong reference, so the object
  is destroyed when the local pointer goes out of scope.
\<close>

definition cancelTimer :: "bool \<Rightarrow> nat \<Rightarrow> timer_queue \<Rightarrow> timer_queue result" where
  "cancelTimer inLoop a q =
     (if \<not> inLoop then Inl Aborted
      else case tqHeap q a of
             None \<Rightarrow> Inr q
           | Some tm \<Rightarrow>
               (let entry = (tmExpiration tm, a)
                in if entry \<in> set (tqTimers q)
                   then Inr (q\<lparr>tqTimers := remove1 entry (tqTimers q), tqHeap := (tqHeap q)(a := None)\<rparr>)
                   else Inr (q\<lparr>tqHeap := (tqHeap q)(a \<mapsto> setUnrepeat tm)\<rparr>)))"

definition getExpired :: "timestamp \<Rightarrow> timer_queue \<Rightarrow> (timer_entry list \<times> timer_queue) result" where
  "getExpired now q =
     (let sentry = (now + 1, 0);
          expired = takeWhile (\<lambda>e. e < sentry) (tqTimers q);
          rest = dropWhile (\<lambda>e. e < sentry) (tqTimers q)
      in assertR (case rest of [] \<Rightarrow> True | it # _ \<Rightarrow> now < fst it)
           (Inr (expired, q\<lparr>tqTimers := rest\<rparr>)))"

fun reset_loop :: "(rat \<Rightarrow> rat) \<Rightarrow> timestamp \<Rightarrow> timer_entry list \<Rightarrow> timer_queue \<Rightarrow> timer_queue result" where
  "reset_loop fl now [] q = Inr q"
| "reset_loop fl now ((t, a) # es) q =
     (case tqHeap q a of
        None \<Rightarrow> Inl UseAfterFree
      | Some tm \<Rightarrow>
          if repeat_timer tm
          then bindR (insert_timer a (q\<lparr>tqHeap := (tqHeap q)(a \<mapsto> restart fl now tm)\<rparr>))
                 (\<lambda>(_, q1). reset_loop fl now es q1)
          else reset_loop fl now es q)"

definition reset_timers :: "(rat \<Rightarrow> rat) \<Rightarrow> timestamp \<Rightarrow> timestamp \<Rightarrow> timer_entry list \<Rightarrow> timer_queue
    \<Rightarrow> timer_queue result" where
  "reset_timers fl clock now expired q =
     bindR (reset_loop fl now expired q)
       (\<lambda>q1. case tqTimers q1 of
                [] \<Rightarrow> Inr q1
              | (_, a) # _ \<Rightarrow>
                  (case tqHeap q1 a of
                     None \<Rightarrow> Inl UseAfterFree
                   | Some tm \<Rightarrow>
                       Inr (if 0 < tmExpiration tm
                            then q1\<lparr>tqAlarm := Some (resetTimerfd clock (tmExpiration tm))\<rparr> else q1)))"

text \<open>The calls a callback can make on the queue of its own loop, with the clock reading each sees.\<close>

datatype timer_action = ActAdd nat timer timestamp | ActCancel nat

fun timer_act :: "timer_action \<Rightarrow> timer_queue \<Rightarrow> timer_queue result" where
  "timer_act (ActAdd a tm clock) q = addTimer True clock a (makeTimer a tm q)"
| "timer_act (ActCancel a) q = cancelTimer True a q"

fun timer_acts :: "timer_action list \<Rightarrow> timer_queue \<Rightarrow> timer_queue result" where
  "timer_acts [] q = Inr q"
| "timer_acts (x # xs) q = bindR (timer_act x q) (timer_acts xs)"

text \<open>
  The loop over the expired timers; \<open>acts a\<close> are the calls the callback of timer \<open>a\<close> makes.
  The addresses are returned in the order in which the callbacks fired.
\<close>

fun run_expired :: "(nat \<Rightarrow> timer_action list) \<Rightarrow> timer_entry list \<Rightarrow> timer_queue
    \<Rightarrow> (nat list \<times> timer_queue) result" where
  "run_expired acts [] q = Inr ([], q)"
| "run_expired acts ((t, a) # es) q =
     (case tqHeap q a of
        None \<Rightarrow> Inl UseAfterFree
      | Some tm \<Rightarrow>
          bindR (timer_acts (acts a) q)
            (\<lambda>q1. bindR (run_expired acts es q1) (\<lambda>(fired, q2). Inr (a # fired, q2))))"

text \<open>
  When the vector \<^verbatim>\<open>expired\<close> is destroyed, the timers that were not put back lose their last
  reference.
\<close>

definition release :: "timer_entry list \<Rightarrow> timer_queue \<Rightarrow> timer_queue" where
  "release expired q =
     q\<lparr>tqHeap := (\<lambda>a. if a \<in> snd ` set expired \<and> a \<notin> snd ` set (tqTimers q) then None else tqHeap q a)\<rparr>"

text \<open>
  \<^verbatim>\<open>readTimerfd\<close> consumes the expiration of the one-shot alarm, which leaves the descriptor disarmed;
  a short read is only logged.
\<close>

definition readTimerfd :: "timer_queue \<Rightarrow> timer_queue" where
  "readTimerfd q = q\<lparr>tqAlarm := None\<rparr>"

declare readTimerfd_def [simp]

definition tq_handleRead :: "(rat \<Rightarrow> rat) \<Rightarrow> bool \<Rightarrow> timestamp \<Rightarrow> timestamp \<Rightarrow> (nat \<Rightarrow> timer_action list)
    \<Rightarrow> timer_queue \<Rightarrow> (nat list \<times> timer_queue) result" where
  "tq_handleRead fl inLoop now clock acts q =
     (if \<not> inLoop then Inl Aborted
      else bindR (getExpired now (readTimerfd q))
             (\<lambda>(expired, q1). bindR (run_expired acts expired q1)
                (\<lambda>(fired, q2). bindR (reset_timers fl clock now expired q2)
                   (\<lambda>q3. Inr (fired, release expired q3)))))"

section \<open>Invariant\<close>

definition tq_inv :: "timer_queue \<Rightarrow> bool" where
  "tq_inv q \<longleftrightarrow> sorted (tqTimers q) \<and> distinct (tqTimers q)
     \<and> (\<forall>t a. (t, a) \<in> set (tqTimers q) \<longrightarrow> (\<exists>tm. tqHeap q a = Some tm \<and> tmExpiration tm = t))"

lemma tq_inv_new: "tq_inv newTimerQueue"
  by (simp add: tq_inv_def newTimerQueue_def)

lemma tq_invD:
  assumes "tq_inv q" and "(t, a) \<in> set (tqTimers q)"
  obtains tm where "tqHeap q a = Some tm" "tmExpiration tm = t"
  using assms by (auto simp: tq_inv_def)

lemma tq_inv_alarm [simp]: "tq_inv (q\<lparr>tqAlarm := x\<rparr>) = tq_inv q"
  by (simp add: tq_inv_def)

lemma tq_addr_inj:
  assumes "tq_inv q" and "(t, a) \<in> set (tqTimers q)" and "(t', a) \<in> set (tqTimers q)"
  shows "t = t'"
  using assms by (metis option.inject tq_invD)

lemma tq_distinct_addr: "tq_inv q \<Longrightarrow> distinct (map snd (tqTimers q))"
  using tq_addr_inj [of q]
  by (auto simp: distinct_map inj_on_def) (simp add: tq_inv_def)

section \<open>Expired timers\<close>

lemma before_sentry: "((t, a) < (now + 1, 0 :: nat)) = (t \<le> (now :: int))"
  by (auto simp: less_prod_def)

lemma takeWhile_sorted:
  assumes "sorted xs" and "\<And>x y. x \<le> y \<Longrightarrow> P y \<Longrightarrow> P x"
  shows "takeWhile P xs = filter P xs" and "dropWhile P xs = filter (\<lambda>x. \<not> P x) xs"
  using assms(1)
proof (induction xs)
  case (Cons x xs)
  { case 1
    have "\<not> P x \<Longrightarrow> filter P xs = []" using 1 assms(2) by (auto simp: filter_empty_conv)
    then show ?case using Cons 1 by auto
  next
    case 2
    have "\<not> P x \<Longrightarrow> filter (\<lambda>x. \<not> P x) xs = xs" using 2 assms(2) by (auto simp: filter_id_conv)
    then show ?case using Cons 2 by auto }
qed simp_all

lemma getExpired_eq:
  assumes "tq_inv q"
  shows "getExpired now q =
    Inr (filter (\<lambda>e. fst e \<le> now) (tqTimers q),
         q\<lparr>tqTimers := filter (\<lambda>e. now < fst e) (tqTimers q)\<rparr>)"
proof -
  let ?P = "\<lambda>e :: timer_entry. e < (now + 1, 0)"
  have P: "?P = (\<lambda>e. fst e \<le> now)" "(\<lambda>e. \<not> ?P e) = (\<lambda>e. now < fst e)"
    using before_sentry by (auto simp: fun_eq_iff not_le)
  have s: "sorted (tqTimers q)" using assms by (simp add: tq_inv_def)
  have eqs: "takeWhile ?P (tqTimers q) = filter ?P (tqTimers q)"
    "dropWhile ?P (tqTimers q) = filter (\<lambda>e. \<not> ?P e) (tqTimers q)"
    using takeWhile_sorted [OF s, of ?P] by (auto intro: le_less_trans)
  have "case filter (\<lambda>e. now < fst e) (tqTimers q) of [] \<Rightarrow> True | it # _ \<Rightarrow> now < fst it"
    by (auto split: list.split dest: filter_eq_ConsD)
  with eqs(1) eqs(2) [unfolded P(2)] show ?thesis
    unfolding getExpired_def Let_def by (simp add: P(1))
qed

section \<open>Adding and cancelling\<close>

lemma insert_timer_ok:
  assumes "tq_inv q" and "tqHeap q a = Some tm" and "a \<notin> snd ` set (tqTimers q)"
  shows "insert_timer a q =
      Inr (earliest (tmExpiration tm) (tqTimers q),
           q\<lparr>tqTimers := insort (tmExpiration tm, a) (tqTimers q)\<rparr>)"
    and "tq_inv (q\<lparr>tqTimers := insort (tmExpiration tm, a) (tqTimers q)\<rparr>)"
proof -
  have new: "(tmExpiration tm, a) \<notin> set (tqTimers q)" using assms(3) by force
  then show "insert_timer a q = Inr (earliest (tmExpiration tm) (tqTimers q),
      q\<lparr>tqTimers := insort (tmExpiration tm, a) (tqTimers q)\<rparr>)"
    using assms(2) by (simp add: insert_timer_def Let_def)
  show "tq_inv (q\<lparr>tqTimers := insort (tmExpiration tm, a) (tqTimers q)\<rparr>)"
    using assms(1,2) new by (auto simp: tq_inv_def sorted_insort distinct_insort set_insort_key)
qed

text \<open>Objects kept alive by someone else than the set, as the vector of expired timers does.\<close>

definition held :: "nat set \<Rightarrow> timer_queue \<Rightarrow> bool" where
  "held H q \<longleftrightarrow> (\<forall>a \<in> H. tqHeap q a \<noteq> None \<and> a \<notin> snd ` set (tqTimers q))"

fun fresh_act :: "timer_action \<Rightarrow> timer_queue \<Rightarrow> bool" where
  "fresh_act (ActAdd a tm clock) q = (tqHeap q a = None)"
| "fresh_act (ActCancel a) q = True"

lemma tq_inv_makeTimer:
  assumes "tq_inv q" and "tqHeap q a = None"
  shows "tq_inv (makeTimer a tm q)" and "a \<notin> snd ` set (tqTimers (makeTimer a tm q))"
proof -
  have "a \<notin> snd ` set (tqTimers q)" using assms by (fastforce simp: tq_inv_def)
  then show "tq_inv (makeTimer a tm q)" "a \<notin> snd ` set (tqTimers (makeTimer a tm q))"
    using assms by (fastforce simp: tq_inv_def makeTimer_def)+
qed

lemma addTimer_new:
  assumes "tq_inv q" and "tqHeap q a = None"
  obtains q' where "timer_act (ActAdd a tm clock) q = Inr q'" "tq_inv q'"
    "tqTimers q' = insort (tmExpiration tm, a) (tqTimers q)" "tqHeap q' = (tqHeap q)(a \<mapsto> tm)"
    "tqAlarm q' = (if earliest (tmExpiration tm) (tqTimers q)
       then Some (resetTimerfd clock (tmExpiration tm)) else tqAlarm q)"
proof -
  let ?q0 = "makeTimer a tm q"
  have heap: "tqHeap ?q0 a = Some tm" by (simp add: makeTimer_def)
  note ins = insert_timer_ok [OF tq_inv_makeTimer(1) [OF assms] heap tq_inv_makeTimer(2) [OF assms]]
  let ?q1 = "?q0\<lparr>tqTimers := insort (tmExpiration tm, a) (tqTimers ?q0)\<rparr>"
  let ?q' = "if earliest (tmExpiration tm) (tqTimers ?q0)
             then ?q1\<lparr>tqAlarm := Some (resetTimerfd clock (tmExpiration tm))\<rparr> else ?q1"
  have "timer_act (ActAdd a tm clock) q = Inr ?q'"
    using heap ins(1) by (simp add: addTimer_def Let_def)
  with ins(2) show thesis by (intro that [of ?q']) (simp_all add: makeTimer_def)
qed

lemma cancelTimer_eq:
  "timer_act (ActCancel a) q = Inr
     (case tqHeap q a of
        None \<Rightarrow> q
      | Some tm \<Rightarrow>
          if (tmExpiration tm, a) \<in> set (tqTimers q)
          then q\<lparr>tqTimers := remove1 (tmExpiration tm, a) (tqTimers q), tqHeap := (tqHeap q)(a := None)\<rparr>
          else q\<lparr>tqHeap := (tqHeap q)(a \<mapsto> setUnrepeat tm)\<rparr>)"
  by (simp add: cancelTimer_def Let_def split: option.splits)

lemma tq_addr_mem:
  assumes "tq_inv q" and "tqHeap q a = Some tm"
  shows "(tmExpiration tm, a) \<in> set (tqTimers q) \<longleftrightarrow> a \<in> snd ` set (tqTimers q)"
  using assms by (force elim: tq_invD)

lemma tq_inv_cancel:
  assumes "tq_inv q" and "timer_act (ActCancel a) q = Inr q'"
  shows "tq_inv q'"
proof (cases "tqHeap q a")
  case None
  with assms show ?thesis by (simp add: cancelTimer_eq del: timer_act.simps)
next
  case (Some tm)
  show ?thesis
  proof (cases "(tmExpiration tm, a) \<in> set (tqTimers q)")
    case True
    with Some assms(2) have q': "q' = q\<lparr>tqTimers := remove1 (tmExpiration tm, a) (tqTimers q),
        tqHeap := (tqHeap q)(a := None)\<rparr>" by (simp add: cancelTimer_eq del: timer_act.simps)
    have "b \<noteq> a" if "(t, b) \<in> set (remove1 (tmExpiration tm, a) (tqTimers q))" for t b
      using that True assms(1) tq_addr_inj [OF assms(1)] by (auto simp: tq_inv_def)
    with assms(1) show ?thesis
      unfolding q' tq_inv_def by (auto simp: sorted_remove1 dest: notin_set_remove1 set_remove1_subset [THEN subsetD])
  next
    case False
    with Some assms(2) have q': "q' = q\<lparr>tqHeap := (tqHeap q)(a \<mapsto> setUnrepeat tm)\<rparr>"
      by (simp add: cancelTimer_eq del: timer_act.simps)
    from False tq_addr_mem [OF assms(1) Some] have "a \<notin> snd ` set (tqTimers q)" by simp
    with assms(1) show ?thesis unfolding q' tq_inv_def by force
  qed
qed

section \<open>What callbacks may do\<close>

text \<open>
  Allocation returns addresses of no live object; the conditions follow the state along the
  calls a callback, and then a batch of callbacks, makes.
\<close>

fun acts_fresh :: "timer_action list \<Rightarrow> timer_queue \<Rightarrow> bool" where
  "acts_fresh [] q = True"
| "acts_fresh (x # xs) q =
     (fresh_act x q \<and> (case timer_act x q of Inl _ \<Rightarrow> True | Inr q1 \<Rightarrow> acts_fresh xs q1))"

fun run_fresh :: "(nat \<Rightarrow> timer_action list) \<Rightarrow> timer_entry list \<Rightarrow> timer_queue \<Rightarrow> bool" where
  "run_fresh acts [] q = True"
| "run_fresh acts ((t, a) # es) q =
     (acts_fresh (acts a) q
      \<and> (case timer_acts (acts a) q of Inl _ \<Rightarrow> True | Inr q1 \<Rightarrow> run_fresh acts es q1))"

lemma timer_act_ok:
  assumes "tq_inv q" and "fresh_act x q" and "held H q"
  obtains q' where "timer_act x q = Inr q'" "tq_inv q'" "held H q'"
proof (cases x)
  case (ActAdd a tm clock)
  then have fresh: "tqHeap q a = None" using assms(2) by simp
  then have out: "a \<notin> H" using assms(3) by (auto simp: held_def)
  obtain q' where "timer_act x q = Inr q'" "tq_inv q'"
    "tqTimers q' = insort (tmExpiration tm, a) (tqTimers q)" "tqHeap q' = (tqHeap q)(a \<mapsto> tm)"
    using addTimer_new [OF assms(1) fresh] ActAdd by blast
  moreover from this out have "held H q'" using assms(3) by (fastforce simp: held_def set_insort_key)
  ultimately show thesis using that by blast
next
  case (ActCancel a)
  obtain q' where q': "timer_act (ActCancel a) q = Inr q'" by (simp add: cancelTimer_eq del: timer_act.simps)
  moreover have "held H q'"
  proof -
    have "set (tqTimers q') \<subseteq> set (tqTimers q)"
      using q'
      by (auto simp: cancelTimer_eq simp del: timer_act.simps split: option.splits if_splits
          dest: set_remove1_subset [THEN subsetD])
    moreover have "tqHeap q' b \<noteq> None" if "b \<in> H" for b
      using that q' assms(3)
      by (force simp: cancelTimer_eq held_def simp del: timer_act.simps split: option.splits if_splits)
    ultimately show ?thesis using assms(3) unfolding held_def by blast
  qed
  ultimately show thesis using ActCancel that tq_inv_cancel [OF assms(1)] by blast
qed

lemma timer_acts_ok:
  assumes "tq_inv q" and "acts_fresh xs q" and "held H q"
  shows "\<exists>q'. timer_acts xs q = Inr q' \<and> tq_inv q' \<and> held H q'"
  using assms
proof (induction xs arbitrary: q)
  case (Cons x xs)
  then obtain q1 where "timer_act x q = Inr q1" "tq_inv q1" "held H q1"
    using timer_act_ok [of q x H] by auto
  with Cons show ?case by simp
qed simp

lemma run_expired_ok:
  assumes "tq_inv q" and "run_fresh acts es q" and "held (snd ` set es \<union> H) q"
  shows "\<exists>q'. run_expired acts es q = Inr (map snd es, q') \<and> tq_inv q' \<and> held (snd ` set es \<union> H) q'"
  using assms
proof (induction es arbitrary: q H)
  case (Cons e es)
  obtain t a where e: "e = (t, a)" by (cases e)
  then obtain tm where tm: "tqHeap q a = Some tm" using Cons.prems(3) by (auto simp: held_def)
  from timer_acts_ok [OF Cons.prems(1) _ Cons.prems(3), of "acts a"] Cons.prems(2) e
  obtain q1 where q1: "timer_acts (acts a) q = Inr q1" "tq_inv q1" "held (snd ` set (e # es) \<union> H) q1" by auto
  then have "held (snd ` set es \<union> insert a H) q1" using e by (simp add: held_def)
  with Cons.IH [OF q1(2), of "insert a H"] Cons.prems(2) e q1(1)
  obtain q' where "run_expired acts es q1 = Inr (map snd es, q')" "tq_inv q'" "held (snd ` set es \<union> insert a H) q'"
    by auto
  with e tm q1(1) show ?case by (simp add: held_def)
qed simp

lemma reset_loop_ok:
  assumes "tq_inv q" and "held (snd ` set es) q" and "distinct (map snd es)"
  shows "\<exists>q'. reset_loop fl now es q = Inr q' \<and> tq_inv q' \<and> tqAlarm q' = tqAlarm q"
  using assms
proof (induction es arbitrary: q)
  case (Cons e es)
  obtain t a where e: "e = (t, a)" by (cases e)
  then obtain tm where tm: "tqHeap q a = Some tm" and out: "a \<notin> snd ` set (tqTimers q)"
    using Cons.prems(2) by (auto simp: held_def)
  show ?case
  proof (cases "repeat_timer tm")
    case False
    with Cons e tm show ?thesis by (simp add: held_def)
  next
    case True
    let ?q0 = "q\<lparr>tqHeap := (tqHeap q)(a \<mapsto> restart fl now tm)\<rparr>"
    have "tq_inv ?q0" using Cons.prems(1) out by (force simp: tq_inv_def)
    note ins = insert_timer_ok [OF this, of a "restart fl now tm"]
    let ?q1 = "?q0\<lparr>tqTimers := insort (tmExpiration (restart fl now tm), a) (tqTimers q)\<rparr>"
    have "tq_inv ?q1" "insert_timer a ?q0 = Inr (earliest (tmExpiration (restart fl now tm)) (tqTimers q), ?q1)"
      using ins out by simp_all
    moreover have "held (snd ` set es) ?q1"
      using Cons.prems(2,3) e by (auto simp: held_def set_insort_key)
    ultimately show ?thesis using Cons.IH [of ?q1] Cons.prems(3) e tm True by simp
  qed
qed simp

section \<open>Handling an alarm\<close>

text \<open>The state in which the callbacks start, and the timers they belong to.\<close>

definition expired_at :: "timestamp \<Rightarrow> timer_queue \<Rightarrow> timer_entry list" where
  "expired_at now q = filter (\<lambda>e. fst e \<le> now) (tqTimers q)"

definition after_expiry :: "timestamp \<Rightarrow> timer_queue \<Rightarrow> timer_queue" where
  "after_expiry now q = q\<lparr>tqTimers := filter (\<lambda>e. now < fst e) (tqTimers q), tqAlarm := None\<rparr>"

lemma getExpired_after: "tq_inv q \<Longrightarrow>
    getExpired now (q\<lparr>tqAlarm := None\<rparr>) = Inr (expired_at now q, after_expiry now q)"
  using getExpired_eq [of "q\<lparr>tqAlarm := None\<rparr>"]
  by (simp add: expired_at_def after_expiry_def)

lemma after_expiry_ok:
  assumes "tq_inv q"
  shows "tq_inv (after_expiry now q)" and "held (snd ` set (expired_at now q)) (after_expiry now q)"
    and "distinct (map snd (expired_at now q))"
proof -
  show "tq_inv (after_expiry now q)"
    using assms by (auto simp: tq_inv_def after_expiry_def sorted_filter [where f = "\<lambda>x. x", simplified])
  show "distinct (map snd (expired_at now q))"
    using tq_distinct_addr [OF assms] by (simp add: expired_at_def distinct_map_filter)
  show "held (snd ` set (expired_at now q)) (after_expiry now q)"
    unfolding held_def
  proof (intro ballI conjI)
    fix a assume "a \<in> snd ` set (expired_at now q)"
    then obtain t where t: "(t, a) \<in> set (tqTimers q)" "t \<le> now" by (auto simp: expired_at_def)
    then show "tqHeap (after_expiry now q) a \<noteq> None"
      using assms by (auto simp: after_expiry_def elim: tq_invD)
    show "a \<notin> snd ` set (tqTimers (after_expiry now q))"
      using t tq_addr_inj [OF assms] by (fastforce simp: after_expiry_def)
  qed
qed

lemma tq_inv_release: "tq_inv q \<Longrightarrow> tq_inv (release es q)"
  by (force simp: tq_inv_def release_def)

lemma reset_timers_ok:
  assumes "tq_inv q" and "held (snd ` set es) q" and "distinct (map snd es)"
  obtains q1 q' where "reset_loop fl now es q = Inr q1" "tq_inv q1" "tqAlarm q1 = tqAlarm q"
    "reset_timers fl clock now es q = Inr q'"
    "q' = (if tqTimers q1 \<noteq> [] \<and> 0 < fst (hd (tqTimers q1))
           then q1\<lparr>tqAlarm := Some (resetTimerfd clock (fst (hd (tqTimers q1))))\<rparr> else q1)"
proof -
  obtain q1 where q1: "reset_loop fl now es q = Inr q1" "tq_inv q1" "tqAlarm q1 = tqAlarm q"
    using reset_loop_ok [OF assms] by blast
  show thesis
  proof (cases "tqTimers q1")
    case Nil
    with q1 that show thesis by (simp add: reset_timers_def)
  next
    case (Cons e es')
    obtain t a where e: "e = (t, a)" by (cases e)
    then obtain tm where "tqHeap q1 a = Some tm" "tmExpiration tm = t"
      using Cons q1(2) by (metis list.set_intros(1) tq_invD)
    with q1 Cons e that show thesis by (simp add: reset_timers_def)
  qed
qed

lemma tq_handleRead_ok:
  assumes "tq_inv q" and "run_fresh acts (expired_at now q) (after_expiry now q)"
  obtains q2 q1 q' where "run_expired acts (expired_at now q) (after_expiry now q)
      = Inr (map snd (expired_at now q), q2)"
    "tq_inv q2" "held (snd ` set (expired_at now q)) q2"
    "reset_loop fl now (expired_at now q) q2 = Inr q1" "tq_inv q1" "tqAlarm q1 = tqAlarm q2"
    "tq_handleRead fl True now clock acts q = Inr (map snd (expired_at now q), q')" "tq_inv q'"
    "tqTimers q' = tqTimers q1"
    "tqAlarm q' = (if tqTimers q1 \<noteq> [] \<and> 0 < fst (hd (tqTimers q1))
       then Some (resetTimerfd clock (fst (hd (tqTimers q1)))) else tqAlarm q1)"
proof -
  let ?es = "expired_at now q"
  note start = after_expiry_ok [OF assms(1), of now]
  obtain q2 where q2: "run_expired acts ?es (after_expiry now q) = Inr (map snd ?es, q2)"
    "tq_inv q2" "held (snd ` set ?es) q2"
    using run_expired_ok [OF start(1) assms(2), of "{}"] start(2) by auto
  obtain q1 q3 where q1: "reset_loop fl now ?es q2 = Inr q1" "tq_inv q1" "tqAlarm q1 = tqAlarm q2"
    and q3: "reset_timers fl clock now ?es q2 = Inr q3"
    "q3 = (if tqTimers q1 \<noteq> [] \<and> 0 < fst (hd (tqTimers q1))
           then q1\<lparr>tqAlarm := Some (resetTimerfd clock (fst (hd (tqTimers q1))))\<rparr> else q1)"
    by (rule reset_timers_ok [OF q2(2,3) start(3)])
  have eq: "tq_handleRead fl True now clock acts q = Inr (map snd ?es, release ?es q3)"
    using q2(1) q3(1) by (simp add: tq_handleRead_def getExpired_after [OF assms(1)])
  have "tq_inv q3" using q1(2) q3(2) by simp
  with q1 q2 q3(2) eq show thesis
    by (intro that [of q2 q1 "release ?es q3"] tq_inv_release) (simp_all add: release_def)
qed

section \<open>Times in range\<close>

text \<open>
  Expirations within \<open>2 ^ 62\<close> microseconds (146000 years) of the epoch, intervals of at most \<open>2 ^ 61\<close>
  microseconds, and clock readings before \<open>2 ^ 61\<close>: nothing wraps around.
\<close>

definition timer_ok :: "timer \<Rightarrow> bool" where
  "timer_ok tm \<longleftrightarrow> - (2 ^ 62) \<le> tmExpiration tm \<and> tmExpiration tm \<le> 2 ^ 62 \<and> tmInterval tm * 1000000 \<le> 2 ^ 61"

definition clock_ok :: "timestamp \<Rightarrow> bool" where
  "clock_ok t \<longleftrightarrow> 0 \<le> t \<and> t < 2 ^ 61"

fun act_ok :: "timer_action \<Rightarrow> bool" where
  "act_ok (ActAdd a tm clock) \<longleftrightarrow> timer_ok tm \<and> clock_ok clock"
| "act_ok (ActCancel a) \<longleftrightarrow> True"

definition heap_ok :: "timer_queue \<Rightarrow> bool" where
  "heap_ok q \<longleftrightarrow> (\<forall>a tm. tqHeap q a = Some tm \<longrightarrow> timer_ok tm)"

lemma int64_id: "- (2 ^ 63) \<le> i \<Longrightarrow> i < 2 ^ 63 \<Longrightarrow> int64 i = i"
  by (simp add: int64_def)

text \<open>
  The properties of IEEE rounding the code relies on: it is monotone, and exact at 0, 1 and the
  powers of two at the ends of the ranges above.
\<close>

definition rounding :: "(rat \<Rightarrow> rat) \<Rightarrow> bool" where
  "rounding fl \<longleftrightarrow> mono fl \<and> fl 0 = 0 \<and> fl 1 = 1 \<and> fl (2 ^ 61) = 2 ^ 61 \<and> fl (2 ^ 62) = 2 ^ 62"

lemma restart_range:
  assumes "rounding fl" and "1 \<le> now" and "clock_ok now" and "repeat_timer tm" and "timer_ok tm"
  shows "1 \<le> tmExpiration (restart fl now tm)" "tmExpiration (restart fl now tm) \<le> 2 ^ 62"
proof -
  have m: "mono fl" "fl 0 = 0" "fl 1 = 1" "fl (2 ^ 61) = 2 ^ 61" "fl (2 ^ 62) = 2 ^ 62"
    using assms(1) unfolding rounding_def by blast+
  let ?x = "fl (fl (of_int now) + fl (tmInterval tm * 1000000))"
  have "fl 1 \<le> fl (of_int now)" using assms(2) by (intro monoD [OF m(1)]) simp
  then have lo1: "1 \<le> fl (of_int now)" by (simp only: m(3))
  have "fl 0 \<le> fl (tmInterval tm * 1000000)"
    using assms(4) by (intro monoD [OF m(1)]) (simp add: repeat_timer_def)
  then have lo2: "0 \<le> fl (tmInterval tm * 1000000)" by (simp only: m(2))
  have "(of_int now :: rat) \<le> 2 ^ 61" using assms(3) by (simp add: clock_ok_def)
  from monoD [OF m(1) this] have hi1: "fl (of_int now) \<le> 2 ^ 61" by (simp only: m(4))
  have "tmInterval tm * 1000000 \<le> 2 ^ 61" using assms(5) by (simp add: timer_ok_def)
  from monoD [OF m(1) this] have hi2: "fl (tmInterval tm * 1000000) \<le> 2 ^ 61" by (simp only: m(4))
  have "fl 1 \<le> ?x" using lo1 lo2 by (intro monoD [OF m(1)]) linarith
  then have lo: "1 \<le> ?x" by (simp only: m(3))
  have "?x \<le> fl (2 ^ 62)" using add_mono [OF hi1 hi2] by (intro monoD [OF m(1)]) simp
  then have hi: "?x \<le> 2 ^ 62" by (simp only: m(5))
  have "\<lfloor>?x\<rfloor> \<le> \<lfloor>2 ^ 62 :: rat\<rfloor>" using hi by (rule floor_mono)
  then have "1 \<le> \<lfloor>?x\<rfloor> \<and> \<lfloor>?x\<rfloor> \<le> 2 ^ 62" using lo by (simp add: le_floor_iff)
  then show "1 \<le> tmExpiration (restart fl now tm)" "tmExpiration (restart fl now tm) \<le> 2 ^ 62"
    using assms(4) lo by (simp_all add: restart_def trunc_double_def Let_def)
qed

lemma restart_ok:
  assumes "rounding fl" and "1 \<le> now" and "clock_ok now" and "repeat_timer tm" and "timer_ok tm"
  shows "timer_ok (restart fl now tm)"
  using restart_range [OF assms] assms(5) by (simp add: timer_ok_def restart_def)

lemma heap_ok_act: "heap_ok q \<Longrightarrow> act_ok x \<Longrightarrow> timer_act x q = Inr q' \<Longrightarrow> heap_ok q'"
proof (cases x)
  case (ActCancel a)
  assume "heap_ok q" "timer_act x q = Inr q'"
  moreover have "timer_ok tm \<Longrightarrow> timer_ok (setUnrepeat tm)" for tm by (simp add: timer_ok_def setUnrepeat_def)
  ultimately show "heap_ok q'" unfolding ActCancel cancelTimer_eq
    by (auto simp: heap_ok_def split: option.splits if_splits)
qed (auto simp: heap_ok_def addTimer_def makeTimer_def insert_timer_def Let_def result_simps split: if_splits)

lemma heap_ok_acts: "heap_ok q \<Longrightarrow> list_all act_ok xs \<Longrightarrow> timer_acts xs q = Inr q' \<Longrightarrow> heap_ok q'"
  by (induction xs arbitrary: q) (auto simp: result_simps simp del: timer_act.simps dest: heap_ok_act)

lemma heap_ok_run:
  "heap_ok q \<Longrightarrow> (\<And>a. list_all act_ok (acts a)) \<Longrightarrow> run_expired acts es q = Inr (fired, q') \<Longrightarrow> heap_ok q'"
proof (induction es arbitrary: q fired)
  case (Cons e es)
  obtain t a where e: "e = (t, a)" by (cases e)
  with Cons.prems(3) obtain q1 fired1 where q1: "timer_acts (acts a) q = Inr q1" "run_expired acts es q1 = Inr (fired1, q')"
    by (auto simp: result_simps split: option.splits)
  have "heap_ok q1" by (rule heap_ok_acts [OF Cons.prems(1,2) q1(1)])
  then show ?case using Cons.IH Cons.prems(2) q1(2) by blast
qed simp

lemma heap_ok_reset:
  assumes "rounding fl" and "1 \<le> now" and "clock_ok now"
  shows "heap_ok q \<Longrightarrow> reset_loop fl now es q = Inr q' \<Longrightarrow> heap_ok q'"
proof (induction es arbitrary: q)
  case (Cons e es)
  obtain t a where e: "e = (t, a)" by (cases e)
  with Cons.prems(2) obtain tm where tm: "tqHeap q a = Some tm" by (auto split: option.splits)
  then have ok: "timer_ok tm" using Cons.prems(1) by (simp add: heap_ok_def)
  show ?case
  proof (cases "repeat_timer tm")
    case True
    then obtain b q1 where q1: "insert_timer a (q\<lparr>tqHeap := (tqHeap q)(a \<mapsto> restart fl now tm)\<rparr>) = Inr (b, q1)"
      "reset_loop fl now es q1 = Inr q'" using Cons.prems(2) e tm by (auto simp: result_simps)
    then have "tqHeap q1 = (tqHeap q)(a \<mapsto> restart fl now tm)" by (auto simp: insert_timer_def Let_def result_simps)
    then have "heap_ok q1" using Cons.prems(1) restart_ok [OF assms True ok] by (simp add: heap_ok_def)
    then show ?thesis using Cons.IH q1(2) by blast
  qed (use Cons e tm in simp)
qed simp

text \<open>Entries of a queue whose timers are in range are not too far from a clock reading.\<close>

lemma entry_near:
  assumes "tq_inv q" and "heap_ok q" and "(t, a) \<in> set (tqTimers q)" and "clock_ok clock"
  shows "int64 (t - clock) = t - clock"
proof -
  obtain tm where "tqHeap q a = Some tm" "tmExpiration tm = t" using assms(1,3) by (rule tq_invD)
  then have "- (2 ^ 62) \<le> t" "t \<le> 2 ^ 62" using assms(2) by (auto simp: heap_ok_def timer_ok_def)
  then show ?thesis using assms(4) by (intro int64_id) (simp_all add: clock_ok_def)
qed

section \<open>The alarm is always set for the earliest timer\<close>

text \<open>The moment the descriptor becomes readable, in microseconds of the setter's clock.\<close>

definition deadline :: "alarm \<Rightarrow> timestamp" where
  "deadline al = setAt al + tv_sec (alarmValue al) * 1000000 + tv_nsec (alarmValue al) div 1000"

definition armed_for :: "timestamp \<Rightarrow> timer_queue \<Rightarrow> bool" where
  "armed_for t q \<longleftrightarrow> (\<exists>al. tqAlarm q = Some al \<and> deadline al \<le> max t (setAt al + 100))"

definition tq_armed :: "timer_queue \<Rightarrow> bool" where
  "tq_armed q \<longleftrightarrow> (tqTimers q \<noteq> [] \<longrightarrow> armed_for (fst (hd (tqTimers q))) q)"

text \<open>The same, asked only of an earliest timer with an expiration at or before the epoch.\<close>

definition tq_armed_neg :: "timer_queue \<Rightarrow> bool" where
  "tq_armed_neg q \<longleftrightarrow> (tqTimers q \<noteq> [] \<and> fst (hd (tqTimers q)) \<le> 0 \<longrightarrow> armed_for (fst (hd (tqTimers q))) q)"

lemma resetTimerfd_setAt [simp]: "setAt (resetTimerfd now expiration) = now"
  by (simp add: resetTimerfd_def Let_def)

lemma resetTimerfd_deadline:
  "int64 (expiration - now) = expiration - now \<Longrightarrow> deadline (resetTimerfd now expiration) = max expiration (now + 100)"
  by (auto simp: deadline_def resetTimerfd_def Let_def max_def)

lemma armed_for_mono: "armed_for t q \<Longrightarrow> t \<le> t' \<Longrightarrow> armed_for t' q"
  by (fastforce simp: armed_for_def)

lemma armed_for_reset: "tqAlarm q = Some (resetTimerfd now t) \<Longrightarrow> int64 (t - now) = t - now \<Longrightarrow> armed_for t q"
  by (simp add: armed_for_def resetTimerfd_deadline)

lemma hd_insort:
  "hd (insort e es) = (if es = [] then e else if e \<le> hd es then e else hd es)"
  by (cases es) auto

text \<open>
  One action of a callback on the earliest timer: either the alarm is set for the new earliest
  one, or the earliest one has not moved forward and the alarm is as before.
\<close>

lemma timer_act_earliest:
  assumes "tq_inv q" and "fresh_act x q" and "timer_act x q = Inr q'" and "act_ok x" and "tqTimers q' \<noteq> []"
  shows "armed_for (fst (hd (tqTimers q'))) q'
    \<or> tqTimers q \<noteq> [] \<and> fst (hd (tqTimers q)) \<le> fst (hd (tqTimers q')) \<and> tqAlarm q' = tqAlarm q"
proof (cases x)
  case (ActAdd a tm clock)
  then have fresh: "tqHeap q a = None" using assms(2) by simp
  have q': "tqTimers q' = insort (tmExpiration tm, a) (tqTimers q)"
    "tqAlarm q' = (if earliest (tmExpiration tm) (tqTimers q)
       then Some (resetTimerfd clock (tmExpiration tm)) else tqAlarm q)"
    using addTimer_new [OF assms(1) fresh, of tm clock] assms(3) ActAdd by (metis Inr_inject)+
  show ?thesis
  proof (cases "earliest (tmExpiration tm) (tqTimers q)")
    case True
    then have "fst (hd (tqTimers q')) = tmExpiration tm"
      by (cases "tqTimers q") (auto simp: q'(1) earliest_def less_prod_def less_eq_prod_def)
    moreover have "int64 (tmExpiration tm - clock) = tmExpiration tm - clock"
      using assms(4) ActAdd by (intro int64_id) (simp_all add: timer_ok_def clock_ok_def)
    ultimately show ?thesis using True q'(2) by (simp add: armed_for_reset)
  next
    case False
    then have "tqTimers q \<noteq> []" "fst (hd (tqTimers q)) \<le> fst (hd (tqTimers q'))"
      by (cases "tqTimers q"; auto simp: q'(1) earliest_def)+
    with False q'(2) show ?thesis by simp
  qed
next
  case (ActCancel a)
  have "sorted (tqTimers q)" using assms(1) by (simp add: tq_inv_def)
  have q': "tqAlarm q' = tqAlarm q" "set (tqTimers q') \<subseteq> set (tqTimers q)"
    using assms(3) ActCancel
    by (auto simp: cancelTimer_eq simp del: timer_act.simps split: option.splits if_splits
        dest: set_remove1_subset [THEN subsetD])
  have "hd (tqTimers q') \<in> set (tqTimers q)" using q'(2) assms(5) by (meson hd_in_set subsetD)
  then have "hd (tqTimers q) \<le> hd (tqTimers q')"
    using \<open>sorted (tqTimers q)\<close> by (cases "tqTimers q") auto
  then have "fst (hd (tqTimers q)) \<le> fst (hd (tqTimers q'))" by (auto simp: less_eq_prod_def)
  with q'(1) \<open>hd (tqTimers q') \<in> set (tqTimers q)\<close> show ?thesis by (cases "tqTimers q") auto
qed

lemma timer_act_armed:
  assumes "tq_inv q" and "fresh_act x q" and "timer_act x q = Inr q'" and "act_ok x"
  shows "tq_armed q \<Longrightarrow> tq_armed q'" and "tq_armed_neg q \<Longrightarrow> tq_armed_neg q'"
  using timer_act_earliest [OF assms]
  by (auto simp: tq_armed_def tq_armed_neg_def armed_for_def split: if_splits)

lemma timer_acts_armed_neg:
  assumes "tq_inv q" and "acts_fresh xs q" and "tq_armed_neg q" and "timer_acts xs q = Inr q'" and "list_all act_ok xs"
  shows "tq_armed_neg q'"
  using assms
proof (induction xs arbitrary: q)
  case (Cons x xs)
  have "held {} q" by (simp add: held_def)
  with Cons.prems(1,2) obtain q1 where q1: "timer_act x q = Inr q1" "tq_inv q1"
    using timer_act_ok [of q x "{}"] by auto
  have x: "fresh_act x q" "act_ok x" using Cons.prems(2,5) by simp_all
  have "tq_armed_neg q1" by (rule timer_act_armed(2) [OF Cons.prems(1) x(1) q1(1) x(2) Cons.prems(3)])
  moreover have "acts_fresh xs q1" "timer_acts xs q1 = Inr q'" "list_all act_ok xs" using Cons.prems(2,4,5) q1(1) by simp_all
  ultimately show ?case using Cons.IH q1(2) by blast
qed simp

lemma run_expired_armed_neg:
  assumes "tq_inv q" and "run_fresh acts es q" and "tq_armed_neg q" and "run_expired acts es q = Inr (fired, q')"
    and "\<And>a. list_all act_ok (acts a)"
  shows "tq_armed_neg q'"
  using assms
proof (induction es arbitrary: q fired)
  case (Cons e es)
  obtain t a where e: "e = (t, a)" by (cases e)
  have "held {} q" by (simp add: held_def)
  with Cons.prems(1,2) e obtain q1 where q1: "timer_acts (acts a) q = Inr q1" "tq_inv q1"
    using timer_acts_ok [of q "acts a" "{}"] by auto
  with Cons.prems e timer_acts_armed_neg have "tq_armed_neg q1" by auto
  moreover from q1 Cons.prems(2,4) e obtain fired' where "run_fresh acts es q1" "run_expired acts es q1 = Inr (fired', q')"
    by (auto simp: result_simps split: option.splits)
  ultimately show ?case using Cons.IH q1(2) assms(5) by blast
qed simp

lemma reset_loop_mem:
  assumes "rounding fl" and "1 \<le> now" and "clock_ok now" and "reset_loop fl now es q = Inr q1" and "e \<in> set (tqTimers q1)"
    and "heap_ok q"
  shows "e \<in> set (tqTimers q) \<or> 1 \<le> fst e"
  using assms(4-)
proof (induction es arbitrary: q)
  case (Cons x es)
  obtain t a where x: "x = (t, a)" by (cases x)
  with Cons.prems(1) obtain tm where tm: "tqHeap q a = Some tm" by (auto split: option.splits)
  show ?case
  proof (cases "repeat_timer tm")
    case False
    with Cons x tm show ?thesis by simp
  next
    case True
    let ?q0 = "q\<lparr>tqHeap := (tqHeap q)(a \<mapsto> restart fl now tm)\<rparr>"
    from True Cons.prems(1) x tm obtain b q0 where q0: "insert_timer a ?q0 = Inr (b, q0)" "reset_loop fl now es q0 = Inr q1"
      by (auto simp: result_simps)
    then have "set (tqTimers q0) = insert (tmExpiration (restart fl now tm), a) (set (tqTimers q))"
      by (auto simp: insert_timer_def Let_def result_simps set_insort_key)
    moreover have ok: "timer_ok tm" using Cons.prems(3) tm by (simp add: heap_ok_def)
    moreover have "heap_ok q0"
      using q0(1) Cons.prems(3) restart_ok [OF assms(1-3) True ok] by (auto simp: insert_timer_def Let_def result_simps heap_ok_def split: if_splits)
    ultimately show ?thesis using Cons.IH [OF q0(2) Cons.prems(2)] restart_range(1) [OF assms(1-3) True ok] by auto
  qed
qed simp

lemma tq_handleRead_armed:
  assumes "tq_inv q" and "run_fresh acts (expired_at now q) (after_expiry now q)"
    and "rounding fl" and "1 \<le> now" and "tq_handleRead fl True now clock acts q = Inr (fired, q')"
    and "heap_ok q" and "clock_ok now" and "clock_ok clock" and "\<And>a. list_all act_ok (acts a)"
  shows "tq_armed q'"
proof -
  note start = after_expiry_ok(1) [OF assms(1), of now]
  obtain q2 q1 q0 where q2: "run_expired acts (expired_at now q) (after_expiry now q)
      = Inr (map snd (expired_at now q), q2)" "tq_inv q2"
    and q1: "reset_loop fl now (expired_at now q) q2 = Inr q1" "tqAlarm q1 = tqAlarm q2" "tq_inv q1"
    and eq: "tq_handleRead fl True now clock acts q = Inr (map snd (expired_at now q), q0)"
    and q0: "tqTimers q0 = tqTimers q1" "tqAlarm q0 = (if tqTimers q1 \<noteq> [] \<and> 0 < fst (hd (tqTimers q1))
       then Some (resetTimerfd clock (fst (hd (tqTimers q1)))) else tqAlarm q1)"
    by (rule tq_handleRead_ok [OF assms(1,2)])
  have "q0 = q'" using eq assms(5) by simp
  note q' = q0 [unfolded this]
  have "heap_ok (after_expiry now q)" using assms(6) by (simp add: heap_ok_def after_expiry_def)
  then have h2: "heap_ok q2" using assms(9) q2(1) by (rule heap_ok_run)
  then have h1: "heap_ok q1" using q1(1) by (rule heap_ok_reset [OF assms(3,4,7)])
  show ?thesis
  proof (cases "tqTimers q1 \<noteq> [] \<and> fst (hd (tqTimers q1)) \<le> 0")
    case True
    have "tq_armed_neg (after_expiry now q)"
      using assms(4) by (auto simp: tq_armed_neg_def after_expiry_def dest!: hd_in_set)
    from run_expired_armed_neg [OF start assms(2) this q2(1) assms(9)] have neg: "tq_armed_neg q2" .
    have "hd (tqTimers q1) \<in> set (tqTimers q2)"
      using reset_loop_mem [OF assms(3,4,7) q1(1) _ h2, of "hd (tqTimers q1)"] True by simp
    then have "tqTimers q2 \<noteq> []" "fst (hd (tqTimers q2)) \<le> fst (hd (tqTimers q1))"
      using q2(2) by (cases "tqTimers q2"; auto simp: tq_inv_def less_eq_prod_def)+
    with neg True q' q1(2) show ?thesis
      by (auto simp: tq_armed_neg_def tq_armed_def armed_for_def)
  next
    case False
    have "int64 (fst (hd (tqTimers q1)) - clock) = fst (hd (tqTimers q1)) - clock" if "tqTimers q1 \<noteq> []"
      using entry_near [OF q1(3) h1 _ assms(8), of "fst (hd (tqTimers q1))" "snd (hd (tqTimers q1))"] that by simp
    with False q' show ?thesis by (auto simp: tq_armed_def intro: armed_for_reset)
  qed
qed

section \<open>What is in the queue after an alarm\<close>

definition rescheduled :: "(rat \<Rightarrow> rat) \<Rightarrow> timestamp \<Rightarrow> timer_entry list \<Rightarrow> timer_queue \<Rightarrow> timer_entry set" where
  "rescheduled fl now es q =
     {(tmExpiration (restart fl now tm), a) |t a tm.
        (t, a) \<in> set es \<and> tqHeap q a = Some tm \<and> repeat_timer tm}"

lemma reset_loop_set:
  assumes "reset_loop fl now es q = Inr q1" and "distinct (map snd es)"
  shows "set (tqTimers q1) = set (tqTimers q) \<union> rescheduled fl now es q"
  using assms
proof (induction es arbitrary: q)
  case Nil
  then show ?case by (simp add: rescheduled_def)
next
  case (Cons e es)
  obtain t a where e: "e = (t, a)" by (cases e)
  with Cons.prems(1) obtain tm where tm: "tqHeap q a = Some tm" by (auto split: option.splits)
  have a: "\<And>t. (t, a) \<notin> set es" using Cons.prems(2) e by force
  show ?case
  proof (cases "repeat_timer tm")
    case False
    then have "rescheduled fl now (e # es) q = rescheduled fl now es q"
      using tm e by (auto simp: rescheduled_def)
    with False Cons e tm show ?thesis by simp
  next
    case True
    let ?q0 = "q\<lparr>tqHeap := (tqHeap q)(a \<mapsto> restart fl now tm)\<rparr>"
    let ?new = "(tmExpiration (restart fl now tm), a)"
    from True Cons.prems(1) e tm obtain b q0 where q0: "insert_timer a ?q0 = Inr (b, q0)" "reset_loop fl now es q0 = Inr q1"
      by (auto simp: result_simps)
    then have eq: "set (tqTimers q0) = insert ?new (set (tqTimers q))"
      "tqHeap q0 = (tqHeap q)(a \<mapsto> restart fl now tm)"
      by (auto simp: insert_timer_def Let_def result_simps set_insort_key)
    have "rescheduled fl now (e # es) q = insert ?new (rescheduled fl now es q)"
      using tm e True by (auto simp: rescheduled_def)
    moreover have "tqHeap q0 b = tqHeap q b" if "(t, b) \<in> set es" for t b
      using a that eq(2) by auto
    then have "rescheduled fl now es q0 = rescheduled fl now es q"
      unfolding rescheduled_def by (intro Collect_cong ex_cong1 conj_cong) auto
    ultimately show ?thesis using Cons.IH [OF q0(2)] Cons.prems(2) eq(1) by auto
  qed
qed

section \<open>Cancelling a timer of the running batch\<close>

definition unrepeatable :: "nat \<Rightarrow> timer_queue \<Rightarrow> bool" where
  "unrepeatable a q \<longleftrightarrow> (\<exists>tm. tqHeap q a = Some tm \<and> \<not> repeat_timer tm) \<and> a \<notin> snd ` set (tqTimers q)"

lemma timer_act_unrepeatable:
  assumes "tq_inv q" and "fresh_act x q" and "timer_act x q = Inr q'"
    and "unrepeatable a q \<or> x = ActCancel a \<and> held {a} q"
  shows "unrepeatable a q'"
proof (cases x)
  case (ActAdd b tm clock)
  then have fresh: "tqHeap q b = None" using assms(2) by simp
  have q': "tqTimers q' = insort (tmExpiration tm, b) (tqTimers q)" "tqHeap q' = (tqHeap q)(b \<mapsto> tm)"
    using addTimer_new [OF assms(1) fresh, of tm clock] assms(3) ActAdd by (metis Inr_inject)+
  from assms(4) ActAdd fresh have "unrepeatable a q" "a \<noteq> b" by (auto simp: unrepeatable_def)
  with q' show ?thesis by (auto simp: unrepeatable_def set_insort_key)
next
  case (ActCancel b)
  have out: "a \<notin> snd ` set (tqTimers q)" using assms(4) by (auto simp: unrepeatable_def held_def)
  have sub: "set (tqTimers q') \<subseteq> set (tqTimers q)"
    using assms(3) ActCancel
    by (auto simp: cancelTimer_eq simp del: timer_act.simps split: option.splits if_splits
        dest: set_remove1_subset [THEN subsetD])
  have "\<exists>tm. tqHeap q' a = Some tm \<and> \<not> repeat_timer tm"
  proof (cases "b = a")
    case True
    then obtain tm where tm: "tqHeap q a = Some tm" using assms(4) by (auto simp: unrepeatable_def held_def)
    moreover have "(tmExpiration tm, a) \<notin> set (tqTimers q)" using out by force
    ultimately show ?thesis
      using assms(3) ActCancel True
      by (simp add: cancelTimer_eq setUnrepeat_def repeat_timer_def del: timer_act.simps) fastforce
  next
    case False
    then have "tqHeap q' a = tqHeap q a"
      using assms(3) ActCancel
      by (auto simp: cancelTimer_eq simp del: timer_act.simps split: option.splits if_splits)
    with False assms(4) ActCancel show ?thesis by (auto simp: unrepeatable_def)
  qed
  with out sub show ?thesis unfolding unrepeatable_def by blast
qed

lemma timer_acts_unrepeatable:
  assumes "tq_inv q" and "acts_fresh xs q" and "timer_acts xs q = Inr q'" and "held {a} q"
    and "unrepeatable a q \<or> ActCancel a \<in> set xs"
  shows "unrepeatable a q'"
  using assms
proof (induction xs arbitrary: q)
  case (Cons x xs)
  obtain q1 where q1: "timer_act x q = Inr q1" "tq_inv q1" "held {a} q1"
    using timer_act_ok [OF Cons.prems(1) _ Cons.prems(4), of x] Cons.prems(2) by auto
  have "unrepeatable a q1 \<or> ActCancel a \<in> set xs"
    using timer_act_unrepeatable [OF Cons.prems(1) _ q1(1)] Cons.prems(2,4,5) by auto
  moreover have "acts_fresh xs q1" "timer_acts xs q1 = Inr q'" using Cons.prems(2,3) q1(1) by auto
  ultimately show ?case using Cons.IH q1(2,3) by blast
qed simp

lemma run_expired_unrepeatable:
  assumes "tq_inv q" and "run_fresh acts es q" and "run_expired acts es q = Inr (fired, q')" and "held {a} q"
    and "unrepeatable a q \<or> (\<exists>b \<in> snd ` set es. ActCancel a \<in> set (acts b))"
  shows "unrepeatable a q'"
  using assms
proof (induction es arbitrary: q fired)
  case (Cons e es)
  obtain t b where e: "e = (t, b)" by (cases e)
  obtain q1 where q1: "timer_acts (acts b) q = Inr q1" "tq_inv q1" "held {a} q1"
    using timer_acts_ok [OF Cons.prems(1) _ Cons.prems(4), of "acts b"] Cons.prems(2) e by auto
  then obtain fired' where rest: "run_expired acts es q1 = Inr (fired', q')" "run_fresh acts es q1"
    using Cons.prems(2,3) e by (auto simp: result_simps split: option.splits)
  have "unrepeatable a q1 \<or> (\<exists>b \<in> snd ` set es. ActCancel a \<in> set (acts b))"
    using timer_acts_unrepeatable [OF Cons.prems(1) _ q1(1) Cons.prems(4)] Cons.prems(2,5) e by auto
  with Cons.IH [OF q1(2) rest(2,1) q1(3)] show ?case .
qed simp

section \<open>Reachable queues\<close>

text \<open>
  The life of a queue: it starts empty, callbacks and tasks of the loop add and cancel timers,
  and alarms are handled, at clock readings after the epoch; all times are in range.
\<close>

inductive tq_reachable :: "(rat \<Rightarrow> rat) \<Rightarrow> timer_queue \<Rightarrow> bool" for fl where
  tq_start: "tq_reachable fl newTimerQueue"
| tq_act: "tq_reachable fl q \<Longrightarrow> fresh_act x q \<Longrightarrow> act_ok x \<Longrightarrow> timer_act x q = Inr q' \<Longrightarrow> tq_reachable fl q'"
| tq_alarm: "tq_reachable fl q \<Longrightarrow> 1 \<le> now \<Longrightarrow> clock_ok now \<Longrightarrow> clock_ok clock \<Longrightarrow> (\<And>a. list_all act_ok (acts a))
    \<Longrightarrow> run_fresh acts (expired_at now q) (after_expiry now q)
    \<Longrightarrow> tq_handleRead fl True now clock acts q = Inr (fired, q') \<Longrightarrow> tq_reachable fl q'"

lemma tq_handleRead_heap:
  assumes "tq_inv q" and "run_fresh acts (expired_at now q) (after_expiry now q)"
    and "rounding fl" and "1 \<le> now" and "tq_handleRead fl True now clock acts q = Inr (fired, q')"
    and "heap_ok q" and "clock_ok now" and "\<And>a. list_all act_ok (acts a)"
  shows "heap_ok q'"
proof -
  from assms(5) getExpired_after [OF assms(1)] obtain q2 q3 fired' where
    q2: "run_expired acts (expired_at now q) (after_expiry now q) = Inr (fired', q2)"
    and q3: "reset_timers fl clock now (expired_at now q) q2 = Inr q3" "q' = release (expired_at now q) q3"
    by (auto simp: tq_handleRead_def result_simps)
  obtain q1 where q1: "reset_loop fl now (expired_at now q) q2 = Inr q1"
    using q3(1) by (cases "reset_loop fl now (expired_at now q) q2") (simp_all add: reset_timers_def)
  then have "tqHeap q3 = tqHeap q1"
    using q3(1) by (auto simp: reset_timers_def split: list.splits option.splits if_splits)
  note q1 = q1 this
  have "heap_ok (after_expiry now q)" using assms(6) by (simp add: heap_ok_def after_expiry_def)
  then have "heap_ok q2" using assms(8) q2 by (rule heap_ok_run)
  then have "heap_ok q1" using q1(1) by (rule heap_ok_reset [OF assms(3,4,7)])
  then show ?thesis using q1(2) q3(2) by (auto simp: heap_ok_def release_def)
qed

lemma tq_reachable_inv:
  assumes "rounding fl"
  shows "tq_reachable fl q \<Longrightarrow> tq_inv q \<and> heap_ok q \<and> tq_armed q"
proof (induction rule: tq_reachable.induct)
  case tq_start
  show ?case using tq_inv_new by (simp add: heap_ok_def tq_armed_def newTimerQueue_def)
next
  case (tq_act q x q')
  then have "tq_inv q'" using timer_act_ok [of q x "{}"] by (auto simp: held_def)
  with tq_act show ?case using timer_act_armed(1) heap_ok_act by blast
next
  case (tq_alarm q now clock acts fired q')
  then have inv: "tq_inv q" "heap_ok q" by simp_all
  obtain q0 where "tq_handleRead fl True now clock acts q = Inr (map snd (expired_at now q), q0)" "tq_inv q0"
    by (rule tq_handleRead_ok [OF inv(1) tq_alarm.hyps(6)])
  then have "tq_inv q'" using tq_alarm.hyps(7) by simp
  moreover have "heap_ok q'"
    by (rule tq_handleRead_heap [OF inv(1) tq_alarm.hyps(6) assms tq_alarm.hyps(2,7) inv(2) tq_alarm.hyps(3,5)])
  moreover have "tq_armed q'"
    by (rule tq_handleRead_armed [OF inv(1) tq_alarm.hyps(6) assms tq_alarm.hyps(2,7) inv(2) tq_alarm.hyps(3,4,5)])
  ultimately show ?case by blast
qed

section \<open>An example queue\<close>

definition demo_queue :: timer_queue where
  "demo_queue =
     \<lparr>tqTimers = [(5, 1), (9, 2), (20, 3)],
      tqHeap = [1 \<mapsto> \<lparr>tmCallback = 0, tmExpiration = 5, tmInterval = 0\<rparr>,
                2 \<mapsto> \<lparr>tmCallback = 0, tmExpiration = 9, tmInterval = 3\<rparr>,
                3 \<mapsto> \<lparr>tmCallback = 0, tmExpiration = 20, tmInterval = 0\<rparr>],
      tqAlarm = None\<rparr>"

definition demo_acts :: "nat \<Rightarrow> timer_action list" where
  "demo_acts a = (if a = 1 then [ActCancel 2] else [])"

lemma demo_inv: "tq_inv demo_queue"
  by (auto simp: tq_inv_def demo_queue_def less_eq_prod_def)

lemma demo_fresh: "run_fresh demo_acts (expired_at 10 demo_queue) (after_expiry 10 demo_queue)"
  by (simp add: demo_queue_def demo_acts_def expired_at_def after_expiry_def cancelTimer_def)

section \<open>Properties\<close>

text \<open>
  \<^verbatim>\<open>getExpired\<close> takes out exactly the timers whose expiration is not after \<open>now\<close>, in order
  of expiration, leaves exactly the later ones, and its assertion never fails. (No timer is
  taken early: the sentry \<open>(now + 1, nullptr)\<close> is below every entry of the next microsecond.)
\<close>

lemma getExpired_exact:
  assumes "tq_inv q"
  shows "getExpired now q = Inr (filter (\<lambda>(t, a). t \<le> now) (tqTimers q),
           q\<lparr>tqTimers := filter (\<lambda>(t, a). now < t) (tqTimers q)\<rparr>)"
  using getExpired_eq [OF assms] by (simp add: case_prod_unfold)

lemma getExpired_exact_example:
  "getExpired 9 demo_queue = Inr ([(5, 1), (9, 2)], demo_queue\<lparr>tqTimers := [(20, 3)]\<rparr>)"
  using getExpired_exact [OF demo_inv, of 9] by (simp add: demo_queue_def)

text \<open>
  C12: Handling an alarm succeeds whatever the callbacks add and cancel: it runs the callbacks of
  exactly the expired timers, each once and in order of expiration, keeps the queue well formed,
  and leaves in it what the callbacks left plus each expired timer that is still repeating, at
  its new expiration; no assertion fails and no destroyed timer is touched.
\<close>

theorem tq_handleRead_fires:
  assumes "tq_inv q" and "run_fresh acts (expired_at now q) (after_expiry now q)"
  shows "\<exists>q2 q'. run_expired acts (expired_at now q) (after_expiry now q) = Inr (map snd (expired_at now q), q2)
    \<and> tq_handleRead fl True now clock acts q = Inr (map snd (expired_at now q), q')
    \<and> tq_inv q' \<and> set (tqTimers q') = set (tqTimers q2) \<union> rescheduled fl now (expired_at now q) q2"
proof -
  obtain q2 q1 q' where "run_expired acts (expired_at now q) (after_expiry now q)
      = Inr (map snd (expired_at now q), q2)" "reset_loop fl now (expired_at now q) q2 = Inr q1"
    "tq_handleRead fl True now clock acts q = Inr (map snd (expired_at now q), q')" "tq_inv q'"
    "tqTimers q' = tqTimers q1"
    by (rule tq_handleRead_ok [OF assms])
  with reset_loop_set [OF _ after_expiry_ok(3) [OF assms(1)]] show ?thesis by metis
qed

theorem tq_handleRead_fires_witness:
  "\<exists>q'. tq_handleRead id True 10 11 demo_acts demo_queue = Inr ([1, 2], q') \<and> tq_inv q'"
  using tq_handleRead_fires [OF demo_inv demo_fresh, of id 11] by (auto simp: expired_at_def demo_queue_def)

text \<open>
  C20: The timer descriptor is never left unarmed. In every reachable state with a pending timer,
  the descriptor is armed, and it fires no later than the earliest expiration, or 100
  microseconds after it was set if that expiration was already due, provided that all times stay in
  range: clock readings before \<open>2 ^ 61\<close> microseconds after the epoch, intervals up to as many, and
  expirations within \<open>2 ^ 62\<close>. It also rests on the rounding of \<^verbatim>\<open>double\<close> being monotone and exact at 0, 1
  and two powers of two. Out of range the descriptor can stay unarmed: a repeating timer with an
  interval that does not fit into \<^verbatim>\<open>int64_t\<close> is rescheduled before the epoch and no alarm is set.
\<close>

theorem timerfd_always_armed:
  "(rounding fl \<and> tq_reachable fl q \<and> tqTimers q \<noteq> []
     \<longrightarrow> (\<exists>al. tqAlarm q = Some al \<and> deadline al \<le> max (fst (hd (tqTimers q))) (setAt al + 100)))
   \<and> (2 ^ 63 \<le> (\<lfloor>fl (fl (of_int now) + fl (d * 1000000))\<rfloor>) \<and> 0 < d \<and> t \<le> now
     \<longrightarrow> (\<exists>q'. tq_handleRead fl True now clock (\<lambda>_. [])
            \<lparr>tqTimers = [(t, a)], tqHeap = [a \<mapsto> \<lparr>tmCallback = cb, tmExpiration = t, tmInterval = d\<rparr>], tqAlarm = al0\<rparr> = Inr ([a], q')
          \<and> tqTimers q' = [(- (2 ^ 63), a)] \<and> tqAlarm q' = None))"
proof (intro conjI impI)
  assume "rounding fl \<and> tq_reachable fl q \<and> tqTimers q \<noteq> []"
  then show "\<exists>al. tqAlarm q = Some al \<and> deadline al \<le> max (fst (hd (tqTimers q))) (setAt al + 100)"
    using tq_reachable_inv [of fl q] by (simp add: tq_armed_def armed_for_def)
next
  assume a: "2 ^ 63 \<le> (\<lfloor>fl (fl (of_int now) + fl (d * 1000000))\<rfloor>) \<and> 0 < d \<and> t \<le> now"
  let ?x = "fl (fl (of_int now) + fl (d * 1000000))"
  from a have "2 ^ 63 \<le> \<lfloor>?x\<rfloor>" by (rule conjunct1)
  then have "0 \<le> \<lfloor>?x\<rfloor>" by (rule order_trans [rotated]) simp
  then have "0 \<le> ?x" by simp
  then have "trunc_double ?x = - (2 ^ 63)" using a by (simp add: trunc_double_def Let_def)
  then show "\<exists>q'. tq_handleRead fl True now clock (\<lambda>_. [])
        \<lparr>tqTimers = [(t, a)], tqHeap = [a \<mapsto> \<lparr>tmCallback = cb, tmExpiration = t, tmInterval = d\<rparr>], tqAlarm = al0\<rparr> = Inr ([a], q')
      \<and> tqTimers q' = [(- (2 ^ 63), a)] \<and> tqAlarm q' = None"
    using a by (simp add: tq_handleRead_def getExpired_def before_sentry reset_timers_def repeat_timer_def restart_def
        insert_timer_def release_def)
qed

theorem timerfd_always_armed_witness:
  "(\<exists>(q :: timer_queue) al. tqTimers q = [(50, 7)] \<and> tqAlarm q = Some al \<and> deadline al \<le> max 50 (setAt al + 100))
   \<and> (\<exists>q'. tq_handleRead id True 60 61 (\<lambda>_. [])
        \<lparr>tqTimers = [(50, 7)], tqHeap = [7 \<mapsto> \<lparr>tmCallback = 0, tmExpiration = 50, tmInterval = 2 ^ 63\<rparr>], tqAlarm = None\<rparr> = Inr ([7], q')
      \<and> tqTimers q' = [(- (2 ^ 63), 7)] \<and> tqAlarm q' = None)"
proof
  let ?tm = "\<lparr>tmCallback = 0, tmExpiration = 50, tmInterval = 0\<rparr>"
  have fresh: "fresh_act (ActAdd 7 ?tm 20) newTimerQueue" by (simp add: newTimerQueue_def)
  obtain q where q: "timer_act (ActAdd 7 ?tm 20) newTimerQueue = Inr q" "tqTimers q = [(50, 7)]"
    by (simp add: newTimerQueue_def addTimer_def makeTimer_def insert_timer_def earliest_def)
  have r: "rounding id" by (simp add: rounding_def mono_def)
  have "act_ok (ActAdd 7 ?tm 20)" by (simp add: timer_ok_def clock_ok_def)
  then have "tq_reachable id q" by (rule tq_act [OF tq_start fresh _ q(1)])
  with timerfd_always_armed [of id q] r q(2) have "\<exists>al. tqAlarm q = Some al
      \<and> deadline al \<le> max 50 (setAt al + 100)" by simp
  with q(2) show "\<exists>(q :: timer_queue) al. tqTimers q = [(50, 7)] \<and> tqAlarm q = Some al \<and> deadline al \<le> max 50 (setAt al + 100)" by blast
  show "\<exists>q'. tq_handleRead id True 60 61 (\<lambda>_. [])
        \<lparr>tqTimers = [(50, 7)], tqHeap = [7 \<mapsto> \<lparr>tmCallback = 0, tmExpiration = 50, tmInterval = 2 ^ 63\<rparr>], tqAlarm = None\<rparr> = Inr ([7], q')
      \<and> tqTimers q' = [(- (2 ^ 63), 7)] \<and> tqAlarm q' = None"
    using timerfd_always_armed [of id newTimerQueue 60 "2 ^ 63" 50 61 7 0 None] by simp
qed

text \<open>
  Cancelling a timer that waits in the queue removes it for good: its entry and its object
  are gone, every other entry stays, and no later alarm, whenever it is handled, runs it.
\<close>

lemma cancelTimer_removes:
  assumes "tq_inv q" and "(t, a) \<in> set (tqTimers q)"
  shows "\<exists>q'. cancelTimer True a q = Inr q' \<and> tq_inv q' \<and> tqHeap q' a = None
    \<and> set (tqTimers q') = set (tqTimers q) - {(t, a)} \<and> a \<notin> snd ` set (expired_at now q')"
proof -
  obtain tm where tm: "tqHeap q a = Some tm" "tmExpiration tm = t" using assms by (rule tq_invD)
  let ?q' = "q\<lparr>tqTimers := remove1 (t, a) (tqTimers q), tqHeap := (tqHeap q)(a := None)\<rparr>"
  have eq: "timer_act (ActCancel a) q = Inr ?q'"
    using tm assms(2) by (simp add: cancelTimer_eq del: timer_act.simps)
  have set: "set (tqTimers ?q') = set (tqTimers q) - {(t, a)}"
    using assms(1) by (simp add: tq_inv_def)
  moreover have "a \<notin> snd ` set (expired_at now ?q')"
    using set tq_addr_inj [OF assms] by (fastforce simp: expired_at_def)
  ultimately show ?thesis using eq tq_inv_cancel [OF assms(1) eq] by auto
qed

lemma cancelTimer_removes_example:
  "\<exists>q'. cancelTimer True 2 demo_queue = Inr q' \<and> set (tqTimers q') = {(5, 1), (20, 3)}"
  using cancelTimer_removes [OF demo_inv, of 9 2 30] by (auto simp: demo_queue_def)

text \<open>
  C29: a timer cancelled by a callback of the very batch in which it expires, its own or another
  timer's, runs in this batch, as the comment in \<^verbatim>\<open>cancelTimer\<close> says, but is not put back into
  the queue, repeating or not, whatever else the callbacks of the batch add (at addresses not in
  use) and cancel.
\<close>

theorem cancel_in_batch:
  assumes "tq_inv q" and "run_fresh acts (expired_at now q) (after_expiry now q)"
    and "a \<in> snd ` set (expired_at now q)" and "b \<in> snd ` set (expired_at now q)"
    and "ActCancel a \<in> set (acts b)"
  shows "\<exists>fired q'. tq_handleRead fl True now clock acts q = Inr (fired, q')
    \<and> a \<in> set fired \<and> a \<notin> snd ` set (tqTimers q')"
proof -
  let ?es = "expired_at now q"
  note start = after_expiry_ok [OF assms(1), of now]
  obtain q2 q1 q' where q2: "run_expired acts ?es (after_expiry now q) = Inr (map snd ?es, q2)"
    and q1: "reset_loop fl now ?es q2 = Inr q1"
    and q': "tq_handleRead fl True now clock acts q = Inr (map snd ?es, q')" "tqTimers q' = tqTimers q1"
    by (rule tq_handleRead_ok [OF assms(1,2)])
  have "held {a} (after_expiry now q)" using start(2) assms(3) by (auto simp: held_def)
  then have "unrepeatable a q2"
    using run_expired_unrepeatable [OF start(1) assms(2) q2] assms(4,5) by blast
  then have "a \<notin> snd ` set (tqTimers q1)"
    using reset_loop_set [OF q1 start(3)] by (auto simp: unrepeatable_def rescheduled_def)
  with q' assms(3) show ?thesis by auto
qed

theorem cancel_in_batch_witness:
  "\<exists>fired q'. tq_handleRead id True 10 11 demo_acts demo_queue = Inr (fired, q')
     \<and> 2 \<in> set fired \<and> 2 \<notin> snd ` set (tqTimers q')"
  by (rule cancel_in_batch [OF demo_inv demo_fresh, of 2 1])
    (simp_all add: expired_at_def demo_queue_def demo_acts_def)

text \<open>
  The value given to \<^verbatim>\<open>timerfd_settime\<close> is always valid and never zero (a zero value would
  disarm the timer): the nanoseconds are in range, and seconds and nanoseconds add up to the
  distance to the expiration in \<^verbatim>\<open>int64_t\<close>, at least 100 microseconds.
\<close>

lemma resetTimerfd_value:
  "let v = alarmValue (resetTimerfd now expiration)
   in 0 \<le> tv_sec v \<and> 0 \<le> tv_nsec v \<and> tv_nsec v < 1000000000 \<and> (tv_sec v, tv_nsec v) \<noteq> (0, 0)
      \<and> tv_sec v * 1000000000 + tv_nsec v = 1000 * max 100 (int64 (expiration - now))"
proof -
  define us where "us = max 100 (int64 (expiration - now))"
  have "alarmValue (resetTimerfd now expiration) =
      \<lparr>tv_sec = us div 1000000, tv_nsec = (us mod 1000000) * 1000\<rparr>"
    by (auto simp: resetTimerfd_def us_def Let_def max_def)
  moreover have "100 \<le> us" by (simp add: us_def)
  moreover have "us div 1000000 * 1000000000 + us mod 1000000 * 1000
      = 1000 * (us div 1000000 * 1000000 + us mod 1000000)" by (simp only: distrib_left)
  ultimately show ?thesis by (auto simp: Let_def us_def [symmetric])
qed

end
