(* ===== verification/Event_Loop.thy ===== *)
theory Event_Loop
  imports Miniduo_Prelude
begin

text \<open>
  The task queue and the wake-up mechanism of \<^verbatim>\<open>EventLoop\<close> and the loop selection of
  \<^verbatim>\<open>EventLoops\<close> (\<^verbatim>\<open>miniduo/EventLoop.cpp\<close>). The type parameter \<open>'t\<close> is the type of tasks.
  The counter of the \<^verbatim>\<open>eventfd(2)\<close> is part of the state, since \<open>wakeup\<close> and
  \<open>handleRead\<close> write and read it. \<open>queueInLoop\<close> and \<open>quit\<close>, which any thread may call, are the
  lists of the atomic actions they perform (push under the mutex, store to the atomic flag, write
  to the descriptor). The second half is the interleaving of the loop thread with other threads as
  a step relation, in which the actions of all calls in flight are separate steps.
\<close>

section \<open>Model\<close>

record 't event_loop =
  stopLooping :: bool
  loopTid :: int
  pendingTasks :: "'t list"
  wakeupCount :: nat

definition newEventLoop :: "'t event_loop" where
  "newEventLoop = \<lparr>stopLooping = True, loopTid = -1, pendingTasks = [], wakeupCount = 0\<rparr>"

definition isInLoopThread :: "int \<Rightarrow> 't event_loop \<Rightarrow> bool" where
  "isInLoopThread tid l = (if \<not> stopLooping l then loopTid l = tid else False)"

definition assertInLoopThread :: "int \<Rightarrow> 't event_loop \<Rightarrow> 'a result \<Rightarrow> 'a result" where
  "assertInLoopThread tid l m = (if \<not> isInLoopThread tid l then Inl Aborted else m)"

text \<open>The largest value of an \<^verbatim>\<open>eventfd\<close> counter; a write that would pass it fails and is logged.\<close>

definition eventfdMax :: nat where
  "eventfdMax = 2 ^ 64 - 2"

definition wakeup :: "'t event_loop \<Rightarrow> 't event_loop" where
  "wakeup l = (if wakeupCount l < eventfdMax then l\<lparr>wakeupCount := wakeupCount l + 1\<rparr> else l)"

definition loop_handleRead :: "'t event_loop \<Rightarrow> 't event_loop" where
  "loop_handleRead l = l\<lparr>wakeupCount := 0\<rparr>"

definition pushTask :: "'t \<Rightarrow> 't event_loop \<Rightarrow> 't event_loop" where
  "pushTask cb l = l\<lparr>pendingTasks := pendingTasks l @ [cb]\<rparr>"

text \<open>The atomic actions of the calls that other threads may make, and a call made in one go.\<close>

datatype 't loop_act = ActPush 't | ActStop | ActWake

fun do_act :: "'t loop_act \<Rightarrow> 't event_loop \<Rightarrow> 't event_loop" where
  "do_act (ActPush cb) l = pushTask cb l"
| "do_act ActStop l = l\<lparr>stopLooping := True\<rparr>"
| "do_act ActWake l = wakeup l"

definition perform :: "'t loop_act list \<Rightarrow> 't event_loop \<Rightarrow> 't event_loop" where
  "perform acts l = fold do_act acts l"

definition queueInLoop :: "'t \<Rightarrow> 't loop_act list" where
  "queueInLoop cb = [ActPush cb, ActWake]"

text \<open>The swap at the start of \<^verbatim>\<open>doPendingTasks\<close>.\<close>

definition takeTasks :: "'t event_loop \<Rightarrow> 't list \<times> 't event_loop" where
  "takeTasks l = (pendingTasks l, l\<lparr>pendingTasks := []\<rparr>)"

definition startLooping :: "int \<Rightarrow> 't event_loop \<Rightarrow> 't event_loop result" where
  "startLooping tid l =
     assertR (stopLooping l)
       (let l1 = l\<lparr>loopTid := tid, stopLooping := False\<rparr>
        in assertInLoopThread tid l1 (Inr l1))"

definition endLooping :: "'t event_loop \<Rightarrow> 't event_loop" where
  "endLooping l = l\<lparr>loopTid := -1\<rparr>"

text \<open>What \<^verbatim>\<open>quit\<close> does after the test with which it starts.\<close>

definition quit :: "int \<Rightarrow> 't event_loop \<Rightarrow> 't loop_act list" where
  "quit tid l = (if \<not> isInLoopThread tid l then [ActStop, ActWake] else [ActStop])"

section \<open>Model: several loops\<close>

text \<open>
  \<^verbatim>\<open>EventLoops\<close>: the index 0 stands for the object itself, \<open>i + 1\<close> for \<^verbatim>\<open>subLoops_[i]\<close>.
\<close>

record event_loops =
  elSize :: nat
  elNext :: nat

definition newEventLoops :: "nat \<Rightarrow> event_loops" where
  "newEventLoops loopNum = \<lparr>elSize = loopNum, elNext = 0\<rparr>"

definition allocLoop :: "event_loops \<Rightarrow> (nat \<times> event_loops) result" where
  "allocLoop e =
     (if elSize e = 0 then Inr (0, e)
      else if elNext e < elSize e
      then Inr (elNext e + 1, e\<lparr>elNext := (elNext e + 1) mod elSize e\<rparr>)
      else Inl OutOfBounds)"

fun allocLoops :: "nat \<Rightarrow> event_loops \<Rightarrow> (nat list \<times> event_loops) result" where
  "allocLoops 0 e = Inr ([], e)"
| "allocLoops (Suc n) e =
     bindR (allocLoop e) (\<lambda>(i, e1). bindR (allocLoops n e1) (\<lambda>(is, e2). Inr (i # is, e2)))"

text \<open>\<^verbatim>\<open>EventLoops::quit\<close>: every sub loop, then the object's own loop.\<close>

definition quitAll :: "int \<Rightarrow> 't event_loop list \<times> 't event_loop \<Rightarrow> 't event_loop list \<times> 't event_loop" where
  "quitAll tid ls = (map (\<lambda>l. perform (quit tid l) l) (fst ls), perform (quit tid (snd ls)) (snd ls))"

text \<open>
  \<^verbatim>\<open>EventLoops::loop\<close>: one thread per sub loop enters its \<^verbatim>\<open>loop()\<close>, the calling thread
  enters its own; \<open>tids\<close> are the thread ids.
\<close>

fun startSubs :: "int list \<Rightarrow> 't event_loop list \<Rightarrow> 't event_loop list result" where
  "startSubs (t # ts) (l # ls) =
     bindR (startLooping t l) (\<lambda>l'. bindR (startSubs ts ls) (\<lambda>ls'. Inr (l' # ls')))"
| "startSubs _ ls = Inr ls"

definition startAll :: "int list \<Rightarrow> int \<Rightarrow> 't event_loop list \<times> 't event_loop
    \<Rightarrow> ('t event_loop list \<times> 't event_loop) result" where
  "startAll tids tid ls =
     bindR (startSubs tids (fst ls)) (\<lambda>subs.
       bindR (startLooping tid (snd ls)) (\<lambda>base. Inr (subs, base)))"

section \<open>Interleaving\<close>

text \<open>
  The phases of the loop thread: no thread inside \<^verbatim>\<open>loop()\<close>, at the test of the
  \<^verbatim>\<open>while\<close>, running the swapped tasks, blocked in \<^verbatim>\<open>poll\<close>, and handling the active
  channels (with or without the wake-up channel still to be read). \<open>inFlight\<close> has the remaining
  actions of the calls of \<open>queueInLoop\<close> and \<open>quit\<close> that have not returned yet. \<open>submitted\<close>, \<open>executed\<close>
  and \<open>quitInTask\<close> (a task of this run of the loop called \<open>quit\<close>) are history.
\<close>

datatype 't phase = Idle | AtTest | Running "'t list" | Polling | Handling bool

record 't loop_sys =
  sysLoop :: "'t event_loop"
  sysPhase :: "'t phase"
  inFlight :: "'t loop_act list list"
  submitted :: "'t list"
  executed :: "'t list"
  quitInTask :: bool

definition loop_sys_init :: "'t loop_sys" where
  "loop_sys_init =
     \<lparr>sysLoop = newEventLoop, sysPhase = Idle, inFlight = [], submitted = [], executed = [],
      quitInTask = False\<rparr>"

text \<open>
  What the loop thread does on its own: the body of \<^verbatim>\<open>loop()\<close>, with tasks and handlers that call
  neither \<open>queueInLoop\<close> nor \<open>quit\<close>, and a \<^verbatim>\<open>poll\<close> that returns only because the wake-up descriptor is
  readable.
\<close>

inductive own_step :: "'t loop_sys \<Rightarrow> 't loop_sys \<Rightarrow> bool" where
  step_tasks: "sysPhase s = AtTest \<Longrightarrow> \<not> stopLooping (sysLoop s) \<Longrightarrow> takeTasks (sysLoop s) = (ts, l) \<Longrightarrow>
     own_step s (s\<lparr>sysLoop := l, sysPhase := Running ts\<rparr>)"
| step_task: "sysPhase s = Running (t # ts) \<Longrightarrow>
     own_step s (s\<lparr>sysPhase := Running ts, executed := executed s @ [t]\<rparr>)"
| step_poll: "sysPhase s = Running [] \<Longrightarrow> own_step s (s\<lparr>sysPhase := Polling\<rparr>)"
| step_woken: "sysPhase s = Polling \<Longrightarrow> 0 < wakeupCount (sysLoop s) \<Longrightarrow>
     own_step s (s\<lparr>sysPhase := Handling True\<rparr>)"
| step_read_wakeup: "sysPhase s = Handling True \<Longrightarrow>
     own_step s (s\<lparr>sysLoop := loop_handleRead (sysLoop s), sysPhase := Handling False\<rparr>)"
| step_iterate: "sysPhase s = Handling False \<Longrightarrow> own_step s (s\<lparr>sysPhase := AtTest\<rparr>)"
| step_exit: "sysPhase s = AtTest \<Longrightarrow> stopLooping (sysLoop s) \<Longrightarrow>
     own_step s (s\<lparr>sysLoop := endLooping (sysLoop s), sysPhase := Idle\<rparr>)"

text \<open>
  The whole system: threads enter \<^verbatim>\<open>loop()\<close>, call \<open>queueInLoop\<close> and \<open>quit\<close> and perform the actions of
  these calls one by one, tasks and handlers call \<open>quit\<close>, and \<^verbatim>\<open>poll\<close> also returns for other
  descriptors or after its timeout.
\<close>

fun pushed :: "'t loop_act \<Rightarrow> 't list" where
  "pushed (ActPush t) = [t]"
| "pushed _ = []"

inductive loop_step :: "'t loop_sys \<Rightarrow> 't loop_sys \<Rightarrow> bool" where
  step_start: "sysPhase s = Idle \<Longrightarrow> startLooping tid (sysLoop s) = Inr l \<Longrightarrow>
     loop_step s (s\<lparr>sysLoop := l, sysPhase := AtTest, quitInTask := False\<rparr>)"
| step_queue: "loop_step s (s\<lparr>inFlight := queueInLoop t # inFlight s\<rparr>)"
| step_quit: "\<not> isInLoopThread tid (sysLoop s) \<Longrightarrow>
     loop_step s (s\<lparr>inFlight := quit tid (sysLoop s) # inFlight s\<rparr>)"
| step_act: "inFlight s = xs @ (a # as) # ys \<Longrightarrow>
     loop_step s (s\<lparr>sysLoop := do_act a (sysLoop s), inFlight := xs @ (if as = [] then [] else [as]) @ ys,
                    submitted := submitted s @ pushed a\<rparr>)"
| step_quit_task: "sysPhase s = Running (t # ts) \<Longrightarrow> isInLoopThread tid (sysLoop s) \<Longrightarrow>
     loop_step s (s\<lparr>sysLoop := perform (quit tid (sysLoop s)) (sysLoop s), quitInTask := True\<rparr>)"
| step_quit_handler: "sysPhase s = Handling b \<Longrightarrow> isInLoopThread tid (sysLoop s) \<Longrightarrow>
     loop_step s (s\<lparr>sysLoop := perform (quit tid (sysLoop s)) (sysLoop s)\<rparr>)"
| step_poll_other: "sysPhase s = Polling \<Longrightarrow> loop_step s (s\<lparr>sysPhase := Handling False\<rparr>)"
| step_own: "own_step s s' \<Longrightarrow> loop_step s s'"

inductive loop_reach :: "'t loop_sys \<Rightarrow> bool" where
  reach_init: "loop_reach loop_sys_init"
| reach_step: "loop_reach s \<Longrightarrow> loop_step s s' \<Longrightarrow> loop_reach s'"

section \<open>Invariants of the interleaving\<close>

definition unstarted :: "'t phase \<Rightarrow> 't list" where
  "unstarted ph = (case ph of Running ts \<Rightarrow> ts | _ \<Rightarrow> [])"

definition beforePoll :: "'t phase \<Rightarrow> bool" where
  "beforePoll ph = (case ph of Running _ \<Rightarrow> True | Polling \<Rightarrow> True | _ \<Rightarrow> False)"

text \<open>Somebody has written to the descriptor, or is about to.\<close>

definition alerted :: "'t loop_sys \<Rightarrow> bool" where
  "alerted s \<longleftrightarrow> 0 < wakeupCount (sysLoop s) \<or> ActWake \<in> set (concat (inFlight s))"

definition fifo_inv :: "'t loop_sys \<Rightarrow> bool" where
  "fifo_inv s \<longleftrightarrow> executed s @ unstarted (sysPhase s) @ pendingTasks (sysLoop s) = submitted s"

text \<open>Every call of another thread ends with the write.\<close>

definition flight_inv :: "'t loop_sys \<Rightarrow> bool" where
  "flight_inv s \<longleftrightarrow> (\<forall>as \<in> set (inFlight s). as \<noteq> [] \<and> last as = ActWake)"

definition wake_inv :: "'t loop_sys \<Rightarrow> bool" where
  "wake_inv s \<longleftrightarrow>
     (beforePoll (sysPhase s) \<longrightarrow>
        (pendingTasks (sysLoop s) \<noteq> [] \<longrightarrow> alerted s)
      \<and> (stopLooping (sysLoop s) \<and> \<not> quitInTask s \<longrightarrow> alerted s))"

lemma perform_queue: "perform (queueInLoop t) l = wakeup (pushTask t l)"
  by (simp add: perform_def queueInLoop_def)

lemma perform_quit: "perform (quit tid l) l = (if isInLoopThread tid l then l\<lparr>stopLooping := True\<rparr> else wakeup (l\<lparr>stopLooping := True\<rparr>))"
  by (simp add: perform_def quit_def)

lemmas loop_defs = pushTask_def loop_handleRead_def takeTasks_def endLooping_def perform_quit

lemma startLooping_eq:
  "startLooping tid l = (if stopLooping l then Inr (l\<lparr>loopTid := tid, stopLooping := False\<rparr>)
     else Inl AssertFailed)"
  by (simp add: startLooping_def assertInLoopThread_def isInLoopThread_def assertR_def Let_def)

lemma wakeup_simps [simp]:
  "pendingTasks (wakeup l) = pendingTasks l" "stopLooping (wakeup l) = stopLooping l"
  "loopTid (wakeup l) = loopTid l" "0 < wakeupCount (wakeup l)"
  by (simp_all add: wakeup_def eventfdMax_def)

lemma phase_simps [simp]:
  "unstarted (Running ts) = ts" "unstarted AtTest = []" "unstarted Polling = []"
  "unstarted (Handling b) = []" "unstarted Idle = []"
  "beforePoll (Running ts)" "\<not> beforePoll AtTest" "beforePoll Polling"
  "\<not> beforePoll (Handling b)" "\<not> beforePoll Idle"
  by (simp_all add: unstarted_def beforePoll_def)

lemma own_step_inv: "own_step s s' \<Longrightarrow> fifo_inv s \<and> flight_inv s \<and> wake_inv s \<Longrightarrow> fifo_inv s' \<and> flight_inv s' \<and> wake_inv s'"
  by (induction rule: own_step.induct) (auto simp: fifo_inv_def flight_inv_def wake_inv_def alerted_def loop_defs)

lemma fifo_inv_act: "fifo_inv s \<Longrightarrow> fifo_inv (s\<lparr>sysLoop := do_act a (sysLoop s), inFlight := fs, submitted := submitted s @ pushed a\<rparr>)"
  by (cases a) (auto simp: fifo_inv_def pushTask_def)

text \<open>An action either writes to the descriptor itself or leaves the write of its call to be done.\<close>

lemma act_alerts:
  assumes "flight_inv s" and "inFlight s = xs @ (a # as) # ys"
  shows "alerted (s\<lparr>sysLoop := do_act a (sysLoop s), inFlight := xs @ (if as = [] then [] else [as]) @ ys, submitted := sub\<rparr>)"
    and "flight_inv (s\<lparr>sysLoop := do_act a (sysLoop s), inFlight := xs @ (if as = [] then [] else [as]) @ ys, submitted := sub\<rparr>)"
proof -
  have l: "last (a # as) = ActWake" using assms by (simp add: flight_inv_def)
  show "alerted (s\<lparr>sysLoop := do_act a (sysLoop s), inFlight := xs @ (if as = [] then [] else [as]) @ ys, submitted := sub\<rparr>)"
  proof (cases "as = []")
    case True
    then show ?thesis using l by (simp add: alerted_def)
  next
    case False
    then have "ActWake \<in> set as" using l last_in_set [of as] by simp
    then show ?thesis using False by (simp add: alerted_def)
  qed
  show "flight_inv (s\<lparr>sysLoop := do_act a (sysLoop s), inFlight := xs @ (if as = [] then [] else [as]) @ ys, submitted := sub\<rparr>)"
    using assms l by (auto simp: flight_inv_def split: if_splits)
qed

lemma loop_step_inv: "loop_step s s' \<Longrightarrow> fifo_inv s \<and> flight_inv s \<and> wake_inv s \<Longrightarrow> fifo_inv s' \<and> flight_inv s' \<and> wake_inv s'"
proof (induction rule: loop_step.induct)
  case (step_act s xs a as ys)
  then have inv: "fifo_inv s" "flight_inv s" by simp_all
  note al = act_alerts [OF inv(2) step_act.hyps, of "submitted s @ pushed a"]
  then show ?case using fifo_inv_act [OF inv(1)] by (simp add: wake_inv_def)
next
  case (step_own s s')
  then show ?case by (rule own_step_inv)
next
  case (step_start s tid l)
  then show ?case by (auto simp: fifo_inv_def flight_inv_def wake_inv_def startLooping_eq split: if_splits)
next
  case (step_queue s t)
  then show ?case by (simp add: fifo_inv_def flight_inv_def wake_inv_def alerted_def queueInLoop_def)
next
  case (step_quit tid s)
  then show ?case by (simp add: fifo_inv_def flight_inv_def wake_inv_def alerted_def quit_def)
qed (simp_all add: fifo_inv_def flight_inv_def wake_inv_def alerted_def loop_defs split: if_splits)

lemma loop_reach_inv: "loop_reach s \<Longrightarrow> fifo_inv s \<and> flight_inv s \<and> wake_inv s"
proof (induction rule: loop_reach.induct)
  case reach_init
  show ?case by (simp add: loop_sys_init_def fifo_inv_def flight_inv_def wake_inv_def newEventLoop_def)
next
  case (reach_step s s')
  then show ?case using loop_step_inv by blast
qed

text \<open>With no call in flight, whoever waits in \<^verbatim>\<open>poll\<close> and should not can be woken.\<close>

lemma polling_alert:
  assumes "loop_reach s" and "sysPhase s = Polling" and "inFlight s = []"
    and "pendingTasks (sysLoop s) \<noteq> [] \<or> stopLooping (sysLoop s) \<and> \<not> quitInTask s"
  shows "0 < wakeupCount (sysLoop s)"
  using loop_reach_inv [OF assms(1)] assms(2-) by (auto simp: wake_inv_def alerted_def)

subsection \<open>The loop thread on its own\<close>

inductive_simps own_step_iff: "own_step s s'"

lemma own_step_det: "own_step s a \<Longrightarrow> own_step s b \<Longrightarrow> a = b"
  by (auto simp: own_step_iff)

text \<open>So there is one run of its own steps, and every state on it comes before or after every other.\<close>

lemma own_run_linear: "own_step\<^sup>*\<^sup>* s a \<Longrightarrow> own_step\<^sup>*\<^sup>* s b \<Longrightarrow> own_step\<^sup>*\<^sup>* a b \<or> own_step\<^sup>*\<^sup>* b a"
proof (induction rule: rtranclp_induct)
  case (step y z)
  from step.IH [OF step.prems] show ?case
  proof
    assume "own_step\<^sup>*\<^sup>* y b"
    then show ?thesis using step.hyps(2) own_step_det by (cases rule: converse_rtranclpE) blast+
  qed (use step.hyps(2) in \<open>blast intro: rtranclp.rtrancl_into_rtrancl\<close>)
qed simp

section \<open>Round robin\<close>

lemma allocLoops_from:
  assumes "elNext e < elSize e"
  shows "allocLoops n e = Inr (map (\<lambda>i. (elNext e + i) mod elSize e + 1) [0..<n],
           e\<lparr>elNext := (elNext e + n) mod elSize e\<rparr>)"
  using assms
proof (induction n arbitrary: e)
  case 0
  then show ?case by simp
next
  case (Suc n)
  let ?e1 = "e\<lparr>elNext := (elNext e + 1) mod elSize e\<rparr>"
  have alloc: "allocLoop e = Inr (elNext e + 1, ?e1)" using Suc.prems by (simp add: allocLoop_def)
  have "elNext ?e1 < elSize ?e1" using Suc.prems by simp
  from Suc.IH [OF this] have "allocLoops n ?e1 =
      Inr (map (\<lambda>i. (elNext e + Suc i) mod elSize e + 1) [0..<n], e\<lparr>elNext := (elNext e + Suc n) mod elSize e\<rparr>)"
    by (simp add: mod_simps)
  with alloc Suc.prems show ?case by (simp add: map_upt_Suc del: upt_Suc)
qed

lemma count_list_mod:
  assumes "j < k"
  shows "count_list (map (\<lambda>i. i mod k + 1) [0..<m * k]) (j + 1) = m"
proof (induction m)
  case (Suc m)
  have "map (\<lambda>i. i mod k + 1) [m * k..<Suc m * k] = map Suc [0..<k]"
    by (rule nth_equalityI) (simp_all add: mod_simps)
  moreover have "count_list (map Suc [0..<k]) (Suc j) = 1"
    using assms by (induction k) (auto simp: count_list_append count_notin)
  moreover have "[0..<Suc m * k] = [0..<m * k] @ [m * k..<Suc m * k]"
    using upt_add_eq_append [of 0 "m * k" k] by (simp add: add.commute)
  ultimately show ?case using Suc by simp
qed simp


lemma run_all_tasks:
  "sysPhase s = Running ts \<Longrightarrow>
   own_step\<^sup>*\<^sup>* s (s\<lparr>sysPhase := Running [], executed := executed s @ ts\<rparr>)"
proof (induction ts arbitrary: s)
  case Nil
  then have "s = s\<lparr>sysPhase := Running [], executed := executed s @ []\<rparr>" by simp
  then show ?case by (metis rtranclp.rtrancl_refl)
next
  case (Cons t ts)
  let ?s = "s\<lparr>sysPhase := Running ts, executed := executed s @ [t]\<rparr>"
  have "own_step s ?s" using Cons.prems by (rule step_task)
  moreover have "own_step\<^sup>*\<^sup>* ?s (s\<lparr>sysPhase := Running [], executed := executed s @ t # ts\<rparr>)"
    using Cons.IH [of ?s] by simp
  ultimately show ?case by (rule converse_rtranclp_into_rtranclp)
qed

lemma run_from_test:
  assumes "sysPhase s = AtTest" and "\<not> stopLooping (sysLoop s)"
  shows "own_step\<^sup>*\<^sup>* s (s\<lparr>sysLoop := (sysLoop s)\<lparr>pendingTasks := []\<rparr>, sysPhase := Running [],
           executed := executed s @ pendingTasks (sysLoop s)\<rparr>)"
proof -
  let ?s = "s\<lparr>sysLoop := (sysLoop s)\<lparr>pendingTasks := []\<rparr>,
              sysPhase := Running (pendingTasks (sysLoop s))\<rparr>"
  have "own_step s ?s" using assms by (rule step_tasks) (simp add: takeTasks_def)
  moreover have "own_step\<^sup>*\<^sup>* ?s (?s\<lparr>sysPhase := Running [],
      executed := executed ?s @ pendingTasks (sysLoop s)\<rparr>)" by (rule run_all_tasks) simp
  ultimately show ?thesis by (simp add: converse_rtranclp_into_rtranclp)
qed

lemma run_from_poll:
  assumes "sysPhase s = Polling" and "0 < wakeupCount (sysLoop s)"
  shows "own_step\<^sup>*\<^sup>* s (s\<lparr>sysLoop := loop_handleRead (sysLoop s), sysPhase := AtTest\<rparr>)"
proof -
  let ?s1 = "s\<lparr>sysPhase := Handling True\<rparr>"
  let ?s2 = "s\<lparr>sysLoop := loop_handleRead (sysLoop s), sysPhase := Handling False\<rparr>"
  let ?s3 = "s\<lparr>sysLoop := loop_handleRead (sysLoop s), sysPhase := AtTest\<rparr>"
  have "own_step s ?s1" using assms by (intro step_woken) simp_all
  moreover have "own_step ?s1 ?s2" using step_read_wakeup [of ?s1] by simp
  moreover have "own_step ?s2 ?s3" using step_iterate [of ?s2] by simp
  ultimately show ?thesis by (meson converse_rtranclp_into_rtranclp rtranclp.rtrancl_refl)
qed

subsection \<open>A concrete run\<close>

text \<open>
  The loop is started, finds no task and blocks; another thread queues the task 7 (\<open>run_blocked\<close>).
  In the second run that task calls \<open>quit\<close> and the loop thread polls again.
\<close>

abbreviation sys :: "bool \<Rightarrow> nat list \<Rightarrow> nat \<Rightarrow> nat phase \<Rightarrow> nat loop_act list list \<Rightarrow> nat list \<Rightarrow> nat list \<Rightarrow> bool
    \<Rightarrow> nat loop_sys" where
  "sys stp pend cnt ph mid sub ex qt \<equiv>
     \<lparr>sysLoop = \<lparr>stopLooping = stp, loopTid = 1, pendingTasks = pend, wakeupCount = cnt\<rparr>,
      sysPhase = ph, inFlight = mid, submitted = sub, executed = ex, quitInTask = qt\<rparr>"

lemma run_polling: "loop_reach (sys False [] 0 Polling [] [] [] False)"
proof -
  have "loop_reach (sys False [] 0 AtTest [] [] [] False)"
    using reach_step [OF reach_init step_start [of loop_sys_init 1 "newEventLoop\<lparr>loopTid := 1, stopLooping := False\<rparr>"]]
    by (simp add: loop_sys_init_def newEventLoop_def startLooping_eq)
  from reach_step [OF this step_own [OF step_tasks]] have "loop_reach (sys False [] 0 (Running []) [] [] [] False)"
    by (simp add: takeTasks_def)
  from reach_step [OF this step_own [OF step_poll]] show ?thesis by simp
qed

lemma run_blocked: "loop_reach (sys False [7] 1 Polling [] [7] [] False)"
proof -
  from reach_step [OF run_polling step_queue [of _ 7]]
  have "loop_reach (sys False [] 0 Polling [[ActPush 7, ActWake]] [] [] False)" by (simp add: queueInLoop_def)
  from reach_step [OF this step_act [of _ "[]" _ _ "[]"]]
  have "loop_reach (sys False [7] 0 Polling [[ActWake]] [7] [] False)" by (simp add: pushTask_def)
  from reach_step [OF this step_act [of _ "[]" _ _ "[]"]] show ?thesis by (simp add: wakeup_def eventfdMax_def)
qed

lemma run_stopped: "loop_reach (sys True [] 1 Polling [] [] [] False)"
proof -
  from reach_step [OF run_polling step_quit [of 2]]
  have "loop_reach (sys False [] 0 Polling [[ActStop, ActWake]] [] [] False)" by (simp add: quit_def isInLoopThread_def)
  from reach_step [OF this step_act [of _ "[]" _ _ "[]"]]
  have "loop_reach (sys True [] 0 Polling [[ActWake]] [] [] False)" by simp
  from reach_step [OF this step_act [of _ "[]" _ _ "[]"]] show ?thesis by (simp add: wakeup_def eventfdMax_def)
qed

lemma run_quit_in_task: "loop_reach (sys True [] 0 Polling [] [7] [7] True)"
proof -
  from reach_step [OF run_blocked step_own [OF step_woken]]
  have "loop_reach (sys False [7] 1 (Handling True) [] [7] [] False)" by simp
  from reach_step [OF this step_own [OF step_read_wakeup]]
  have "loop_reach (sys False [7] 0 (Handling False) [] [7] [] False)" by (simp add: loop_handleRead_def)
  from reach_step [OF this step_own [OF step_iterate]] have "loop_reach (sys False [7] 0 AtTest [] [7] [] False)" by simp
  from reach_step [OF this step_own [OF step_tasks]] have "loop_reach (sys False [] 0 (Running [7]) [] [7] [] False)"
    by (simp add: takeTasks_def)
  from reach_step [OF this step_quit_task [of _ 7 "[]" 1]]
  have "loop_reach (sys True [] 0 (Running [7]) [] [7] [] True)"
    by (simp add: perform_quit isInLoopThread_def)
  from reach_step [OF this step_own [OF step_task]] have "loop_reach (sys True [] 0 (Running []) [] [7] [7] True)" by simp
  from reach_step [OF this step_own [OF step_poll]] show ?thesis by simp
qed

section \<open>Properties\<close>

text \<open>
  C7: in every interleaving of the loop thread with any number of threads calling
  \<open>queueInLoop\<close> and \<open>quit\<close>, the tasks already run, the tasks of the batch not yet run and
  the tasks in the queue are together the submitted tasks in order of submission: nothing is
  lost, run twice or reordered.
\<close>

theorem queued_tasks_fifo:
  "loop_reach s \<Longrightarrow>
   executed s @ unstarted (sysPhase s) @ pendingTasks (sysLoop s) = submitted s"
  using loop_reach_inv [of s] by (simp add: fifo_inv_def)

theorem queued_tasks_fifo_witness:
  "\<exists>s :: nat loop_sys. loop_reach s \<and> pendingTasks (sysLoop s) = [7]
     \<and> executed s @ unstarted (sysPhase s) @ pendingTasks (sysLoop s) = submitted s"
  using queued_tasks_fifo [OF run_blocked] run_blocked
  by (intro exI [of _ "sys False [7] 1 Polling [] [7] [] False"]) simp

text \<open>
  C6: no lost wake-up. In every interleaving with any number of threads inside \<open>queueInLoop\<close> and \<open>quit\<close>:
  when the loop thread is blocked in \<^verbatim>\<open>poll\<close>, no such call is still in flight and the loop has not
  been stopped, a non-empty queue means that the wake-up descriptor is readable. The loop thread
  then gets on by itself: its own steps, in which \<^verbatim>\<open>poll\<close> returns only because that descriptor is
  readable, form a single run, and this run passes a state in which every submitted task has been
  executed.
\<close>

theorem no_lost_wakeup:
  assumes "loop_reach s" and "sysPhase s = Polling" and "inFlight s = []"
    and "pendingTasks (sysLoop s) \<noteq> []" and "\<not> stopLooping (sysLoop s)"
  shows "0 < wakeupCount (sysLoop s)
    \<and> (\<exists>s'. own_step\<^sup>*\<^sup>* s s' \<and> executed s' = submitted s \<and> (\<forall>t. own_step\<^sup>*\<^sup>* s t \<longrightarrow> own_step\<^sup>*\<^sup>* t s' \<or> own_step\<^sup>*\<^sup>* s' t))"
proof
  show wake: "0 < wakeupCount (sysLoop s)" using polling_alert [OF assms(1-3)] assms(4) by simp
  let ?s = "s\<lparr>sysLoop := loop_handleRead (sysLoop s), sysPhase := AtTest\<rparr>"
  have "own_step\<^sup>*\<^sup>* s ?s" using assms(2) wake by (rule run_from_poll)
  moreover have "\<exists>s'. own_step\<^sup>*\<^sup>* ?s s' \<and> executed s' = executed s @ pendingTasks (sysLoop s)"
    by (rule exI, rule conjI, rule run_from_test)
      (use assms in \<open>simp_all add: loop_handleRead_def\<close>)
  moreover have "executed s @ pendingTasks (sysLoop s) = submitted s"
    using loop_reach_inv [OF assms(1)] assms(2) by (simp add: fifo_inv_def)
  ultimately obtain s' where s': "own_step\<^sup>*\<^sup>* s s'" "executed s' = submitted s" by (metis rtranclp_trans)
  then show "\<exists>s'. own_step\<^sup>*\<^sup>* s s' \<and> executed s' = submitted s \<and> (\<forall>t. own_step\<^sup>*\<^sup>* s t \<longrightarrow> own_step\<^sup>*\<^sup>* t s' \<or> own_step\<^sup>*\<^sup>* s' t)"
    using own_run_linear by blast
qed

theorem no_lost_wakeup_witness:
  "\<exists>s s' :: nat loop_sys. loop_reach s \<and> sysPhase s = Polling \<and> executed s = [] \<and> own_step\<^sup>*\<^sup>* s s' \<and> executed s' = [7]"
  using no_lost_wakeup [OF run_blocked] run_blocked
  by - (rule exI [of _ "sys False [7] 1 Polling [] [7] [] False"], auto)

text \<open>
  C25: a \<open>quit\<close> from outside the tasks ends the loop. When no task of this run called
  \<open>quit\<close>, a stopped loop that is blocked in \<^verbatim>\<open>poll\<close>, with no call of another thread in flight, has a
  readable wake-up descriptor, and the single run of the loop thread's own steps, in which \<^verbatim>\<open>poll\<close>
  returns only because that descriptor is readable, leads out of \<^verbatim>\<open>loop()\<close> and ends there.
\<close>

theorem quit_reaches_poll:
  assumes "loop_reach s" and "sysPhase s = Polling" and "inFlight s = []"
    and "stopLooping (sysLoop s)" and "\<not> quitInTask s"
  shows "0 < wakeupCount (sysLoop s)
    \<and> (\<exists>s'. own_step\<^sup>*\<^sup>* s s' \<and> sysPhase s' = Idle \<and> loopTid (sysLoop s') = -1 \<and> (\<forall>t. own_step\<^sup>*\<^sup>* s t \<longrightarrow> own_step\<^sup>*\<^sup>* t s'))"
proof
  show wake: "0 < wakeupCount (sysLoop s)" using polling_alert [OF assms(1-3)] assms(4,5) by simp
  let ?s = "s\<lparr>sysLoop := loop_handleRead (sysLoop s), sysPhase := AtTest\<rparr>"
  let ?s' = "?s\<lparr>sysLoop := endLooping (sysLoop ?s), sysPhase := Idle\<rparr>"
  have "own_step\<^sup>*\<^sup>* s ?s" using assms(2) wake by (rule run_from_poll)
  moreover have "own_step ?s ?s'"
    using assms(4) by (intro step_exit) (simp_all add: loop_handleRead_def)
  ultimately have run: "own_step\<^sup>*\<^sup>* s ?s'" by (rule rtranclp.rtrancl_into_rtrancl)
  have "\<not> own_step ?s' t" for t by (simp add: own_step_iff)
  then have "own_step\<^sup>*\<^sup>* ?s' t \<Longrightarrow> t = ?s'" for t by (metis converse_rtranclpE)
  then have "own_step\<^sup>*\<^sup>* s t \<Longrightarrow> own_step\<^sup>*\<^sup>* t ?s'" for t using own_run_linear [OF run, of t] by blast
  with run show "\<exists>s'. own_step\<^sup>*\<^sup>* s s' \<and> sysPhase s' = Idle \<and> loopTid (sysLoop s') = -1 \<and> (\<forall>t. own_step\<^sup>*\<^sup>* s t \<longrightarrow> own_step\<^sup>*\<^sup>* t s')"
    by (intro exI [of _ ?s']) (simp add: endLooping_def)
qed

theorem quit_reaches_poll_witness:
  "\<exists>s s' :: nat loop_sys. loop_reach s \<and> sysPhase s = Polling \<and> own_step\<^sup>*\<^sup>* s s' \<and> sysPhase s' = Idle"
  using quit_reaches_poll [OF run_stopped] run_stopped
  by - (rule exI [of _ "sys True [] 1 Polling [] [] [] False"], auto)

text \<open>
  C32: the case excluded above happens. \<open>quit\<close> assumes that a call on the loop thread cannot
  precede a blocking poll, but the pending tasks run before \<^verbatim>\<open>poll\<close>: after a task has called
  \<open>quit\<close> the loop thread can sit in \<^verbatim>\<open>poll\<close> with the stop flag set, an unreadable descriptor
  and nobody about to write to it. From the moment of that \<open>quit\<close> on, no thread passes
  \<open>assertInLoopThread\<close>.
\<close>

theorem quit_in_task_blocks:
  "\<exists>s :: nat loop_sys. loop_reach s \<and> sysPhase s = Polling \<and> stopLooping (sysLoop s)
     \<and> wakeupCount (sysLoop s) = 0 \<and> inFlight s = [] \<and> executed s = submitted s
     \<and> (\<forall>tid. assertInLoopThread tid (sysLoop s) (Inr ()) = Inl Aborted)"
  using run_quit_in_task
  by (intro exI [of _ "sys True [] 0 Polling [] [7] [7] True"])
    (simp add: assertInLoopThread_def isInLoopThread_def)

text \<open>
  \<open>EventLoops::allocLoop\<close> is a fair round robin. From a fresh \<^verbatim>\<open>EventLoops\<close> with \<open>k > 0\<close>
  sub loops, \<open>n\<close> allocations return the sub loops 1, 2, \<dots>, k, 1, \<dots> and never index out of
  range; with \<open>k = 0\<close> they all return the object itself; after \<open>m * k\<close> allocations every sub
  loop has been chosen exactly \<open>m\<close> times.
\<close>

theorem allocLoop_round_robin:
  "(k > 0 \<longrightarrow> allocLoops n (newEventLoops k)
      = Inr (map (\<lambda>i. i mod k + 1) [0..<n], \<lparr>elSize = k, elNext = n mod k\<rparr>))
   \<and> (k = 0 \<longrightarrow> allocLoops n (newEventLoops k) = Inr (replicate n 0, newEventLoops k))
   \<and> (j < k \<longrightarrow> (\<exists>is e. allocLoops (m * k) (newEventLoops k) = Inr (is, e)
        \<and> count_list is (j + 1) = m))"
proof (intro conjI impI)
  have from_new: "allocLoops i (newEventLoops k)
      = Inr (map (\<lambda>i. i mod k + 1) [0..<i], \<lparr>elSize = k, elNext = i mod k\<rparr>)" if "0 < k" for i
    using allocLoops_from [of "newEventLoops k" i] that by (simp add: newEventLoops_def)
  show "allocLoops n (newEventLoops k) = Inr (map (\<lambda>i. i mod k + 1) [0..<n], \<lparr>elSize = k, elNext = n mod k\<rparr>)"
    if "0 < k" using that by (rule from_new)
  show "allocLoops n (newEventLoops k) = Inr (replicate n 0, newEventLoops k)" if "k = 0"
    using that by (induction n) (simp_all add: allocLoop_def newEventLoops_def)
  show "\<exists>is e. allocLoops (m * k) (newEventLoops k) = Inr (is, e) \<and> count_list is (j + 1) = m"
    if "j < k"
    using from_new [of "m * k"] count_list_mod [OF that, of m] that by simp
qed

theorem allocLoop_round_robin_example:
  "\<exists>e. allocLoops 5 (newEventLoops 3) = Inr ([1, 2, 3, 1, 2], e)"
  using allocLoop_round_robin [of 3 5 0 1] by (simp add: upt_rec)

end
