(* ===== verification/C_Strings.thy ===== *)
theory C_Strings
  imports Miniduo_Prelude
begin

text \<open>
  The functions of the C and C++ libraries on characters, strings and numbers that the sources
  use: words of a stream, \<^verbatim>\<open>substr\<close>, \<^verbatim>\<open>std::stoi\<close>, the conversions of the \<^verbatim>\<open>printf\<close> family and
  the conversions between integer types.
\<close>

section \<open>Model: the standard library\<close>

definition isspace :: "char \<Rightarrow> bool" where
  "isspace c = (c \<in> {CHR '' '', CHR 0x09, CHR 0x0A, CHR 0x0B, CHR 0x0C, CHR 0x0D})"

definition isdigit :: "char \<Rightarrow> bool" where
  "isdigit c = (48 \<le> (of_char c :: nat) \<and> (of_char c :: nat) \<le> 57)"

text \<open>\<^verbatim>\<open>stream >> str\<close>: the next word and the rest of the stream.\<close>

definition nextWord :: "string \<Rightarrow> string \<times> string" where
  "nextWord s =
     (let t = dropWhile isspace s
      in (takeWhile (\<lambda>c. \<not> isspace c) t, dropWhile (\<lambda>c. \<not> isspace c) t))"

text \<open>\<^verbatim>\<open>std::string::substr\<close> throws \<^verbatim>\<open>std::out_of_range\<close> when the position is past the end.\<close>

definition substr :: "string \<Rightarrow> nat \<Rightarrow> nat \<Rightarrow> string result" where
  "substr s pos n = (if length s < pos then Inl Uncaught else Inr (take n (drop pos s)))"

definition decimal :: "string \<Rightarrow> nat" where
  "decimal ds = foldl (\<lambda>a c. 10 * a + (of_char c - 48)) 0 ds"

text \<open>
  \<^verbatim>\<open>std::stoi\<close> in base ten: leading white space, an optional sign, the longest run of digits;
  no digit and a value outside \<^verbatim>\<open>int\<close> are exceptions.
\<close>

definition stoi :: "string \<Rightarrow> int result" where
  "stoi s =
     (let t = dropWhile isspace s;
          neg = (t \<noteq> [] \<and> hd t = CHR ''-'');
          u = (if t \<noteq> [] \<and> (hd t = CHR ''-'' \<or> hd t = CHR ''+'') then tl t else t);
          ds = takeWhile isdigit u;
          v = (if neg then - int (decimal ds) else int (decimal ds))
      in if ds = [] then Inl Uncaught
         else if v < - (2 ^ 31) \<or> 2 ^ 31 - 1 < v then Inl Uncaught
         else Inr v)"

text \<open>The conversion of an \<^verbatim>\<open>int\<close> to \<^verbatim>\<open>size_t\<close>.\<close>

definition size_of_int :: "int \<Rightarrow> nat" where
  "size_of_int i = nat (i mod int size_modulus)"

text \<open>\<^verbatim>\<open>c_str()\<close> as a function that expects a terminated string reads it.\<close>

definition c_str :: "string \<Rightarrow> string" where
  "c_str s = takeWhile (\<lambda>c. c \<noteq> CHR 0x00) s"

text \<open>The conversion \<^verbatim>\<open>%d\<close> of \<^verbatim>\<open>vsnprintf\<close>.\<close>

definition digit :: "nat \<Rightarrow> char" where
  "digit n = char_of (48 + n)"

fun showNat :: "nat \<Rightarrow> string" where
  "showNat n = (if n < 10 then [digit n] else showNat (n div 10) @ [digit (n mod 10)])"

declare showNat.simps [simp del]

definition showInt :: "int \<Rightarrow> string" where
  "showInt i = (if i < 0 then ''-'' @ showNat (nat (- i)) else showNat (nat i))"

text \<open>\<^verbatim>\<open>snprintf\<close> into an array of \<open>n\<close> bytes, read back as a string.\<close>

definition snprintf :: "nat \<Rightarrow> string \<Rightarrow> string" where
  "snprintf n s = take (n - 1) (c_str s)"

section \<open>Lemmas\<close>

lemma of_digit: "n < 10 \<Longrightarrow> (of_char (digit n) :: nat) = 48 + n"
  by (simp add: digit_def)

lemma isdigit_digit: "n < 10 \<Longrightarrow> isdigit (digit n)"
  by (simp add: isdigit_def of_digit)

lemma showNat_digits: "c \<in> set (showNat n) \<Longrightarrow> isdigit c"
proof (induction n rule: showNat.induct)
  case (1 n)
  then show ?case by (cases "n < 10") (auto simp: showNat.simps [of n] isdigit_digit)
qed

lemma decimal_snoc: "decimal (ds @ [c]) = 10 * decimal ds + (of_char c - 48)"
  by (simp add: decimal_def)

lemma decimal_showNat: "decimal (showNat n) = n"
proof (induction n rule: showNat.induct)
  case (1 n)
  show ?case
  proof (cases "n < 10")
    case True
    then show ?thesis by (simp add: showNat.simps [of n] decimal_def of_digit)
  next
    case False
    with 1 show ?thesis by (simp add: showNat.simps [of n] decimal_snoc of_digit)
  qed
qed

lemma showNat_not_Nil: "showNat n \<noteq> []"
  by (simp add: showNat.simps [of n])

lemma isdigit_facts: "isdigit c \<Longrightarrow> \<not> isspace c \<and> c \<noteq> CHR ''-'' \<and> c \<noteq> CHR ''+'' \<and> c \<noteq> CHR 0x0D"
  by (auto simp: isdigit_def isspace_def)

lemma stoi_showNat: "n < 2 ^ 31 \<Longrightarrow> stoi (showNat n) = Inr (int n)"
proof -
  assume n: "n < 2 ^ 31"
  have hd: "isdigit (hd (showNat n))" by (rule showNat_digits [of _ n]) (simp add: showNat_not_Nil)
  have "dropWhile isspace (showNat n) = showNat n"
    using hd isdigit_facts showNat_not_Nil by (cases "showNat n") auto
  moreover have "takeWhile isdigit (showNat n) = showNat n" using showNat_digits by simp
  ultimately show ?thesis using n hd isdigit_facts [OF hd] showNat_not_Nil
    by (simp add: stoi_def Let_def decimal_showNat del: takeWhile_eq_all_conv)
qed

lemma length_showNat: "n < 10 ^ Suc k \<Longrightarrow> length (showNat n) \<le> Suc k"
proof (induction k arbitrary: n)
  case 0
  then show ?case by (simp add: showNat.simps [of n])
next
  case (Suc k)
  have "n div 10 < 10 ^ Suc k" using Suc.prems by (simp add: less_mult_imp_div_less)
  from Suc.IH [OF this] show ?case by (simp add: showNat.simps [of n])
qed

lemma showInt_facts:
  assumes "-(2 ^ 31) \<le> i" and "i < 2 ^ 31"
  shows "length (showInt i) \<le> 11" and "CHR 0x00 \<notin> set (showInt i)"
proof -
  have "nat (- i) < 10 ^ Suc 9" "nat i < 10 ^ Suc 9" using assms by simp_all
  from this [THEN length_showNat] show "length (showInt i) \<le> 11" by (simp add: showInt_def)
  have "CHR 0x00 \<notin> set (showNat n)" for n using showNat_digits [of "CHR 0x00" n] by (auto simp: isdigit_def)
  then show "CHR 0x00 \<notin> set (showInt i)" by (simp add: showInt_def)
qed

lemma showInt_inj: "0 \<le> i \<Longrightarrow> 0 \<le> j \<Longrightarrow> showInt i = showInt j \<Longrightarrow> i = j"
proof -
  assume nonneg: "0 \<le> i" "0 \<le> j" and "showInt i = showInt j"
  then have "decimal (showNat (nat i)) = decimal (showNat (nat j))" by (simp add: showInt_def)
  then show "i = j" using nonneg by (simp add: decimal_showNat)
qed

end
