(* ===== verification/Http_Message.thy ===== *)
theory Http_Message
  imports Byte_Buffer C_Strings
begin

text \<open>
  The HTTP messages of \<^verbatim>\<open>miniduo/http/httpmsg.h\<close> and \<^verbatim>\<open>miniduo/http/httpmsg.cpp\<close>: the
  incremental request parser \<^verbatim>\<open>HttpRequest::tryDecode\<close> with its state machine over a
  buffer, and the response builder of \<^verbatim>\<open>HttpResponse\<close>. The loop of \<open>tryDecode\<close> is a
  \<open>partial_function\<close>, so that not returning would be the value \<open>None\<close>; it is shown to
  return on every buffer. A specification \<open>decodeS\<close> on plain strings is refined by it, and
  carries the round trip and the independence of the segmentation of the input.
\<close>

section \<open>Model: requests\<close>

datatype CHECK_STATE = EXPECT_REQUESTLINE | EXPECT_HEADER | EXPECT_CONTENT | GET_ALL

datatype LINE_STATUS = LINE_OK | LINE_BAD | LINE_OPEN

datatype HTTP_CODE = NO_REQUEST | GET_REQUEST | BAD_REQUEST | NO_RESOURCE | FORBIDDEN_REQUEST
  | FILE_REQUEST | INTERNAL_ERROR | CLOSED_CONNECTION

datatype METHOD = METHOD_INVALID | METHOD_GET | METHOD_HEAD | METHOD_POST | METHOD_PUT
  | METHOD_DELETE | METHOD_TRACE | METHOD_OPTIONS | METHOD_CONNECT | METHOD_PATCH

datatype VERSION = VERSION_INVALID | HTTP10 | HTTP11

record http_request =
  checkstate :: CHECK_STATE
  methodType :: METHOD
  methodStr :: string
  URL :: string
  query :: string
  versionType :: VERSION
  version :: string
  headers :: "string \<rightharpoonup> string"
  contentLength :: int
  content :: string

text \<open>The constructor leaves \<^verbatim>\<open>versionType_\<close> uninitialised; \<open>v\<close> is whatever it holds.\<close>

definition newHttpRequest :: "VERSION \<Rightarrow> http_request" where
  "newHttpRequest v =
     \<lparr>checkstate = EXPECT_REQUESTLINE, methodType = METHOD_INVALID, methodStr = [], URL = [],
      query = [], versionType = v, version = [], headers = Map.empty, contentLength = 0,
      content = []\<rparr>"

definition clearRequest :: "http_request \<Rightarrow> http_request" where
  "clearRequest r = r\<lparr>checkstate := EXPECT_REQUESTLINE, methodType := METHOD_INVALID, methodStr := [],
     URL := [], query := [], versionType := VERSION_INVALID, version := [], headers := Map.empty,
     contentLength := 0, content := []\<rparr>"

definition supportedMethods :: "string \<rightharpoonup> METHOD" where
  "supportedMethods = [''GET'' \<mapsto> METHOD_GET, ''POST'' \<mapsto> METHOD_POST]"

definition supportedVersions :: "string \<rightharpoonup> VERSION" where
  "supportedVersions =
     [''HTTP/1.0'' \<mapsto> HTTP10, ''HTTP/1.1'' \<mapsto> HTTP11, ''http/1.0'' \<mapsto> HTTP10, ''http/1.1'' \<mapsto> HTTP11]"

definition parseLine :: "buffer \<Rightarrow> LINE_STATUS" where
  "parseLine buf =
     (if findCRLF buf \<noteq> None then LINE_OK
      else if CHR 0x0A \<in> set (readString buf (readableBytes buf)) then LINE_BAD
      else LINE_OPEN)"

definition retrieveLine :: "buffer \<Rightarrow> (string \<times> buffer) result" where
  "retrieveLine buf =
     (case findCRLF buf of
        None \<Rightarrow> Inl AssertFailed
      | Some crlf \<Rightarrow>
          bindR (retrieveUntil (crlf + 2) buf)
            (\<lambda>buf1. Inr (readString buf (crlf - beginRead buf), buf1)))"

text \<open>The part of \<^verbatim>\<open>parseRequstline\<close> after the line has been retrieved.\<close>

definition requestLine :: "string \<Rightarrow> http_request \<Rightarrow> HTTP_CODE \<times> http_request" where
  "requestLine line r =
     (let (mtd, ss1) = nextWord line;
          (url, ss2) = nextWord ss1;
          (ver, ss3) = nextWord ss2
      in case supportedMethods mtd of
           None \<Rightarrow> (BAD_REQUEST, r)
         | Some mt \<Rightarrow>
             (let r1 = r\<lparr>methodStr := mtd, methodType := mt\<rparr>;
                  url1 = (if search ''http://'' url = Some 0 then drop 7 url else url)
              in case search ''/'' url1 of
                   None \<Rightarrow> (BAD_REQUEST, r1)
                 | Some idx \<Rightarrow>
                     (let url2 = drop idx url1;
                          r2 = (case search ''?'' url2 of
                                  Some q \<Rightarrow> r1\<lparr>URL := take q url2, query := drop (q + 1) url2\<rparr>
                                | None \<Rightarrow> r1\<lparr>URL := url2\<rparr>)
                      in case supportedVersions ver of
                           None \<Rightarrow> (BAD_REQUEST, r2)
                         | Some vt \<Rightarrow>
                             (NO_REQUEST, r2\<lparr>version := ver, versionType := vt,
                                            checkstate := EXPECT_HEADER\<rparr>))))"

definition parseRequstline :: "http_request \<Rightarrow> buffer \<Rightarrow> (HTTP_CODE \<times> http_request \<times> buffer) result" where
  "parseRequstline r buf =
     bindR (retrieveLine buf)
       (\<lambda>(line, buf1). let (code, r1) = requestLine line r in Inr (code, r1, buf1))"

text \<open>The part of \<^verbatim>\<open>parseHeaders\<close> after the line has been retrieved.\<close>

definition headerLine :: "string \<Rightarrow> http_request \<Rightarrow> (HTTP_CODE \<times> http_request) result" where
  "headerLine line r =
     (if line = [] then
        (if headers r ''Content-length'' \<noteq> None \<and> 0 < contentLength r
         then Inr (NO_REQUEST, r\<lparr>checkstate := EXPECT_CONTENT\<rparr>)
         else Inr (GET_REQUEST, r\<lparr>checkstate := GET_ALL\<rparr>))
      else case search '':'' line of
        Some idx \<Rightarrow>
          bindR (substr line 0 idx) (\<lambda>field.
          bindR (substr line (idx + 2) (length line - (idx + 2))) (\<lambda>val.
            let r1 = r\<lparr>headers := (headers r)(field \<mapsto> val)\<rparr>
            in if field = ''Content-length''
               then bindR (stoi val) (\<lambda>n. Inr (NO_REQUEST, r1\<lparr>contentLength := n\<rparr>))
               else Inr (NO_REQUEST, r1)))
      | None \<Rightarrow> Inr (NO_REQUEST, r))"

definition parseHeaders :: "http_request \<Rightarrow> buffer \<Rightarrow> (HTTP_CODE \<times> http_request \<times> buffer) result" where
  "parseHeaders r buf =
     bindR (retrieveLine buf)
       (\<lambda>(line, buf1). bindR (headerLine line r) (\<lambda>(code, r1). Inr (code, r1, buf1)))"

definition parseContent :: "http_request \<Rightarrow> buffer \<Rightarrow> (HTTP_CODE \<times> http_request \<times> buffer) result" where
  "parseContent r buf =
     (if readableBytes buf < size_of_int (contentLength r) then Inr (NO_REQUEST, r, buf)
      else let r1 = r\<lparr>content := readString buf (size_of_int (contentLength r))\<rparr>
           in bindR (retrieve (size_of_int (contentLength r)) buf)
                (\<lambda>buf1. Inr (GET_REQUEST, r1\<lparr>checkstate := GET_ALL\<rparr>, buf1)))"

text \<open>One turn of the loop of \<^verbatim>\<open>tryDecode\<close>: it returns a code, or goes round again.\<close>

datatype decode_next =
    Done HTTP_CODE http_request buffer
  | Again LINE_STATUS http_request buffer

definition leaveLoop :: "LINE_STATUS \<Rightarrow> HTTP_CODE" where
  "leaveLoop linestatus = (if linestatus = LINE_OPEN then NO_REQUEST else BAD_REQUEST)"

definition decodeTurn :: "LINE_STATUS \<Rightarrow> http_request \<Rightarrow> buffer \<Rightarrow> decode_next result" where
  "decodeTurn linestatus r buf =
     (if checkstate r = GET_ALL then Inr (Done (leaveLoop linestatus) r buf)
      else let linestatus1 = (if checkstate r = EXPECT_CONTENT then linestatus else parseLine buf)
      in if \<not> (checkstate r = EXPECT_CONTENT \<or> linestatus1 = LINE_OK)
         then Inr (Done (leaveLoop linestatus1) r buf)
         else case checkstate r of
           EXPECT_REQUESTLINE \<Rightarrow>
             bindR (parseRequstline r buf) (\<lambda>(retcode, r1, buf1).
               Inr (if retcode = BAD_REQUEST then Done BAD_REQUEST r1 buf1
                    else Again linestatus1 r1 buf1))
         | EXPECT_HEADER \<Rightarrow>
             bindR (parseHeaders r buf) (\<lambda>(retcode, r1, buf1).
               Inr (if retcode = BAD_REQUEST then Done BAD_REQUEST r1 buf1
                    else if retcode = GET_REQUEST then Done GET_REQUEST r1 buf1
                    else Again linestatus1 r1 buf1))
         | EXPECT_CONTENT \<Rightarrow>
             bindR (parseContent r buf) (\<lambda>(retcode, r1, buf1).
               Inr (if retcode = GET_REQUEST then Done GET_REQUEST r1 buf1
                    else Done NO_REQUEST r1 buf1))
         | GET_ALL \<Rightarrow> Inr (Done INTERNAL_ERROR r buf))"

partial_function (option) decodeLoop ::
    "LINE_STATUS \<Rightarrow> http_request \<Rightarrow> buffer \<Rightarrow> (HTTP_CODE \<times> http_request \<times> buffer) result option" where
  "decodeLoop linestatus r buf =
     (case decodeTurn linestatus r buf of
        Inl e \<Rightarrow> Some (Inl e)
      | Inr (Done code r1 buf1) \<Rightarrow> Some (Inr (code, r1, buf1))
      | Inr (Again linestatus1 r1 buf1) \<Rightarrow> decodeLoop linestatus1 r1 buf1)"

definition tryDecode :: "http_request \<Rightarrow> buffer \<Rightarrow> (HTTP_CODE \<times> http_request \<times> buffer) result option" where
  "tryDecode r buf = decodeLoop LINE_OK r buf"

section \<open>Model: responses\<close>

record http_response =
  statusCode :: int
  statusStr :: string
  respHeaders :: string
  body :: string
  closeConnection :: bool
  respComplete :: bool
  filefd :: int

text \<open>The constructor leaves \<^verbatim>\<open>statusCode_\<close> uninitialised; \<open>code\<close> is whatever it holds.\<close>

definition newHttpResponse :: "int \<Rightarrow> http_response" where
  "newHttpResponse code = \<lparr>statusCode = code, statusStr = [], respHeaders = [], body = [],
     closeConnection = True, respComplete = False, filefd = -1\<rparr>"

text \<open>\<^verbatim>\<open>clear()\<close> also closes the file descriptor; the closed descriptors are returned.\<close>

definition clearResponse :: "http_response \<Rightarrow> int list \<times> http_response" where
  "clearResponse p =
     (let p1 = p\<lparr>statusCode := 0, statusStr := [], respHeaders := [], body := [],
                 closeConnection := True, respComplete := False\<rparr>
      in if filefd p \<noteq> -1 then ([filefd p], p1\<lparr>filefd := -1\<rparr>) else ([], p1))"

text \<open>\<^verbatim>\<open>responseStatus[status]\<close>: the map inserts a pair of empty strings for other codes.\<close>

definition responseStatus :: "int \<Rightarrow> string \<times> string" where
  "responseStatus status =
     (if status = 200 then (''OK'', [])
      else if status = 400 then (''Bad Request'',
        ''Your request has bad syntax or is inherently impossible to staisfy.'' @ [CHR 0x0A])
      else if status = 403 then (''Forbidden'',
        ''You do not have permission to get file form this server.'' @ [CHR 0x0A])
      else if status = 404 then (''Not Found'',
        ''The requested file was not found on this server.'' @ [CHR 0x0A])
      else if status = 500 then (''Internal Error'',
        ''There was an unusual problem serving the request file.'' @ [CHR 0x0A])
      else ([], []))"

text \<open>
  \<^verbatim>\<open>headersAppend(format, ...)\<close>: \<open>txt\<close> is the formatted string. At most 2047 characters of
  it reach the zeroed array of 2048, and the whole array is appended.
\<close>

definition formatBuffer :: "string \<Rightarrow> string" where
  "formatBuffer txt = take 2047 txt @ replicate (2048 - min 2047 (length txt)) (CHR 0x00)"

definition headersAppend :: "string \<Rightarrow> http_response \<Rightarrow> http_response" where
  "headersAppend line p = p\<lparr>respHeaders := respHeaders p @ line\<rparr>"

definition headersAppendFormat :: "string \<Rightarrow> http_response \<Rightarrow> http_response" where
  "headersAppendFormat txt p = headersAppend (formatBuffer txt) p"

definition addStatusLine :: "int \<Rightarrow> http_response \<Rightarrow> http_response" where
  "addStatusLine status p =
     headersAppendFormat
       (''HTTP/1.1 '' @ showInt status @ '' '' @ fst (responseStatus status) @ kCRLF) p"

definition addContentLength :: "int \<Rightarrow> http_response \<Rightarrow> http_response" where
  "addContentLength len p = headersAppendFormat (''Content-Length:'' @ showInt len @ kCRLF) p"

definition addContentType :: "http_response \<Rightarrow> http_response" where
  "addContentType p = headersAppendFormat (''Content-Type:'' @ ''text/html'' @ kCRLF) p"

definition addBlankLine :: "http_response \<Rightarrow> http_response" where
  "addBlankLine p = headersAppendFormat kCRLF p"

definition addHeaders :: "int \<Rightarrow> http_response \<Rightarrow> http_response" where
  "addHeaders len p = addBlankLine (addContentLength len p)"

definition addBody :: "string \<Rightarrow> http_response \<Rightarrow> http_response" where
  "addBody txt p = p\<lparr>body := body p @ txt\<rparr>"

record http_context =
  ctxReq :: http_request
  ctxResp :: http_response

section \<open>Specification on strings\<close>

definition splitLine :: "string \<Rightarrow> (string \<times> string) option" where
  "splitLine s = map_option (\<lambda>n. (take n s, drop (n + 2) s)) (search kCRLF s)"

lemma splitLine_shorter: "splitLine s = Some (line, rest) \<Longrightarrow> length rest < length s"
  using search_SomeD [of kCRLF s] by (auto simp: splitLine_def kCRLF_def)

text \<open>The code for a buffered input without a complete line.\<close>

definition noLine :: "string \<Rightarrow> HTTP_CODE" where
  "noLine s = (if CHR 0x0A \<in> set s then BAD_REQUEST else NO_REQUEST)"

function decodeS :: "http_request \<Rightarrow> string \<Rightarrow> (HTTP_CODE \<times> http_request \<times> string) result" where
  "decodeS r s =
     (case checkstate r of
        GET_ALL \<Rightarrow> Inr (BAD_REQUEST, r, s)
      | EXPECT_CONTENT \<Rightarrow>
          (let n = nat (contentLength r)
           in if length s < n then Inr (NO_REQUEST, r, s)
              else Inr (GET_REQUEST, r\<lparr>content := take n s, checkstate := GET_ALL\<rparr>, drop n s))
      | EXPECT_REQUESTLINE \<Rightarrow>
          (case splitLine s of
             None \<Rightarrow> Inr (noLine s, r, s)
           | Some (line, rest) \<Rightarrow>
               (case requestLine line r of
                  (code, r1) \<Rightarrow> if code = BAD_REQUEST then Inr (BAD_REQUEST, r1, rest)
                                 else decodeS r1 rest))
      | EXPECT_HEADER \<Rightarrow>
          (case splitLine s of
             None \<Rightarrow> Inr (noLine s, r, s)
           | Some (line, rest) \<Rightarrow>
               (case headerLine line r of
                  Inl e \<Rightarrow> Inl e
                | Inr (code, r1) \<Rightarrow> if code = GET_REQUEST then Inr (GET_REQUEST, r1, rest)
                                    else decodeS r1 rest)))"
  by pat_completeness auto
termination by (relation "measure (\<lambda>(r, s). length s)") (auto dest: splitLine_shorter)

declare decodeS.simps [simp del]

text \<open>
  The values \<^verbatim>\<open>contentLength_\<close> can take: it is an \<^verbatim>\<open>int\<close>, and positive when content is expected.
\<close>

definition request_ok :: "http_request \<Rightarrow> bool" where
  "request_ok r \<longleftrightarrow> - (2 ^ 31) \<le> contentLength r \<and> contentLength r < 2 ^ 31
     \<and> (checkstate r = EXPECT_CONTENT \<longrightarrow> 0 < contentLength r)"

text \<open>A request as a client prints it; a body goes with a \<^verbatim>\<open>Content-length\<close> header.\<close>

definition printHeader :: "string \<times> string \<Rightarrow> string" where
  "printHeader fv = fst fv @ '': '' @ snd fv @ kCRLF"

definition printRequest :: "string \<Rightarrow> string \<Rightarrow> string \<Rightarrow> string \<Rightarrow> (string \<times> string) list \<Rightarrow> string \<Rightarrow> string" where
  "printRequest mtd path qry ver hs cont =
     mtd @ '' '' @ path @ ''?'' @ qry @ '' '' @ ver @ kCRLF
     @ concat (map printHeader hs)
     @ (if cont = [] then [] else printHeader (''Content-length'', showNat (length cont)))
     @ kCRLF @ cont"

definition plain :: "char \<Rightarrow> string \<Rightarrow> bool" where
  "plain sep s \<longleftrightarrow> CHR 0x0D \<notin> set s \<and> sep \<notin> set s"

definition printable :: "string \<Rightarrow> string \<Rightarrow> string \<Rightarrow> string \<Rightarrow> (string \<times> string) list \<Rightarrow> string \<Rightarrow> bool" where
  "printable mtd path qry ver hs cont \<longleftrightarrow>
     supportedMethods mtd \<noteq> None \<and> supportedVersions ver \<noteq> None
     \<and> take 1 path = ''/'' \<and> CHR ''?'' \<notin> set path \<and> list_all (\<lambda>c. \<not> isspace c) (path @ qry)
     \<and> list_all (\<lambda>(f, v). plain (CHR '':'') f \<and> f \<noteq> ''Content-length'' \<and> CHR 0x0D \<notin> set v) hs
     \<and> length cont < 2 ^ 31"

text \<open>The request that printing and parsing should give back.\<close>

definition parsedRequest :: "string \<Rightarrow> string \<Rightarrow> string \<Rightarrow> string \<Rightarrow> (string \<times> string) list \<Rightarrow> string \<Rightarrow> http_request" where
  "parsedRequest mtd path qry ver hs cont =
     \<lparr>checkstate = GET_ALL, methodType = the (supportedMethods mtd), methodStr = mtd, URL = path,
      query = qry, versionType = the (supportedVersions ver), version = ver,
      headers = map_of ((if cont = [] then [] else [(''Content-length'', showNat (length cont))]) @ rev hs),
      contentLength = int (length cont), content = cont\<rparr>"

section \<open>Refinement of the specification\<close>

lemma retrieveLine_ok:
  assumes "buf_ok b"
  shows "case splitLine (contents b) of
           None \<Rightarrow> findCRLF b = None
         | Some (line, rest) \<Rightarrow> findCRLF b \<noteq> None
             \<and> (\<exists>b1. retrieveLine b = Inr (line, b1) \<and> buf_ok b1 \<and> contents b1 = rest)"
proof (cases "findCRLF b")
  case None
  then show ?thesis by (simp add: splitLine_def findCRLF_None)
next
  case (Some p)
  note f = findCRLF_Some [OF assms Some]
  have "readerIndex b \<le> p + 2" using f(2) by simp
  from retrieveUntil_ok [OF assms this f(3)] obtain b1 where
    "retrieveUntil (p + 2) b = Inr b1" "buf_ok b1"
    and c: "contents b1 = drop (p + 2 - readerIndex b) (contents b)" by blast
  moreover have "p - readerIndex b \<le> readableBytes b" using f(2,3) assms by simp
  from readString_contents [OF assms this]
  have "readString b (p - beginRead b) = take (p - readerIndex b) (contents b)"
    by (simp add: beginRead_def)
  moreover have "p + 2 - readerIndex b = p - readerIndex b + 2" using f(2) by simp
  ultimately show ?thesis using f(1) Some by (simp add: splitLine_def retrieveLine_def)
qed

lemma parseLine_eq:
  assumes "buf_ok b"
  shows "parseLine b = (if splitLine (contents b) \<noteq> None then LINE_OK
           else if CHR 0x0A \<in> set (contents b) then LINE_BAD else LINE_OPEN)"
proof -
  have "readString b (readableBytes b) = contents b"
    using readString_contents [OF assms le_refl] length_contents [OF assms] by simp
  then show ?thesis by (simp add: parseLine_def splitLine_def findCRLF_None)
qed

lemma requestLine_ok:
  "requestLine line r = (code, r1) \<Longrightarrow> request_ok r \<Longrightarrow> checkstate r = EXPECT_REQUESTLINE \<Longrightarrow>
   request_ok r1 \<and> (code = BAD_REQUEST \<or> checkstate r1 = EXPECT_HEADER)"
  by (auto simp: requestLine_def request_ok_def Let_def split: option.splits prod.splits if_splits)

lemma stoi_range: "stoi s = Inr n \<Longrightarrow> - (2 ^ 31) \<le> n \<and> n < 2 ^ 31"
  by (auto simp: stoi_def Let_def split: if_splits)

lemma headerLine_ok:
  "headerLine line r = Inr (code, r1) \<Longrightarrow> request_ok r \<Longrightarrow> checkstate r = EXPECT_HEADER \<Longrightarrow>
   request_ok r1 \<and> code \<in> {NO_REQUEST, GET_REQUEST}"
  by (auto simp: headerLine_def request_ok_def Let_def result_simps dest: stoi_range
      split: option.splits if_splits)

lemma size_of_int_eq: "0 \<le> i \<Longrightarrow> i < 2 ^ 31 \<Longrightarrow> size_of_int i = nat i"
  by (simp add: size_of_int_def size_modulus_def)

lemma parseContent_ok:
  assumes "buf_ok b" and "request_ok r" and "checkstate r = EXPECT_CONTENT"
  defines "n \<equiv> nat (contentLength r)"
  shows "if length (contents b) < n then parseContent r b = Inr (NO_REQUEST, r, b)
         else \<exists>b1. parseContent r b
                = Inr (GET_REQUEST, r\<lparr>content := take n (contents b), checkstate := GET_ALL\<rparr>, b1)
              \<and> buf_ok b1 \<and> contents b1 = drop n (contents b)"
proof -
  have n: "size_of_int (contentLength r) = n"
    using assms(2,3) by (simp add: n_def request_ok_def size_of_int_eq)
  show ?thesis
  proof (cases "length (contents b) < n")
    case True
    with n assms(1) show ?thesis by (simp add: parseContent_def length_contents)
  next
    case False
    then have le: "n \<le> readableBytes b" using assms(1) by (simp add: length_contents)
    from retrieve_ok [OF assms(1) le] obtain b1 where
      "retrieve n b = Inr b1" "buf_ok b1" "contents b1 = drop n (contents b)" by blast
    with n le False readString_contents [OF assms(1) le] show ?thesis
      by (simp add: parseContent_def Let_def)
  qed
qed

text \<open>The result of the code against the result of the specification; \<open>None\<close> never agrees.\<close>

definition decode_agrees :: "(HTTP_CODE \<times> http_request \<times> buffer) result option
    \<Rightarrow> (HTTP_CODE \<times> http_request \<times> string) result \<Rightarrow> bool" where
  "decode_agrees res spec \<longleftrightarrow>
     (case res of
        None \<Rightarrow> False
      | Some (Inl e) \<Rightarrow> spec = Inl e
      | Some (Inr (code, r1, b1)) \<Rightarrow>
          buf_ok b1 \<and> request_ok r1 \<and> spec = Inr (code, r1, contents b1))"

lemma turn_no_line:
  assumes "buf_ok b" and "splitLine (contents b) = None"
    and "checkstate r = EXPECT_REQUESTLINE \<or> checkstate r = EXPECT_HEADER"
  shows "decodeTurn ls r b = Inr (Done (noLine (contents b)) r b)"
  using assms by (auto simp: decodeTurn_def Let_def parseLine_eq noLine_def leaveLoop_def)

lemma turn_requestline:
  assumes "buf_ok b" and "splitLine (contents b) = Some (line, rest)"
    and "checkstate r = EXPECT_REQUESTLINE"
  obtains b1 where "buf_ok b1" "contents b1 = rest"
    "decodeTurn ls r b = (case requestLine line r of (code, r1) \<Rightarrow>
       Inr (if code = BAD_REQUEST then Done BAD_REQUEST r1 b1 else Again LINE_OK r1 b1))"
proof -
  from retrieveLine_ok [OF assms(1)] assms(2) obtain b1 where
    "retrieveLine b = Inr (line, b1)" "buf_ok b1" "contents b1 = rest" by auto
  with that assms show thesis
    by (auto simp: decodeTurn_def parseLine_eq parseRequstline_def Let_def split: prod.splits)
qed

lemma turn_header:
  assumes "buf_ok b" and "splitLine (contents b) = Some (line, rest)"
    and "checkstate r = EXPECT_HEADER" and "request_ok r"
  obtains b1 where "buf_ok b1" "contents b1 = rest"
    "decodeTurn ls r b = (case headerLine line r of Inl e \<Rightarrow> Inl e | Inr (code, r1) \<Rightarrow>
       Inr (if code = GET_REQUEST then Done GET_REQUEST r1 b1 else Again LINE_OK r1 b1))"
proof -
  from retrieveLine_ok [OF assms(1)] assms(2) obtain b1 where
    b1: "retrieveLine b = Inr (line, b1)" "buf_ok b1" "contents b1 = rest" by auto
  have "code \<noteq> BAD_REQUEST" if "headerLine line r = Inr (code, r1)" for code r1
    using headerLine_ok [OF that assms(4,3)] by auto
  with b1 assms show thesis
    by (intro that [OF b1(2,3)], cases "headerLine line r")
      (auto simp: decodeTurn_def parseLine_eq parseHeaders_def Let_def)
qed

lemma decodeLoop_refines:
  "contents b = s \<Longrightarrow> buf_ok b \<Longrightarrow> request_ok r \<Longrightarrow>
   decode_agrees (decodeLoop LINE_OK r b) (decodeS r s)"
proof (induction r s arbitrary: b rule: decodeS.induct)
  case (1 r s)
  note [simp] = decodeLoop.simps [of LINE_OK r b] decodeS.simps [of r s] decode_agrees_def
  show ?case
  proof (cases "checkstate r")
    case GET_ALL
    with 1 show ?thesis by (simp add: decodeTurn_def leaveLoop_def)
  next
    case EXPECT_CONTENT
    from parseContent_ok [OF 1(4,5) this] 1(3-5) EXPECT_CONTENT show ?thesis
      by (auto simp: decodeTurn_def Let_def request_ok_def split: if_splits)
  next
    case EXPECT_REQUESTLINE
    show ?thesis
    proof (cases "splitLine s")
      case None
      with 1 EXPECT_REQUESTLINE show ?thesis by (simp add: turn_no_line)
    next
      case (Some lr)
      then obtain line rest where lr: "splitLine s = Some (line, rest)" by (cases lr) auto
      obtain code r1 where req: "requestLine line r = (code, r1)" by (cases "requestLine line r")
      have lr': "splitLine (contents b) = Some (line, rest)" using lr 1(3) by simp
      obtain b1 where
        b1: "buf_ok b1" "contents b1 = rest" "decodeTurn LINE_OK r b = (case requestLine line r of
          (code, r1) \<Rightarrow> Inr (if code = BAD_REQUEST then Done BAD_REQUEST r1 b1 else Again LINE_OK r1 b1))"
        by (rule turn_requestline [OF 1(4) lr' EXPECT_REQUESTLINE])
      from requestLine_ok [OF req 1(5) EXPECT_REQUESTLINE] have ok: "request_ok r1" by simp
      show ?thesis
      proof (cases "code = BAD_REQUEST")
        case False
        from 1(1) [OF EXPECT_REQUESTLINE lr refl req [symmetric] False b1(2,1) ok] False
        show ?thesis using lr req b1 EXPECT_REQUESTLINE by simp
      qed (use lr req b1 ok EXPECT_REQUESTLINE in simp)
    qed
  next
    case EXPECT_HEADER
    show ?thesis
    proof (cases "splitLine s")
      case None
      with 1 EXPECT_HEADER show ?thesis by (simp add: turn_no_line)
    next
      case (Some lr)
      then obtain line rest where lr: "splitLine s = Some (line, rest)" by (cases lr) auto
      have lr': "splitLine (contents b) = Some (line, rest)" using lr 1(3) by simp
      obtain b1 where
        b1: "buf_ok b1" "contents b1 = rest" "decodeTurn LINE_OK r b = (case headerLine line r of
          Inl e \<Rightarrow> Inl e | Inr (code, r1) \<Rightarrow>
          Inr (if code = GET_REQUEST then Done GET_REQUEST r1 b1 else Again LINE_OK r1 b1))"
        by (rule turn_header [OF 1(4) lr' EXPECT_HEADER 1(5)])
      show ?thesis
      proof (cases "headerLine line r")
        case (Inl e)
        with lr b1 EXPECT_HEADER show ?thesis by simp
      next
        case (Inr cr)
        then obtain code r1 where hdr: "headerLine line r = Inr (code, r1)" by (cases cr) auto
        from headerLine_ok [OF hdr 1(5) EXPECT_HEADER] have ok: "request_ok r1" by simp
        show ?thesis
        proof (cases "code = GET_REQUEST")
          case False
          from 1(2) [OF EXPECT_HEADER lr refl hdr refl False b1(2,1) ok] False
          show ?thesis using lr hdr b1 EXPECT_HEADER by simp
        qed (use lr hdr b1 ok EXPECT_HEADER in simp)
      qed
    qed
  qed
qed

section \<open>Segmentation of the input\<close>

lemma splitLine_append: "splitLine s = Some (line, rest) \<Longrightarrow> splitLine (s @ t) = Some (line, rest @ t)"
  using search_append [of kCRLF s _ t] search_SomeD [of kCRLF s]
  by (auto simp: splitLine_def kCRLF_def)

lemma decodeS_segment:
  "decodeS r s = Inr (NO_REQUEST, r1, s1) \<Longrightarrow> decodeS r (s @ t) = decodeS r1 (s1 @ t)"
proof (induction r s rule: decodeS.induct)
  case (1 r s)
  note eq = 1(3)
  have stop: ?case if "r1 = r" "s1 = s" using that by simp
  show ?case
  proof (cases "checkstate r")
    case GET_ALL
    with eq show ?thesis by (simp add: decodeS.simps [of r s])
  next
    case EXPECT_CONTENT
    with eq show ?thesis by (intro stop) (auto simp: decodeS.simps [of r s] Let_def split: if_splits)
  next
    case EXPECT_REQUESTLINE
    show ?thesis
    proof (cases "splitLine s")
      case None
      with eq EXPECT_REQUESTLINE show ?thesis by (intro stop) (auto simp: decodeS.simps [of r s])
    next
      case (Some lr)
      then obtain line rest where lr: "splitLine s = Some (line, rest)" by (cases lr) auto
      obtain code r2 where req: "requestLine line r = (code, r2)" by (cases "requestLine line r")
      with eq EXPECT_REQUESTLINE lr have "code \<noteq> BAD_REQUEST" "decodeS r2 rest = Inr (NO_REQUEST, r1, s1)"
        by (auto simp: decodeS.simps [of r s] split: if_splits)
      with 1(1) [OF EXPECT_REQUESTLINE lr refl req [symmetric]] show ?thesis
        using EXPECT_REQUESTLINE splitLine_append [OF lr] req by (simp add: decodeS.simps [of r "s @ t"])
    qed
  next
    case EXPECT_HEADER
    show ?thesis
    proof (cases "splitLine s")
      case None
      with eq EXPECT_HEADER show ?thesis by (intro stop) (auto simp: decodeS.simps [of r s])
    next
      case (Some lr)
      then obtain line rest where lr: "splitLine s = Some (line, rest)" by (cases lr) auto
      with eq EXPECT_HEADER obtain code r2 where hdr: "headerLine line r = Inr (code, r2)"
        "code \<noteq> GET_REQUEST" "decodeS r2 rest = Inr (NO_REQUEST, r1, s1)"
        by (auto simp: decodeS.simps [of r s] split: if_splits sum.splits prod.splits)
      with 1(2) [OF EXPECT_HEADER lr refl hdr(1) refl] show ?thesis
        using EXPECT_HEADER splitLine_append [OF lr] by (simp add: decodeS.simps [of r "s @ t"])
    qed
  qed
qed

text \<open>What a caller of \<open>tryDecode\<close> can see: the code, the request and the bytes left over.\<close>

definition observe :: "(HTTP_CODE \<times> http_request \<times> buffer) result option
    \<Rightarrow> (HTTP_CODE \<times> http_request \<times> string) result option" where
  "observe = map_option (mapR (\<lambda>(code, r, b). (code, r, contents b)))"

lemma agrees_observe: "decode_agrees res spec \<Longrightarrow> observe res = Some spec"
  by (auto simp: decode_agrees_def observe_def split: option.splits sum.splits prod.splits)

lemma tryDecode_refines:
  assumes "buf_ok b" and "request_ok r"
  shows "observe (tryDecode r b) = Some (decodeS r (contents b))"
    and "tryDecode r b = Some (Inr (code, r1, b1)) \<Longrightarrow> buf_ok b1 \<and> request_ok r1"
  using decodeLoop_refines [OF refl assms] agrees_observe
  by (auto simp: tryDecode_def decode_agrees_def)

lemma tryDecode_result:
  assumes "buf_ok b" and "request_ok r" and "decodeS r (contents b) = Inr (code, r1, s1)"
  obtains b1 where "tryDecode r b = Some (Inr (code, r1, b1))" "buf_ok b1" "request_ok r1" "contents b1 = s1"
proof -
  from decodeLoop_refines [OF refl assms(1,2)] assms(3) obtain b1 where
    "tryDecode r b = Some (Inr (code, r1, b1))" "contents b1 = s1"
    by (auto simp: decode_agrees_def tryDecode_def split: option.splits sum.splits prod.splits)
  with tryDecode_refines(2) [OF assms(1,2)] that show thesis by blast
qed

section \<open>Printing and parsing\<close>

lemma splitLine_line: "CHR 0x0D \<notin> set line \<Longrightarrow> splitLine (line @ kCRLF @ rest) = Some (line, rest)"
  using search_first [of "CHR 0x0D" line "[CHR 0x0A]" rest]
  by (simp add: splitLine_def kCRLF_def)

lemma nextWord_word:
  assumes "list_all (\<lambda>c. \<not> isspace c) w"
  shows "w \<noteq> [] \<Longrightarrow> nextWord (w @ '' '' @ s) = (w, '' '' @ s)"
    and "w \<noteq> [] \<Longrightarrow> nextWord ('' '' @ w @ '' '' @ s) = (w, '' '' @ s)"
    and "nextWord ('' '' @ w) = (w, [])"
proof -
  have sp: "isspace (CHR '' '')" by (simp add: isspace_def)
  have tw: "takeWhile (\<lambda>c. \<not> isspace c) (w @ '' '' @ s) = w"
    "dropWhile (\<lambda>c. \<not> isspace c) (w @ '' '' @ s) = '' '' @ s"
    using assms sp by (auto simp: takeWhile_append2 dropWhile_append2 list_all_iff)
  have hd: "dropWhile isspace (w @ t) = w @ t" if "w \<noteq> []" for t
    using assms that by (cases w) auto
  show "nextWord (w @ '' '' @ s) = (w, '' '' @ s)" if "w \<noteq> []"
    using tw hd [OF that, of "'' '' @ s"] by (simp add: nextWord_def)
  show "nextWord ('' '' @ w @ '' '' @ s) = (w, '' '' @ s)" if "w \<noteq> []"
    using tw hd [OF that, of "'' '' @ s"] sp by (simp add: nextWord_def)
  show "nextWord ('' '' @ w) = (w, [])"
    using hd [of "[]"] sp assms by (cases "w = []") (auto simp: nextWord_def list_all_iff)
qed

lemma supported_words:
  "supportedMethods m \<noteq> None \<Longrightarrow> m \<noteq> [] \<and> list_all (\<lambda>c. \<not> isspace c) m"
  "supportedVersions v \<noteq> None \<Longrightarrow> list_all (\<lambda>c. \<not> isspace c) v"
  by (auto simp: supportedMethods_def supportedVersions_def isspace_def split: if_splits)

lemma not_space_no_CR: "list_all (\<lambda>c. \<not> isspace c) s \<Longrightarrow> CHR 0x0D \<notin> set s"
  by (auto simp: list_all_iff isspace_def)

lemma requestLine_printed:
  assumes "printable mtd path qry ver hs cont"
  shows "requestLine (mtd @ '' '' @ path @ ''?'' @ qry @ '' '' @ ver) r =
    (NO_REQUEST, r\<lparr>methodStr := mtd, methodType := the (supportedMethods mtd), URL := path, query := qry,
       version := ver, versionType := the (supportedVersions ver), checkstate := EXPECT_HEADER\<rparr>)"
proof -
  let ?url = "path @ ''?'' @ qry"
  obtain p where path: "path = CHR ''/'' # p" using assms by (cases path) (auto simp: printable_def)
  have m: "supportedMethods mtd \<noteq> None" "supportedVersions ver \<noteq> None" using assms by (auto simp: printable_def)
  have url: "list_all (\<lambda>c. \<not> isspace c) ?url" using assms by (auto simp: printable_def isspace_def)
  note w1 = nextWord_word(1) [of mtd "?url @ '' '' @ ver"] nextWord_word(2) [OF url, of ver]
    nextWord_word(3) [of ver]
  have words: "nextWord (mtd @ '' '' @ ?url @ '' '' @ ver) = (mtd, '' '' @ ?url @ '' '' @ ver)"
    "nextWord ('' '' @ ?url @ '' '' @ ver) = (?url, '' '' @ ver)" "nextWord ('' '' @ ver) = (ver, [])"
    using w1 supported_words(1) [OF m(1)] supported_words(2) [OF m(2)] path by auto
  have http: "search ''http://'' ?url \<noteq> Some 0" and slash: "search ''/'' ?url = Some 0"
    using path by auto
  have q: "search ''?'' ?url = Some (length path)"
    using search_char [of "CHR ''?''" path qry] assms by (simp add: printable_def)
  from m show ?thesis
    unfolding requestLine_def using words http slash q by (auto simp: Let_def)
qed

lemma headerLine_printed:
  assumes "plain (CHR '':'') f" and "f \<noteq> ''Content-length''"
  shows "headerLine (f @ '': '' @ v) r = Inr (NO_REQUEST, r\<lparr>headers := (headers r)(f \<mapsto> v)\<rparr>)"
  using assms search_char [of "CHR '':''" f "'' '' @ v"]
  by (simp add: headerLine_def plain_def substr_def Let_def)

lemma decodeS_header_line:
  "checkstate r = EXPECT_HEADER \<Longrightarrow> splitLine s = Some (line, rest) \<Longrightarrow>
   headerLine line r = Inr (NO_REQUEST, r1) \<Longrightarrow> decodeS r s = decodeS r1 rest"
  by (simp add: decodeS.simps [of r s])

lemma decodeS_headers:
  assumes "list_all (\<lambda>(f, v). plain (CHR '':'') f \<and> f \<noteq> ''Content-length'' \<and> CHR 0x0D \<notin> set v) hs"
    and "checkstate r = EXPECT_HEADER"
  shows "decodeS r (concat (map printHeader hs) @ s) = decodeS (r\<lparr>headers := headers r ++ map_of (rev hs)\<rparr>) s"
  using assms
proof (induction hs arbitrary: r)
  case Nil
  then show ?case by simp
next
  case (Cons fv hs)
  obtain f v where fv: "fv = (f, v)" by (cases fv)
  let ?rest = "concat (map printHeader hs) @ s"
  let ?r1 = "r\<lparr>headers := (headers r)(f \<mapsto> v)\<rparr>"
  have ok: "plain (CHR '':'') f" "f \<noteq> ''Content-length''" "CHR 0x0D \<notin> set v" using Cons.prems(1) fv by auto
  then have "CHR 0x0D \<notin> set (f @ '': '' @ v)" by (simp add: plain_def)
  from splitLine_line [OF this, of ?rest]
  have split: "splitLine (concat (map printHeader (fv # hs)) @ s) = Some (f @ '': '' @ v, ?rest)"
    by (simp add: printHeader_def fv)
  have "decodeS r (concat (map printHeader (fv # hs)) @ s) = decodeS ?r1 ?rest"
    using Cons.prems(2) split headerLine_printed [OF ok(1,2)] by (rule decodeS_header_line)
  also have "\<dots> = decodeS (?r1\<lparr>headers := headers ?r1 ++ map_of (rev hs)\<rparr>) s"
    using Cons.prems by (intro Cons.IH) simp_all
  also have "headers ?r1 ++ map_of (rev hs) = headers r ++ map_of (rev (fv # hs))"
    by (simp add: fv map_add_upd_left) 
  finally show ?case by simp
qed

lemma decodeS_body:
  assumes "checkstate r = EXPECT_HEADER" and "headers r ''Content-length'' = None"
    and "contentLength r = 0" and "content r = []" and "length cont < 2 ^ 31"
  shows "decodeS r ((if cont = [] then [] else printHeader (''Content-length'', showNat (length cont)))
           @ kCRLF @ cont @ rest)
    = Inr (GET_REQUEST, r\<lparr>headers := headers r ++
        map_of (if cont = [] then [] else [(''Content-length'', showNat (length cont))]),
        contentLength := int (length cont), content := cont, checkstate := GET_ALL\<rparr>, rest)"
proof -
  have blank: "splitLine (kCRLF @ t) = Some ([], t)" for t using splitLine_line [of "[]" t] by simp
  show ?thesis
  proof (cases "cont = []")
    case True
    then show ?thesis using assms blank
      by (simp add: decodeS.simps [of r "kCRLF @ rest"] headerLine_def)
  next
    case False
    let ?n = "showNat (length cont)"
    let ?line = "''Content-length'' @ '': '' @ ?n"
    let ?r1 = "r\<lparr>headers := (headers r)(''Content-length'' \<mapsto> ?n), contentLength := int (length cont)\<rparr>"
    let ?r2 = "?r1\<lparr>checkstate := EXPECT_CONTENT\<rparr>"
    have "CHR 0x0D \<notin> set ?line" using showNat_digits isdigit_facts by fastforce
    from splitLine_line [OF this]
    have split: "splitLine (printHeader (''Content-length'', ?n) @ kCRLF @ cont @ rest)
        = Some (?line, kCRLF @ cont @ rest)" by (simp add: printHeader_def)
    have "headerLine ?line r = Inr (NO_REQUEST, ?r1)"
      using stoi_showNat [OF assms(5)] by (simp add: headerLine_def substr_def Let_def)
    from decodeS_header_line [OF assms(1) split this]
    have "decodeS r (printHeader (''Content-length'', ?n) @ kCRLF @ cont @ rest)
        = decodeS ?r1 (kCRLF @ cont @ rest)" .
    also have "\<dots> = decodeS ?r2 (cont @ rest)"
      using assms(1) False by (intro decodeS_header_line [OF _ blank]) (simp_all add: headerLine_def)
    also have "\<dots> = Inr (GET_REQUEST, ?r2\<lparr>content := cont, checkstate := GET_ALL\<rparr>, rest)"
      by (simp add: decodeS.simps [of ?r2 "cont @ rest"] Let_def)
    finally show ?thesis using False by simp
  qed
qed

lemma decodeS_printed:
  assumes "printable mtd path qry ver hs cont"
  shows "decodeS (newHttpRequest v) (printRequest mtd path qry ver hs cont @ rest)
    = Inr (GET_REQUEST, parsedRequest mtd path qry ver hs cont, rest)"
proof -
  let ?line = "mtd @ '' '' @ path @ ''?'' @ qry @ '' '' @ ver"
  let ?tail = "(if cont = [] then [] else printHeader (''Content-length'', showNat (length cont))) @ kCRLF @ cont @ rest"
  let ?r1 = "(newHttpRequest v)\<lparr>methodStr := mtd, methodType := the (supportedMethods mtd), URL := path, query := qry,
       version := ver, versionType := the (supportedVersions ver), checkstate := EXPECT_HEADER\<rparr>"
  let ?r2 = "?r1\<lparr>headers := headers ?r1 ++ map_of (rev hs)\<rparr>"
  have cr: "CHR 0x0D \<notin> set ?line"
    using assms not_space_no_CR [of mtd] not_space_no_CR [of ver] not_space_no_CR [of path] not_space_no_CR [of qry]
      supported_words(1) [of mtd] supported_words(2) [of ver] by (auto simp: printable_def)
  have shape: "printRequest mtd path qry ver hs cont @ rest
      = ?line @ kCRLF @ concat (map printHeader hs) @ ?tail" by (simp add: printRequest_def)
  have "decodeS (newHttpRequest v) (printRequest mtd path qry ver hs cont @ rest)
      = decodeS ?r1 (concat (map printHeader hs) @ ?tail)"
    unfolding shape using splitLine_line [OF cr] requestLine_printed [OF assms]
    by (subst decodeS.simps) (simp add: newHttpRequest_def)
  also have "\<dots> = decodeS ?r2 ?tail"
    using assms by (intro decodeS_headers) (simp_all add: printable_def)
  also have "\<dots> = Inr (GET_REQUEST, ?r2\<lparr>headers := headers ?r2 ++
        map_of (if cont = [] then [] else [(''Content-length'', showNat (length cont))]),
        contentLength := int (length cont), content := cont, checkstate := GET_ALL\<rparr>, rest)"
  proof (rule decodeS_body)
    have "''Content-length'' \<notin> fst ` set hs" using assms by (auto simp: printable_def list_all_iff)
    then show "headers ?r2 ''Content-length'' = None"
      by (simp add: newHttpRequest_def map_of_eq_None_iff)
  qed (use assms in \<open>simp_all add: newHttpRequest_def printable_def\<close>)
  finally show ?thesis
    by (auto simp: parsedRequest_def newHttpRequest_def)
qed

section \<open>Properties\<close>

lemma request_ok_new: "request_ok (newHttpRequest v)"
  by (simp add: request_ok_def newHttpRequest_def)

lemma buffer_holding:
  assumes "length s \<le> 1024"
  obtains b where "buf_ok b" "contents b = s" "appendBuf s newBuffer = Inr b"
proof -
  have "room (length s) newBuffer"
    using assms by (intro newBuffer_room) (simp add: kCheapPrepend_def max_size_def)
  from appendBuf_ok [OF newBuffer_ok this] that show thesis by auto
qed

text \<open>
  C5: \<open>tryDecode\<close> terminates and implements the line-oriented specification. On every
  well-formed buffer and request state the loop returns, and what it returns (the code, the
  request, the bytes left, or the fault) is what \<open>decodeS\<close> computes from the readable
  bytes; the buffer and the request it leaves are well formed.
\<close>

theorem tryDecode_refines_spec:
  assumes "buf_ok b" and "request_ok r"
  shows "tryDecode r b \<noteq> None \<and> observe (tryDecode r b) = Some (decodeS r (contents b))
    \<and> (\<forall>code r1 b1. tryDecode r b = Some (Inr (code, r1, b1)) \<longrightarrow> buf_ok b1 \<and> request_ok r1)"
  using tryDecode_refines [OF assms] by (auto simp: observe_def)

theorem tryDecode_refines_spec_witness:
  "observe (tryDecode (newHttpRequest HTTP10) newBuffer) = Some (Inr (NO_REQUEST, newHttpRequest HTTP10, []))"
  using tryDecode_refines_spec [OF newBuffer_ok request_ok_new [of HTTP10]]
  by (simp add: decodeS.simps newHttpRequest_def splitLine_def kCRLF_def noLine_def)

text \<open>
  C14: parsing inverts printing. A request with a supported method and version, a path that
  starts with a slash, a query, headers without colons in their names and a body of less than
  2 GB announced by \<^verbatim>\<open>Content-length\<close>, followed by any further bytes, is decoded as
  \<^verbatim>\<open>GET_REQUEST\<close> with exactly these fields, and exactly the further bytes stay in the buffer.
\<close>

theorem request_roundtrip:
  assumes "printable mtd path qry ver hs cont" and "buf_ok b"
    and "contents b = printRequest mtd path qry ver hs cont @ rest"
  shows "\<exists>b1. tryDecode (newHttpRequest v) b
        = Some (Inr (GET_REQUEST, parsedRequest mtd path qry ver hs cont, b1)) \<and> contents b1 = rest"
proof -
  have "decodeS (newHttpRequest v) (contents b)
      = Inr (GET_REQUEST, parsedRequest mtd path qry ver hs cont, rest)"
    using decodeS_printed [OF assms(1)] assms(3) by simp
  from tryDecode_result [OF assms(2) request_ok_new this] show ?thesis by blast
qed

theorem request_roundtrip_witness:
  "\<exists>b b1. contents b = printRequest ''POST'' ''/form'' ''a=b'' ''HTTP/1.1'' [(''Host'', ''x'')] ''hello'' @ ''GET''
     \<and> tryDecode (newHttpRequest HTTP10) b = Some (Inr (GET_REQUEST,
         parsedRequest ''POST'' ''/form'' ''a=b'' ''HTTP/1.1'' [(''Host'', ''x'')] ''hello'', b1))
     \<and> contents b1 = ''GET''"
proof -
  let ?s = "printRequest ''POST'' ''/form'' ''a=b'' ''HTTP/1.1'' [(''Host'', ''x'')] ''hello'' @ ''GET''"
  have p: "printable ''POST'' ''/form'' ''a=b'' ''HTTP/1.1'' [(''Host'', ''x'')] ''hello''"
    by (simp add: printable_def supportedMethods_def supportedVersions_def isspace_def plain_def)
  obtain b where "buf_ok b" "contents b = ?s"
    by (rule buffer_holding [of ?s])
      (simp add: printRequest_def printHeader_def kCRLF_def showNat.simps)
  with request_roundtrip [OF p this] show ?thesis by blast
qed

text \<open>
  A first segment with a newline that is not preceded by a carriage return and no later end of line is
  rejected, although the same bytes followed by the rest of the request are accepted when they
  arrive together.
\<close>

lemma bare_newline_rejected:
  defines "part \<equiv> ''GET /a HTTP/1.1'' @ [CHR 0x0A]" and "r \<equiv> newHttpRequest VERSION_INVALID"
  assumes "buf_ok b" and "contents b = part" and "buf_ok whole" and "contents whole = part @ kCRLF @ kCRLF"
  shows "\<exists>r1 b1. tryDecode r b = Some (Inr (BAD_REQUEST, r1, b1))"
    and "\<exists>r1 b1. tryDecode r whole = Some (Inr (GET_REQUEST, r1, b1))"
proof -
  have "mapR fst (decodeS (newHttpRequest VERSION_INVALID) (''GET /a HTTP/1.1'' @ [CHR 0x0A])) = Inr BAD_REQUEST"
    "mapR fst (decodeS (newHttpRequest VERSION_INVALID) ((''GET /a HTTP/1.1'' @ [CHR 0x0A]) @ kCRLF @ kCRLF)) = Inr GET_REQUEST"
    by code_simp+
  then obtain r1 s1 r2 s2 where "decodeS r (contents b) = Inr (BAD_REQUEST, r1, s1)"
    "decodeS r (contents whole) = Inr (GET_REQUEST, r2, s2)"
    unfolding assms(4,6) unfolding part_def r_def by (auto simp: mapR_eq_Inr)
  then show "\<exists>r1 b1. tryDecode r b = Some (Inr (BAD_REQUEST, r1, b1))"
    "\<exists>r1 b1. tryDecode r whole = Some (Inr (GET_REQUEST, r1, b1))"
    using tryDecode_result [OF assms(3) request_ok_new] tryDecode_result [OF assms(5) request_ok_new]
    unfolding r_def by metis+
qed

text \<open>
  C13: decoding does not depend on how the input is cut into segments, as long as the first segment is
  found to be incomplete. If the bytes received so far are answered by \<^verbatim>\<open>NO_REQUEST\<close>, then continuing with
  the rest appended to the buffer gives the same code, request, remaining bytes or fault as decoding
  everything at once. (The condition is needed: a segment whose only line end is a bare newline is answered by
  \<^verbatim>\<open>BAD_REQUEST\<close> even if the whole input would be accepted.)
\<close>

theorem decode_any_segmentation:
  assumes "buf_ok b" and "request_ok r" and "tryDecode r b = Some (Inr (NO_REQUEST, r1, b1))"
    and "buf_ok b2" and "contents b2 = contents b1 @ t"
    and "buf_ok whole" and "contents whole = contents b @ t"
  shows "observe (tryDecode r1 b2) = observe (tryDecode r whole)"
proof -
  from tryDecode_refines [OF assms(1,2)] assms(3)
  have first: "decodeS r (contents b) = Inr (NO_REQUEST, r1, contents b1)" "request_ok r1"
    by (auto simp: observe_def)
  from tryDecode_refines(1) [OF assms(4) first(2)] tryDecode_refines(1) [OF assms(6,2)]
    decodeS_segment [OF first(1)] assms(5,7) show ?thesis by simp
qed

theorem decode_any_segmentation_witness:
  "\<exists>b r1 b1 b2 whole. contents b = ''GET'' \<and> contents whole = ''GET /''
     \<and> tryDecode (newHttpRequest HTTP10) b = Some (Inr (NO_REQUEST, r1, b1))
     \<and> observe (tryDecode r1 b2) = observe (tryDecode (newHttpRequest HTTP10) whole)"
proof -
  let ?r = "newHttpRequest HTTP10"
  obtain b where b: "buf_ok b" "contents b = ''GET''" by (rule buffer_holding [of "''GET''"]) simp
  obtain w where w: "buf_ok w" "contents w = ''GET /''" by (rule buffer_holding [of "''GET /''"]) simp
  obtain w2 where w2: "buf_ok w2" "contents w2 = ''GET /''" by (rule buffer_holding [of "''GET /''"]) simp
  have "decodeS ?r (contents b) = Inr (NO_REQUEST, ?r, ''GET'')"
    by (simp add: b decodeS.simps newHttpRequest_def splitLine_def kCRLF_def noLine_def)
  from tryDecode_result [OF b(1) request_ok_new this] obtain b1 where
    b1: "tryDecode ?r b = Some (Inr (NO_REQUEST, ?r, b1))" "contents b1 = ''GET''" by blast
  have "''GET /'' = contents b1 @ '' /''" "''GET /'' = contents b @ '' /''" by (simp_all add: b b1)
  with decode_any_segmentation [OF b(1) request_ok_new b1(1) w2(1) _ w(1), of "'' /''"] w(2) w2(2)
  have "observe (tryDecode ?r w2) = observe (tryDecode ?r w)" by metis
  with b(2) w(2) b1(1) show ?thesis by blast
qed

text \<open>
  Exactly which header lines end the process. \<open>parseHeaders\<close> lets an exception of the
  standard library escape when nothing follows the first colon of the line
  (\<^verbatim>\<open>substr\<close> past the end), or when the field is \<^verbatim>\<open>Content-length\<close> and the text from the
  second character after the colon is not a number in the range of \<^verbatim>\<open>int\<close>; every other line
  is accepted.
\<close>

lemma header_line_faults:
  "headerLine line r = Inl e \<longleftrightarrow>
     e = Uncaught \<and> (\<exists>idx. search '':'' line = Some idx
        \<and> (length line < idx + 2
           \<or> take idx line = ''Content-length'' \<and> \<not> isOk (stoi (drop (idx + 2) line))))"
proof (cases "search '':'' line")
  case None
  then show ?thesis by (simp add: headerLine_def)
next
  case (Some idx)
  then have "idx < length line" using search_SomeD [OF Some] by simp
  moreover have "stoi s = Inl e \<longleftrightarrow> e = Uncaught \<and> \<not> isOk (stoi s)" for s
    by (auto simp: stoi_def Let_def)
  ultimately show ?thesis using Some
    by (auto simp: headerLine_def substr_def Let_def bindR_eq_Inl)
qed

text \<open>
  C31: two well-formed requests the parser mishandles. A header whose value is empty
  (\<^verbatim>\<open>Accept:\<close>) raises an exception nobody catches; the usual spelling
  \<^verbatim>\<open>Content-Length\<close> is not recognised, so the body is not read and stays in the buffer as
  the beginning of the next request.
\<close>

theorem header_forms_mishandled:
  "(buf_ok b \<and> contents b = ''GET / HTTP/1.1'' @ kCRLF @ ''Accept:'' @ kCRLF @ kCRLF \<longrightarrow>
      tryDecode (newHttpRequest v) b = Some (Inl Uncaught))
   \<and> (buf_ok b \<and> contents b = ''POST / HTTP/1.1'' @ kCRLF @ ''Content-Length: 5'' @ kCRLF @ kCRLF @ ''hello'' \<longrightarrow>
      (\<exists>r1 b1. tryDecode (newHttpRequest v) b = Some (Inr (GET_REQUEST, r1, b1))
        \<and> content r1 = [] \<and> contents b1 = ''hello''))"
proof (intro conjI impI)
  let ?r = "newHttpRequest v"
  have line: "requestLine (m @ '' / HTTP/1.1'') ?r = (NO_REQUEST, ?r\<lparr>methodStr := m, methodType := t, URL := ''/'',
      version := ''HTTP/1.1'', versionType := HTTP11, checkstate := EXPECT_HEADER\<rparr>)"
    if "(m, t) = (''GET'', METHOD_GET) \<or> (m, t) = (''POST'', METHOD_POST)" for m t
    using that by (auto simp: requestLine_def nextWord_def isspace_def supportedMethods_def
        supportedVersions_def Let_def)
  have split: "splitLine (l @ kCRLF @ rest) = Some (l, rest)" if "CHR 0x0D \<notin> set l" for l rest
    using that by (rule splitLine_line)
  {
    assume b: "buf_ok b \<and> contents b = ''GET / HTTP/1.1'' @ kCRLF @ ''Accept:'' @ kCRLF @ kCRLF"
    have "decodeS ?r (contents b) = Inl Uncaught"
      using b split [of "''GET / HTTP/1.1''"] line [of "''GET''" METHOD_GET] split [of "''Accept:''"]
      by (simp add: decodeS.simps newHttpRequest_def headerLine_def substr_def)
    then show "tryDecode ?r b = Some (Inl Uncaught)"
      using decodeLoop_refines [OF refl, of b ?r] request_ok_new [of v] b
      by (auto simp: tryDecode_def decode_agrees_def split: option.splits sum.splits prod.splits)
  }
  {
    let ?s = "''POST / HTTP/1.1'' @ kCRLF @ ''Content-Length: 5'' @ kCRLF @ kCRLF @ ''hello''"
    assume b: "buf_ok b \<and> contents b = ?s"
    have "\<exists>r1. decodeS ?r ?s = Inr (GET_REQUEST, r1, ''hello'') \<and> content r1 = []"
      using split [of "''POST / HTTP/1.1''"] line [of "''POST''" METHOD_POST]
        split [of "''Content-Length: 5''"] split [of "[]"]
      by (simp add: decodeS.simps newHttpRequest_def headerLine_def substr_def)
    then show "\<exists>r1 b1. tryDecode ?r b = Some (Inr (GET_REQUEST, r1, b1)) \<and> content r1 = [] \<and> contents b1 = ''hello''"
      using b tryDecode_result [OF _ request_ok_new] by metis
  }
qed

theorem header_forms_mishandled_witness:
  "\<exists>b. contents b = ''GET / HTTP/1.1'' @ kCRLF @ ''Accept:'' @ kCRLF @ kCRLF
     \<and> tryDecode (newHttpRequest HTTP10) b = Some (Inl Uncaught)"
proof -
  let ?s = "''GET / HTTP/1.1'' @ kCRLF @ ''Accept:'' @ kCRLF @ kCRLF"
  obtain b where "buf_ok b" "contents b = ?s"
    by (rule buffer_holding [of ?s]) (simp add: kCRLF_def)
  with header_forms_mishandled [of b HTTP10] show ?thesis by blast
qed

lemma responseStatus_facts:
  "length (fst (responseStatus s)) \<le> 14" "CHR 0x00 \<notin> set (fst (responseStatus s))"
  by (simp_all add: responseStatus_def)

lemma length_formatBuffer [simp]: "length (formatBuffer txt) = 2048"
  by (simp add: formatBuffer_def)

lemma filter_formatBuffer:
  "length txt \<le> 2047 \<Longrightarrow> CHR 0x00 \<notin> set txt \<Longrightarrow> filter (\<lambda>c. c \<noteq> CHR 0x00) (formatBuffer txt) = txt"
  by (auto simp: formatBuffer_def filter_id_conv)

text \<open>
  C33: every formatted header line occupies exactly 2048 bytes. The status line and the two
  header lines of a response are the intended text only after the zero bytes are removed; the
  header block sent to the client is 6144 bytes long.
\<close>

theorem response_headers_padded:
  "(let h = respHeaders (addHeaders len (addStatusLine status (newHttpResponse c))) in
     length h = 6144
     \<and> (-(2 ^ 31) \<le> status \<and> status < 2 ^ 31 \<and> -(2 ^ 31) \<le> len \<and> len < 2 ^ 31 \<longrightarrow>
        filter (\<lambda>c. c \<noteq> CHR 0x00) h
          = ''HTTP/1.1 '' @ showInt status @ '' '' @ fst (responseStatus status) @ kCRLF
            @ ''Content-Length:'' @ showInt len @ kCRLF @ kCRLF))"
proof -
  let ?line = "''HTTP/1.1 '' @ showInt status @ '' '' @ fst (responseStatus status) @ kCRLF"
  let ?len = "''Content-Length:'' @ showInt len @ kCRLF"
  let ?h = "respHeaders (addHeaders len (addStatusLine status (newHttpResponse c)))"
  have h: "?h = formatBuffer ?line @ formatBuffer ?len @ formatBuffer kCRLF"
    by (simp add: addHeaders_def addStatusLine_def addContentLength_def addBlankLine_def
        headersAppendFormat_def headersAppend_def newHttpResponse_def)
  have "filter (\<lambda>c. c \<noteq> CHR 0x00) ?h = ?line @ ?len @ kCRLF"
    if "-(2 ^ 31) \<le> status" "status < 2 ^ 31" "-(2 ^ 31) \<le> len" "len < 2 ^ 31"
  proof -
    note s = showInt_facts [OF that(1,2)] responseStatus_facts [of status] and l = showInt_facts [OF that(3,4)]
    have "filter (\<lambda>c. c \<noteq> CHR 0x00) (formatBuffer ?line) = ?line"
      by (rule filter_formatBuffer) (use s in \<open>simp_all add: kCRLF_def\<close>)
    moreover have "filter (\<lambda>c. c \<noteq> CHR 0x00) (formatBuffer ?len) = ?len"
      by (rule filter_formatBuffer) (use l in \<open>simp_all add: kCRLF_def\<close>)
    moreover have "filter (\<lambda>c. c \<noteq> CHR 0x00) (formatBuffer kCRLF) = kCRLF"
      by (rule filter_formatBuffer) (simp_all add: kCRLF_def)
    ultimately show ?thesis by (simp only: h filter_append)
  qed
  moreover have "length ?h = 6144" by (simp add: h)
  ultimately show ?thesis by (simp add: Let_def)
qed

theorem response_headers_padded_witness:
  "filter (\<lambda>c. c \<noteq> CHR 0x00) (respHeaders (addHeaders 0 (addStatusLine 404 (newHttpResponse 0))))
     = ''HTTP/1.1 404 Not Found'' @ kCRLF @ ''Content-Length:0'' @ kCRLF @ kCRLF"
proof -
  have "showInt 404 = ''404''" "showInt 0 = ''0''" by code_simp+
  with response_headers_padded [of 0 404 0] show ?thesis by (simp add: Let_def responseStatus_def)
qed

end
