(* ===== verification/Loop_Object.thy ===== *)
theory Loop_Object
  imports Event_Loop EPoll_Poller Timer_Queue
begin

text \<open>
  An \<^verbatim>\<open>EventLoop\<close> object with its poller, its wake-up channel and its timer queue: the
  constructor, and the timer interface \<^verbatim>\<open>runAt\<close>, \<^verbatim>\<open>runAfter\<close>, \<^verbatim>\<open>runEvery\<close> and \<^verbatim>\<open>cancel\<close> that other
  threads may call (\<^verbatim>\<open>miniduo/EventLoop.cpp\<close>, \<^verbatim>\<open>TimerQueue::enableChannel\<close> in
  \<^verbatim>\<open>miniduo/timer.cpp\<close>). The tasks these functions queue are data.
\<close>

section \<open>Model\<close>

datatype loop_cb = LoopHandleRead | TimerHandleRead

text \<open>The two channels of the object; a task refers to a channel by its address.\<close>

datatype own_channel = WakeupChannel | TimerChannel

datatype loop_task =
    LAddChannel own_channel
  | LUpdateChannel own_channel
  | LAddTimer nat
  | LCancelTimer nat

record loop_object =
  loLoop :: "loop_task event_loop"
  loPoller :: epoll_poller
  loTimers :: timer_queue
  loWakeup :: "loop_cb channel"
  loTimerfd :: "loop_cb channel"

fun ownChannel :: "own_channel \<Rightarrow> loop_object \<Rightarrow> loop_cb channel" where
  "ownChannel WakeupChannel s = loWakeup s"
| "ownChannel TimerChannel s = loTimerfd s"

fun putChannel :: "own_channel \<Rightarrow> loop_cb channel \<Rightarrow> loop_object \<Rightarrow> loop_object" where
  "putChannel WakeupChannel ch s = s\<lparr>loWakeup := ch\<rparr>"
| "putChannel TimerChannel ch s = s\<lparr>loTimerfd := ch\<rparr>"

definition pollerStep :: "int \<Rightarrow> loop_cb poller_op \<Rightarrow> loop_object \<Rightarrow> loop_object result" where
  "pollerStep tid op s =
     assertInLoopThread tid (loLoop s) (bindR (ep_step op (loPoller s)) (\<lambda>p. Inr (s\<lparr>loPoller := p\<rparr>)))"

definition timerStep :: "(timer_queue \<Rightarrow> timer_queue result) \<Rightarrow> loop_object \<Rightarrow> loop_object result" where
  "timerStep f s = bindR (f (loTimers s)) (\<lambda>q. Inr (s\<lparr>loTimers := q\<rparr>))"

text \<open>Running a task on thread \<open>tid\<close>; \<open>clock\<close> is the time \<^verbatim>\<open>resetTimerfd\<close> reads.\<close>

fun runLoopTask :: "int \<Rightarrow> timestamp \<Rightarrow> loop_task \<Rightarrow> loop_object \<Rightarrow> loop_object result" where
  "runLoopTask tid clock (LAddChannel c) s = pollerStep tid (AddChannel (ownChannel c s)) s"
| "runLoopTask tid clock (LUpdateChannel c) s = pollerStep tid (UpdateChannel (ownChannel c s)) s"
| "runLoopTask tid clock (LAddTimer a) s = timerStep (addTimer (isInLoopThread tid (loLoop s)) clock a) s"
| "runLoopTask tid clock (LCancelTimer a) s = timerStep (cancelTimer (isInLoopThread tid (loLoop s)) a) s"

definition loopRun :: "int \<Rightarrow> timestamp \<Rightarrow> loop_task \<Rightarrow> loop_object \<Rightarrow> loop_object result" where
  "loopRun tid clock t s =
     (if isInLoopThread tid (loLoop s) then runLoopTask tid clock t s
      else Inr (s\<lparr>loLoop := perform (queueInLoop t) (loLoop s)\<rparr>))"

definition doTasks :: "int \<Rightarrow> timestamp \<Rightarrow> loop_object \<Rightarrow> loop_object result" where
  "doTasks tid clock s =
     (let (ts, l) = takeTasks (loLoop s) in runR (runLoopTask tid clock) ts (s\<lparr>loLoop := l\<rparr>))"

text \<open>\<^verbatim>\<open>loop_->addChannel(...)\<close> and \<^verbatim>\<open>enableReading(true)\<close> on one of the two channels.\<close>

definition watchOwn :: "int \<Rightarrow> own_channel \<Rightarrow> loop_object \<Rightarrow> loop_object result" where
  "watchOwn tid c s =
     bindR (loopRun tid 0 (LAddChannel c) s) (\<lambda>s1.
     loopRun tid 0 (LUpdateChannel c) (putChannel c (readingEvents True (ownChannel c s1)) s1))"

definition enableChannel :: "int \<Rightarrow> loop_object \<Rightarrow> loop_object result" where
  "enableChannel tid s = watchOwn tid TimerChannel s"

definition createEventfd :: "int \<Rightarrow> int result" where
  "createEventfd ret = (if ret < 0 then Inl Aborted else Inr ret)"

text \<open>A failing \<^verbatim>\<open>timerfd_create(2)\<close> is only logged.\<close>

definition createTimerfd :: "int \<Rightarrow> int" where
  "createTimerfd ret = ret"

text \<open>
  The constructor, on thread \<open>tid\<close>; \<open>epRet\<close>, \<open>evRet\<close> and \<open>tfRet\<close> are the results of \<^verbatim>\<open>epoll_create1(2)\<close>,
  \<^verbatim>\<open>eventfd(2)\<close> and \<^verbatim>\<open>timerfd_create(2)\<close>. The owner loop of the channels has number 0, the channels the
  addresses 1 and 2.
\<close>

definition newLoopObject :: "int \<Rightarrow> int \<Rightarrow> int \<Rightarrow> int \<Rightarrow> loop_object result" where
  "newLoopObject tid epRet evRet tfRet =
     bindR (createEPollPoller epRet) (\<lambda>poller.
     bindR (createEventfd evRet) (\<lambda>wakeupFd.
     let s = \<lparr>loLoop = newEventLoop, loPoller = poller, loTimers = newTimerQueue,
              loWakeup = setReadCallback LoopHandleRead (newChannel 1 0 wakeupFd),
              loTimerfd = setReadCallback TimerHandleRead (newChannel 2 0 (createTimerfd tfRet))\<rparr>
     in bindR (watchOwn tid WakeupChannel s) (enableChannel tid)))"

text \<open>
  The destructor gives the descriptors it closes, in order: its body closes the wake-up
  descriptor, then the members are destroyed in the reverse order of their declaration, among
  them the timer queue and the poller, whose epoll descriptor is \<open>epollfd\<close>. The channels are not
  removed from the poller before.
\<close>

definition closeEventfd :: "int \<Rightarrow> int list" where
  "closeEventfd fd = (if fd < 0 then [] else [fd])"

definition closeTimerfd :: "int \<Rightarrow> int list" where
  "closeTimerfd fd = (if 0 < fd then [fd] else [])"

definition timerQueueDtor :: "loop_object \<Rightarrow> int list" where
  "timerQueueDtor s = closeTimerfd (chFd (loTimerfd s))"

definition pollerDtor :: "int \<Rightarrow> int list" where
  "pollerDtor epollfd = [epollfd]"

definition loopDtor :: "int \<Rightarrow> loop_object \<Rightarrow> int list result" where
  "loopDtor epollfd s =
     (if \<not> stopLooping (loLoop s) then Inl AssertFailed
      else Inr (closeEventfd (chFd (loWakeup s)) @ timerQueueDtor s @ pollerDtor epollfd))"

lemmas dtor_defs = loopDtor_def timerQueueDtor_def pollerDtor_def closeEventfd_def closeTimerfd_def

text \<open>
  The timer interface. \<open>a\<close> is the address of the new \<^verbatim>\<open>Timer\<close>, which is the returned
  \<^verbatim>\<open>TimerId\<close>; \<open>now\<close> the time \<^verbatim>\<open>getTimeOfNow\<close> returns.
\<close>

definition scheduleTimer :: "int \<Rightarrow> timestamp \<Rightarrow> nat \<Rightarrow> timer \<Rightarrow> loop_object \<Rightarrow> loop_object result" where
  "scheduleTimer tid clock a tm s =
     loopRun tid clock (LAddTimer a) (s\<lparr>loTimers := makeTimer a tm (loTimers s)\<rparr>)"

definition runAt :: "int \<Rightarrow> timestamp \<Rightarrow> timestamp \<Rightarrow> nat \<Rightarrow> nat \<Rightarrow> loop_object \<Rightarrow> loop_object result" where
  "runAt tid clock time cb a s =
     scheduleTimer tid clock a \<lparr>tmCallback = cb, tmExpiration = time, tmInterval = 0\<rparr> s"

definition runAfter :: "(rat \<Rightarrow> rat) \<Rightarrow> int \<Rightarrow> timestamp \<Rightarrow> timestamp \<Rightarrow> rat \<Rightarrow> nat \<Rightarrow> nat \<Rightarrow> loop_object \<Rightarrow> loop_object result" where
  "runAfter fl tid clock now delay cb a s =
     runAt tid clock (int64 (now + trunc_double (fl (delay * 1000000)))) cb a s"

definition runEvery :: "(rat \<Rightarrow> rat) \<Rightarrow> int \<Rightarrow> timestamp \<Rightarrow> timestamp \<Rightarrow> rat \<Rightarrow> nat \<Rightarrow> nat \<Rightarrow> loop_object \<Rightarrow> loop_object result" where
  "runEvery fl tid clock now interval cb a s =
     scheduleTimer tid clock a
       \<lparr>tmCallback = cb, tmExpiration = int64 (now + trunc_double (fl (interval * 1000000))), tmInterval = interval\<rparr> s"

definition cancel :: "int \<Rightarrow> timestamp \<Rightarrow> nat \<Rightarrow> loop_object \<Rightarrow> loop_object result" where
  "cancel tid clock a s = loopRun tid clock (LCancelTimer a) s"

section \<open>Lemmas\<close>

text \<open>A task queued by another thread and run by the next batch, or run at once by the loop's own.\<close>

lemma queued_task:
  assumes "pendingTasks (loLoop s) = []" and "isInLoopThread ltid (loLoop s)" and "\<not> isInLoopThread tid (loLoop s)"
  defines "s0 \<equiv> s\<lparr>loLoop := wakeup (loLoop s)\<rparr>"
  shows "loopRun tid clock t s = Inr (s\<lparr>loLoop := perform (queueInLoop t) (loLoop s)\<rparr>)"
    and "doTasks ltid clock (s\<lparr>loLoop := perform (queueInLoop t) (loLoop s)\<rparr>) = runLoopTask ltid clock t s0"
    and "isInLoopThread ltid (loLoop s0)"
proof -
  show "loopRun tid clock t s = Inr (s\<lparr>loLoop := perform (queueInLoop t) (loLoop s)\<rparr>)"
    using assms(3) by (simp add: loopRun_def)
  have "takeTasks (perform (queueInLoop t) (loLoop s)) = ([t], wakeup (loLoop s))"
    using assms(1) by (simp add: takeTasks_def perform_queue pushTask_def wakeup_def)
  moreover have "bindR m Inr = m" for m :: "loop_object result" by (cases m) simp_all
  moreover have "runR (runLoopTask ltid clock) [] = Inr" by (rule ext) simp
  ultimately show "doTasks ltid clock (s\<lparr>loLoop := perform (queueInLoop t) (loLoop s)\<rparr>) = runLoopTask ltid clock t s0"
    by (simp add: doTasks_def s0_def)
  show "isInLoopThread ltid (loLoop s0)" using assms(2) by (auto simp: s0_def isInLoopThread_def wakeup_def split: if_splits)
qed

lemma schedule_any_thread:
  assumes "pendingTasks (loLoop s) = []" and "isInLoopThread ltid (loLoop s)" and "\<not> isInLoopThread tid (loLoop s)"
    and "tq_inv (loTimers s)" and "tqHeap (loTimers s) a = None"
  shows "\<exists>s1 s2. scheduleTimer tid clock a tm s = Inr s1 \<and> tqTimers (loTimers s1) = tqTimers (loTimers s)
    \<and> doTasks ltid clock s1 = Inr s2
    \<and> mapR loTimers (scheduleTimer ltid clock a tm s) = Inr (loTimers s2)
    \<and> tqTimers (loTimers s2) = insort (tmExpiration tm, a) (tqTimers (loTimers s)) \<and> tq_inv (loTimers s2)"
proof -
  let ?s = "s\<lparr>loTimers := makeTimer a tm (loTimers s)\<rparr>"
  obtain q where q: "timer_act (ActAdd a tm clock) (loTimers s) = Inr q" "tq_inv q"
    "tqTimers q = insort (tmExpiration tm, a) (tqTimers (loTimers s))"
    using addTimer_new [OF assms(4,5)] by metis
  have add: "addTimer True clock a (makeTimer a tm (loTimers s)) = Inr q" using q(1) by simp
  have pre: "pendingTasks (loLoop ?s) = []" "isInLoopThread ltid (loLoop ?s)" "\<not> isInLoopThread tid (loLoop ?s)"
    using assms(1-3) by simp_all
  note run = queued_task [OF pre]
  have "runLoopTask ltid clock (LAddTimer a) (?s\<lparr>loLoop := wakeup (loLoop ?s)\<rparr>)
      = Inr (?s\<lparr>loLoop := wakeup (loLoop ?s), loTimers := q\<rparr>)"
    using run(3) add by (simp add: timerStep_def)
  moreover have "mapR loTimers (scheduleTimer ltid clock a tm s) = Inr q"
    using assms(2) add by (simp add: scheduleTimer_def loopRun_def timerStep_def)
  ultimately show ?thesis using run q(2,3)
    by (intro exI [of _ "?s\<lparr>loLoop := perform (queueInLoop (LAddTimer a)) (loLoop ?s)\<rparr>"]
        exI [of _ "?s\<lparr>loLoop := wakeup (loLoop ?s), loTimers := q\<rparr>"])
      (simp add: scheduleTimer_def makeTimer_def)
qed

lemma cancel_any_thread:
  assumes "pendingTasks (loLoop s) = []" and "isInLoopThread ltid (loLoop s)" and "\<not> isInLoopThread tid (loLoop s)"
  shows "\<exists>s1 s2. cancel tid clock a s = Inr s1 \<and> doTasks ltid clock s1 = Inr s2
    \<and> mapR loTimers (cancel ltid clock a s) = Inr (loTimers s2)"
proof -
  note run = queued_task [OF assms]
  obtain q where q: "cancelTimer True a (loTimers s) = Inr q"
    using cancelTimer_eq [of a "loTimers s"] by simp
  have "runLoopTask ltid clock (LCancelTimer a) (s\<lparr>loLoop := wakeup (loLoop s)\<rparr>)
      = Inr (s\<lparr>loLoop := wakeup (loLoop s), loTimers := q\<rparr>)"
    using run(3) q by (simp add: timerStep_def)
  moreover have "mapR loTimers (cancel ltid clock a s) = Inr q"
    using assms(2) q by (simp add: cancel_def loopRun_def timerStep_def)
  ultimately show ?thesis using run(1,2) by (simp add: cancel_def)
qed

section \<open>Properties\<close>

text \<open>
  C23: the timer interface may be called from any thread. From a thread that does not run the loop,
  \<open>runEvery\<close>, \<open>runAfter\<close> and \<open>cancel\<close> leave the queue of timers alone and queue a task; when the
  loop has run it, the queue is the one that the same call made on the loop's own thread gives,
  with the timer at its place in the order of expiration.
\<close>

theorem timers_from_any_thread:
  assumes "pendingTasks (loLoop s) = []" and "isInLoopThread ltid (loLoop s)" and "\<not> isInLoopThread tid (loLoop s)"
    and "tq_inv (loTimers s)" and "tqHeap (loTimers s) a = None"
  shows "(\<exists>s1 s2. runEvery fl tid clock now dur cb a s = Inr s1 \<and> tqTimers (loTimers s1) = tqTimers (loTimers s)
      \<and> doTasks ltid clock s1 = Inr s2
      \<and> mapR loTimers (runEvery fl ltid clock now dur cb a s) = Inr (loTimers s2)
      \<and> tqTimers (loTimers s2) = insort (int64 (now + trunc_double (fl (dur * 1000000))), a) (tqTimers (loTimers s)))
    \<and> (\<exists>s1 s2. runAfter fl tid clock now dur cb a s = Inr s1 \<and> tqTimers (loTimers s1) = tqTimers (loTimers s)
      \<and> doTasks ltid clock s1 = Inr s2
      \<and> mapR loTimers (runAfter fl ltid clock now dur cb a s) = Inr (loTimers s2)
      \<and> tqTimers (loTimers s2) = insort (int64 (now + trunc_double (fl (dur * 1000000))), a) (tqTimers (loTimers s)))
    \<and> (\<exists>s1 s2. cancel tid clock b s = Inr s1 \<and> doTasks ltid clock s1 = Inr s2
      \<and> mapR loTimers (cancel ltid clock b s) = Inr (loTimers s2))"
proof (intro conjI)
  let ?t = "int64 (now + trunc_double (fl (dur * 1000000)))"
  from schedule_any_thread [OF assms, of clock "\<lparr>tmCallback = cb, tmExpiration = ?t, tmInterval = dur\<rparr>"]
  show "\<exists>s1 s2. runEvery fl tid clock now dur cb a s = Inr s1 \<and> tqTimers (loTimers s1) = tqTimers (loTimers s)
      \<and> doTasks ltid clock s1 = Inr s2 \<and> mapR loTimers (runEvery fl ltid clock now dur cb a s) = Inr (loTimers s2)
      \<and> tqTimers (loTimers s2) = insort (?t, a) (tqTimers (loTimers s))"
    unfolding runEvery_def by auto
  from schedule_any_thread [OF assms, of clock "\<lparr>tmCallback = cb, tmExpiration = ?t, tmInterval = 0\<rparr>"]
  show "\<exists>s1 s2. runAfter fl tid clock now dur cb a s = Inr s1 \<and> tqTimers (loTimers s1) = tqTimers (loTimers s)
      \<and> doTasks ltid clock s1 = Inr s2 \<and> mapR loTimers (runAfter fl ltid clock now dur cb a s) = Inr (loTimers s2)
      \<and> tqTimers (loTimers s2) = insort (?t, a) (tqTimers (loTimers s))"
    unfolding runAfter_def runAt_def by auto
qed (rule cancel_any_thread [OF assms(1-3)])

theorem timers_from_any_thread_witness:
  "\<exists>s s1 s2. runAfter (\<lambda>x. x) 2 5 100 (1/2) 9 4 s = Inr s1 \<and> doTasks 1 5 s1 = Inr s2
     \<and> tqTimers (loTimers s2) = [(500100, 4)]"
proof -
  let ?s = "\<lparr>loLoop = \<lparr>stopLooping = False, loopTid = 1, pendingTasks = [], wakeupCount = 0\<rparr>,
      loPoller = newEPollPoller, loTimers = newTimerQueue, loWakeup = newChannel 1 0 3, loTimerfd = newChannel 2 0 4\<rparr>"
  have "trunc_double (1/2 * 1000000) = 500000" "int64 500100 = 500100" by (simp_all add: trunc_double_def int64_def)
  moreover have "tq_inv (loTimers ?s)" using tq_inv_new by simp
  ultimately show ?thesis
    using timers_from_any_thread [of ?s 1 2 4 "\<lambda>x. x" 5 100 "1/2" 9 0]
    by (fastforce simp: isInLoopThread_def newTimerQueue_def)
qed

lemma mapR_bindR: "mapR f (bindR m g) = bindR m (\<lambda>x. mapR f (g x))"
  by (cases m) simp_all

lemma ownChannel_frame [simp]: "ownChannel c (s\<lparr>loPoller := p\<rparr>) = ownChannel c s" "ownChannel c (s\<lparr>loLoop := l\<rparr>) = ownChannel c s"
  by (cases c; simp)+

lemma run_own_tasks:
  assumes "isInLoopThread tid (loLoop s)"
  shows "runR (runLoopTask tid clock)
      (concat (map (\<lambda>c. [LAddChannel c, LUpdateChannel c]) cs)) s
    = mapR (\<lambda>p. s\<lparr>loPoller := p\<rparr>) (runR ep_step
        (concat (map (\<lambda>c. [AddChannel (ownChannel c s), UpdateChannel (ownChannel c s)]) cs)) (loPoller s))"
  using assms
proof (induction cs arbitrary: s)
  case (Cons c cs)
  have step: "runLoopTask tid clock (LAddChannel c) x = bindR (ep_step (AddChannel (ownChannel c x)) (loPoller x)) (\<lambda>p. Inr (x\<lparr>loPoller := p\<rparr>))"
    "runLoopTask tid clock (LUpdateChannel c) x = bindR (ep_step (UpdateChannel (ownChannel c x)) (loPoller x)) (\<lambda>p. Inr (x\<lparr>loPoller := p\<rparr>))"
    if "loLoop x = loLoop s" for x
    using Cons.prems that by (simp_all add: pollerStep_def assertInLoopThread_def)
  have IH: "runR (runLoopTask tid clock) (concat (map (\<lambda>c. [LAddChannel c, LUpdateChannel c]) cs)) (s\<lparr>loPoller := p\<rparr>)
    = mapR (\<lambda>p. s\<lparr>loPoller := p\<rparr>) (runR ep_step
        (concat (map (\<lambda>c. [AddChannel (ownChannel c s), UpdateChannel (ownChannel c s)]) cs)) p)" for p
    using Cons.IH [of "s\<lparr>loPoller := p\<rparr>"] Cons.prems by simp
  show ?case by (simp add: step bindR_assoc mapR_bindR IH del: runLoopTask.simps)
qed simp

text \<open>
  C24: a new \<^verbatim>\<open>EventLoop\<close> is wired up by its own first batch. The constructor runs before any thread
  owns the loop, so it only queues the registration of the wake-up and the timer channel and
  makes the wake-up descriptor readable; when a thread enters \<^verbatim>\<open>loop()\<close>, the first batch of tasks
  succeeds and leaves exactly these two descriptors registered and watched for input. The object
  cannot be destroyed while it loops; after \<^verbatim>\<open>quit()\<close> the destructor closes each of its descriptors
  once.
\<close>

theorem loop_constructor_registers:
  assumes "0 \<le> evRet" and "0 \<le> tfRet" and "evRet \<noteq> tfRet" and "0 \<le> epollfd"
  shows "\<exists>s1 l s2. newLoopObject tid epollfd evRet tfRet = Inr s1
    \<and> pendingTasks (loLoop s1) = [LAddChannel WakeupChannel, LUpdateChannel WakeupChannel,
         LAddChannel TimerChannel, LUpdateChannel TimerChannel] \<and> wakeupCount (loLoop s1) = 4
    \<and> startLooping ltid (loLoop s1) = Inr l \<and> doTasks ltid clock (s1\<lparr>loLoop := l\<rparr>) = Inr s2
    \<and> ep_registered (loPoller s2) = [evRet \<mapsto> 1, tfRet \<mapsto> 2]
    \<and> ep_watched (loPoller s2) = [evRet \<mapsto> kReadEvent, tfRet \<mapsto> kReadEvent]
    \<and> readCallback (loWakeup s2) = Some LoopHandleRead \<and> readCallback (loTimerfd s2) = Some TimerHandleRead
    \<and> loopDtor epollfd s2 = Inl AssertFailed
    \<and> (0 < tfRet \<longrightarrow> loopDtor epollfd (s2\<lparr>loLoop := perform (quit qtid (loLoop s2)) (loLoop s2)\<rparr>) = Inr [evRet, tfRet, epollfd])"
proof -
  let ?w = "readingEvents True (setReadCallback LoopHandleRead (newChannel 1 0 evRet))"
  let ?t = "readingEvents True (setReadCallback TimerHandleRead (newChannel 2 0 tfRet))"
  let ?tasks = "concat (map (\<lambda>c. [LAddChannel c, LUpdateChannel c]) [WakeupChannel, TimerChannel])"
  let ?s1 = "\<lparr>loLoop = \<lparr>stopLooping = True, loopTid = -1, pendingTasks = ?tasks, wakeupCount = 4\<rparr>,
      loPoller = newEPollPoller, loTimers = newTimerQueue, loWakeup = ?w, loTimerfd = ?t\<rparr>"
  let ?l = "\<lparr>stopLooping = False, loopTid = ltid, pendingTasks = ?tasks, wakeupCount = 4\<rparr>"
  have s1: "newLoopObject tid epollfd evRet tfRet = Inr ?s1"
    using assms(1,4) by (simp add: newLoopObject_def createEPollPoller_def createEventfd_def createTimerfd_def watchOwn_def enableChannel_def
        loopRun_def isInLoopThread_def newEventLoop_def perform_queue pushTask_def wakeup_def eventfdMax_def Let_def)
  have l: "startLooping ltid (loLoop ?s1) = Inr ?l"
    by (simp add: startLooping_def assertInLoopThread_def isInLoopThread_def Let_def)
  have chan: "chan_ok ?w" "chan_ok ?t" "interest ?w = Some kReadEvent" "interest ?t = Some kReadEvent"
  proof -
    have "kReadEvent = evmask True False" "kReadEvent \<noteq> kNoneEvent" by (simp_all add: evmask_def poll_bits)
    then show "chan_ok ?w" "chan_ok ?t" "interest ?w = Some kReadEvent" "interest ?t = Some kReadEvent"
      using assms(1,2)
      by (auto simp: chan_ok_def interest_def isNoneEvent_def readingEvents_def setReadCallback_def newChannel_def)
  qed
  let ?ops = "[AddChannel ?w, UpdateChannel ?w, AddChannel ?t, UpdateChannel ?t]"
  have "mapR (\<lambda>p. (ep_registered p, ep_watched p)) (runR ep_step ?ops newEPollPoller)
      = Inr ([evRet \<mapsto> 1, tfRet \<mapsto> 2], [evRet \<mapsto> kReadEvent, tfRet \<mapsto> kReadEvent])"
    using ep.run_refines [OF ep_inv_new, of ?ops] chan assms(3)
    by (simp add: ep_abs_new readingEvents_def setReadCallback_def newChannel_def)
  then obtain p where p: "runR ep_step ?ops newEPollPoller = Inr p" "ep_registered p = [evRet \<mapsto> 1, tfRet \<mapsto> 2]"
    "ep_watched p = [evRet \<mapsto> kReadEvent, tfRet \<mapsto> kReadEvent]" by (auto simp: mapR_eq_Inr)
  let ?s = "?s1\<lparr>loLoop := ?l\<lparr>pendingTasks := []\<rparr>\<rparr>"
  have "doTasks ltid clock (?s1\<lparr>loLoop := ?l\<rparr>) = Inr (?s\<lparr>loPoller := p\<rparr>)"
    using run_own_tasks [of ltid ?s clock "[WakeupChannel, TimerChannel]"] p(1)
    by (simp add: doTasks_def takeTasks_def isInLoopThread_def)
  moreover have "stopLooping (perform (quit qtid l) l)" for l :: "loop_task event_loop" by (simp add: perform_quit wakeup_def)
  ultimately show ?thesis using s1 l p(2,3) assms(1)
    by (intro exI [of _ ?s1] exI [of _ ?l] exI [of _ "?s\<lparr>loPoller := p\<rparr>"])
      (simp add: readingEvents_def setReadCallback_def newChannel_def dtor_defs)
qed

theorem loop_constructor_registers_witness:
  "\<exists>s1 l s2. newLoopObject 1 5 3 4 = Inr s1 \<and> startLooping 1 (loLoop s1) = Inr l
     \<and> doTasks 1 0 (s1\<lparr>loLoop := l\<rparr>) = Inr s2 \<and> ep_registered (loPoller s2) = [3 \<mapsto> 1, 4 \<mapsto> 2]
     \<and> loopDtor 5 (s2\<lparr>loLoop := perform (quit 2 (loLoop s2)) (loLoop s2)\<rparr>) = Inr [3, 4, 5]"
proof -
  have "(0 :: int) \<le> 3" "(0 :: int) \<le> 4" "(3 :: int) \<noteq> 4" "(0 :: int) \<le> 5" by simp_all
  from loop_constructor_registers [OF this, of 1 1 0 2] show ?thesis by auto
qed

end
