(* ===== verification/Net_Address.thy ===== *)
theory Net_Address
  imports C_Strings
begin

unbundle bit_operations_syntax

text \<open>
  The socket helpers and the class \<^verbatim>\<open>SockAddr\<close> of \<^verbatim>\<open>miniduo/net.h\<close> and \<^verbatim>\<open>miniduo/net.cpp\<close>.
  Port and address are kept in network byte order in words of their width; the host is
  little-endian. A system call is represented by the values it returns.
\<close>

section \<open>Model: byte order and the textual form of addresses\<close>

definition AF_INET :: "16 word" where
  "AF_INET = 2"

definition htons :: "16 word \<Rightarrow> 16 word" where
  "htons x = push_bit 8 x OR drop_bit 8 x"

definition ntohs :: "16 word \<Rightarrow> 16 word" where
  "ntohs x = push_bit 8 x OR drop_bit 8 x"

definition htonl :: "32 word \<Rightarrow> 32 word" where
  "htonl x = push_bit 24 x OR push_bit 8 (x AND 0xFF00) OR (drop_bit 8 x AND 0xFF00) OR drop_bit 24 x"

definition ntohl :: "32 word \<Rightarrow> 32 word" where
  "ntohl x = htonl x"

text \<open>The byte at offset \<open>i\<close> of an address in memory.\<close>

definition octet :: "nat \<Rightarrow> 32 word \<Rightarrow> nat" where
  "octet i a = unat a div 2 ^ (8 * i) mod 256"

definition inet_ntop :: "32 word \<Rightarrow> string" where
  "inet_ntop a = showNat (octet 0 a) @ ''.'' @ showNat (octet 1 a) @ ''.'' @ showNat (octet 2 a)
     @ ''.'' @ showNat (octet 3 a)"

fun splitOn :: "char \<Rightarrow> string \<Rightarrow> string list" where
  "splitOn d [] = [[]]"
| "splitOn d (c # cs) =
     (if c = d then [] # splitOn d cs
      else case splitOn d cs of [] \<Rightarrow> [[c]] | w # ws \<Rightarrow> (c # w) # ws)"

text \<open>A decimal number below 256 without a superfluous leading zero.\<close>

definition octetOf :: "string \<Rightarrow> nat option" where
  "octetOf s =
     (if s \<noteq> [] \<and> list_all isdigit s \<and> (length s = 1 \<or> hd s \<noteq> CHR ''0'') \<and> decimal s \<le> 255
      then Some (decimal s) else None)"

definition inet_pton :: "string \<Rightarrow> 32 word option" where
  "inet_pton s =
     (case map octetOf (splitOn CHR ''.'' (c_str s)) of
        [Some a, Some b, Some c, Some d] \<Rightarrow> Some (word_of_nat (a + 2 ^ 8 * b + 2 ^ 16 * c + 2 ^ 24 * d))
      | _ \<Rightarrow> None)"

section \<open>Model: SockAddr\<close>

record sockaddr_in =
  sin_family :: "16 word"
  sin_port :: "16 word"
  sin_addr :: "32 word"

text \<open>The constructor for a listening port; \<^verbatim>\<open>INADDR_ANY\<close> is 0.\<close>

definition listenAddr :: "16 word \<Rightarrow> sockaddr_in" where
  "listenAddr p = \<lparr>sin_family = AF_INET, sin_port = htons p, sin_addr = htonl 0\<rparr>"

text \<open>The constructor for an address; the result of \<^verbatim>\<open>inet_pton\<close> is ignored.\<close>

definition sockAddr :: "string \<Rightarrow> 16 word \<Rightarrow> sockaddr_in" where
  "sockAddr ip p =
     \<lparr>sin_family = AF_INET, sin_port = htons p,
      sin_addr = (case inet_pton ip of None \<Rightarrow> 0 | Some a \<Rightarrow> a)\<rparr>"

definition ipString :: "sockaddr_in \<Rightarrow> string" where
  "ipString a = (if sin_family a = AF_INET then inet_ntop (sin_addr a) else ''INVALID'')"

definition portOf :: "sockaddr_in \<Rightarrow> 16 word" where
  "portOf a = ntohs (sin_port a)"

definition ipInt :: "sockaddr_in \<Rightarrow> 32 word" where
  "ipInt a = ntohl (sin_addr a)"

definition addrString :: "sockaddr_in \<Rightarrow> string" where
  "addrString a = snprintf 32 (ipString a @ '':'' @ showInt (uint (ntohs (sin_port a))))"

section \<open>Model: socket helpers\<close>

text \<open>\<open>ret\<close> is what the system call returns.\<close>

definition createNonblockingSock :: "int \<Rightarrow> int result" where
  "createNonblockingSock ret = assertR (0 \<le> ret) (Inr ret)"

definition setReuseAddr :: "int \<Rightarrow> unit result" where
  "setReuseAddr ret = assertR (0 \<le> ret) (Inr ())"

definition bindAddr :: "int \<Rightarrow> unit result" where
  "bindAddr ret = assertR (0 \<le> ret) (Inr ())"

definition listenSock :: "int \<Rightarrow> unit result" where
  "listenSock ret = assertR (0 \<le> ret) (Inr ())"

definition shutdownWrite :: "int \<Rightarrow> unit result" where
  "shutdownWrite ret = assertR (0 \<le> ret) (Inr ())"

definition closeSock :: "int \<Rightarrow> unit result" where
  "closeSock ret = assertR (0 \<le> ret) (Inr ())"

text \<open>\<open>paddr\<close> is the address \<^verbatim>\<open>accept(2)\<close> stores, \<open>old\<close> the caller's variable.\<close>

definition acceptSock :: "int \<Rightarrow> sockaddr_in \<Rightarrow> sockaddr_in \<Rightarrow> int \<times> sockaddr_in" where
  "acceptSock ret paddr old = (ret, if 0 \<le> ret then paddr else old)"

definition getLocalAddr :: "int \<Rightarrow> sockaddr_in \<Rightarrow> sockaddr_in result" where
  "getLocalAddr ret localAddr = assertR (0 \<le> ret) (Inr localAddr)"

definition getPeerAddr :: "int \<Rightarrow> sockaddr_in \<Rightarrow> sockaddr_in result" where
  "getPeerAddr ret peerAddr = assertR (0 \<le> ret) (Inr peerAddr)"

definition connect :: "int \<Rightarrow> int" where
  "connect ret = ret"

definition getSocketError :: "int \<Rightarrow> int \<Rightarrow> int \<Rightarrow> int" where
  "getSocketError ret optval errno = (if ret < 0 then errno else optval)"

definition isSelfConnect :: "int \<times> sockaddr_in \<Rightarrow> int \<times> sockaddr_in \<Rightarrow> bool result" where
  "isSelfConnect lres pres =
     bindR (getLocalAddr (fst lres) (snd lres)) (\<lambda>localaddr.
     bindR (getPeerAddr (fst pres) (snd pres)) (\<lambda>peeraddr.
     Inr (sin_port localaddr = sin_port peeraddr \<and> sin_addr localaddr = sin_addr peeraddr)))"

section \<open>Lemmas\<close>

lemma ntohs_htons [simp]: "ntohs (htons x) = x" "htons (ntohs x) = x"
  by (auto simp: htons_def ntohs_def bit_eq_iff bit_simps)

lemma octet_le: "octet i a \<le> 255"
  using mod_less_divisor [of 256 "unat a div 2 ^ (8 * i)"] by (simp add: octet_def)

lemma word_of_octets:
  "word_of_nat (octet 0 a + 2 ^ 8 * octet 1 a + 2 ^ 16 * octet 2 a + 2 ^ 24 * octet 3 a) = a"
proof -
  define n where "n = unat a"
  have n3: "n div 2 ^ 24 < 256" using unsigned_less [of a, where 'a = nat] by (simp add: n_def less_mult_imp_div_less)
  have e: "n = 256 * (n div 256) + n mod 256" "n div 256 = 256 * (n div 65536) + n div 256 mod 256"
    "n div 65536 = 256 * (n div 16777216) + n div 65536 mod 256"
    using div_mult_mod_eq [of "n div 256" 256] div_mult_mod_eq [of "n div 65536" 256]
    by (simp_all add: div_mult2_eq [symmetric])
  have "n mod 256 + 256 * (n div 256 mod 256) + 65536 * (n div 65536 mod 256) + 16777216 * (n div 16777216) = n"
    using e by linarith
  then have "octet 0 a + 2 ^ 8 * octet 1 a + 2 ^ 16 * octet 2 a + 2 ^ 24 * octet 3 a = unat a"
    using n3 unfolding octet_def n_def [symmetric] by simp
  then show ?thesis by simp
qed

lemma digit0: "digit 0 = CHR ''0''"
  by code_simp

lemma showNat_decimal:
  "s \<noteq> [] \<Longrightarrow> list_all isdigit s \<Longrightarrow> length s = 1 \<or> hd s \<noteq> CHR ''0'' \<Longrightarrow> showNat (decimal s) = s"
proof (induction s rule: rev_induct)
  case (snoc c s)
  have c: "of_char c - 48 < (10 :: nat)" "digit (of_char c - 48) = c"
    using snoc.prems(2) by (auto simp: isdigit_def digit_def)
  show ?case
  proof (cases "s = []")
    case True
    then show ?thesis using c by (simp add: decimal_def showNat.simps)
  next
    case False
    with snoc have s: "showNat (decimal s) = s" "hd s \<noteq> CHR ''0''" by simp_all
    have "decimal s \<noteq> 0"
    proof
      assume "decimal s = 0"
      then have "s = ''0''" using s(1) digit0 by (simp add: showNat.simps)
      with s(2) show False by simp
    qed
    then show ?thesis using s(1) c by (simp add: decimal_snoc showNat.simps [of "10 * decimal s + _"])
  qed
qed simp

lemma hd_showNat: "0 < n \<Longrightarrow> hd (showNat n) \<noteq> CHR ''0''"
proof (induction n rule: showNat.induct)
  case (1 n)
  show ?case
  proof (cases "n < 10")
    case True
    have "(of_char (hd (showNat n)) :: nat) \<noteq> of_char (CHR ''0'')"
      using True 1(2) by (simp add: showNat.simps [of n] of_digit)
    then show ?thesis by metis
  next
    case False
    then show ?thesis using 1 by (simp add: showNat.simps [of n] showNat_not_Nil)
  qed
qed

lemma octetOf_showNat: "n \<le> 255 \<Longrightarrow> octetOf (showNat n) = Some n"
proof -
  have "length (showNat n) = 1 \<or> hd (showNat n) \<noteq> CHR ''0''"
    using hd_showNat [of n] by (cases "n = 0") (simp_all add: showNat.simps [of 0])
  moreover assume "n \<le> 255"
  ultimately show ?thesis
    by (simp add: octetOf_def decimal_showNat showNat_not_Nil list_all_iff showNat_digits)
qed

lemma splitOn_word: "d \<notin> set w \<Longrightarrow> splitOn d (w @ d # s) = w # splitOn d s"
  by (induction w) auto

lemma splitOn_last: "d \<notin> set w \<Longrightarrow> splitOn d w = [w]"
  by (induction w) auto

lemma splitOn_join: "splitOn d s = ws \<Longrightarrow> ws \<noteq> [] \<and> s = concat (map (\<lambda>w. w @ [d]) (butlast ws)) @ last ws"
proof (induction s arbitrary: ws)
  case (Cons c s)
  then show ?case by (cases "splitOn d s") (auto split: if_splits)
qed auto

lemma no_zero_byte:
  "CHR 0x00 \<notin> set (showNat n)" "CHR ''.'' \<notin> set (showNat n)" "CHR '':'' \<notin> set (showNat n)"
  using showNat_digits [of "CHR 0x00" n] showNat_digits [of "CHR ''.''" n] showNat_digits [of "CHR '':''" n]
  by (auto simp: isdigit_def)

lemma length_octet: "length (showNat (octet i a)) \<le> 3"
  using length_showNat [of "octet i a" 2] octet_le [of i a] by (simp add: eval_nat_numeral)

lemma inet_ntop_facts: "length (inet_ntop a) \<le> 15" "CHR 0x00 \<notin> set (inet_ntop a)" "CHR '':'' \<notin> set (inet_ntop a)"
  using length_octet [of 0 a] length_octet [of 1 a] length_octet [of 2 a] length_octet [of 3 a]
  by (simp_all add: inet_ntop_def no_zero_byte)

lemma c_str_id: "CHR 0x00 \<notin> set s \<Longrightarrow> c_str s = s"
  by (auto simp: c_str_def takeWhile_eq_all_conv)

lemma inet_pton_ntop: "inet_pton (inet_ntop a) = Some a"
proof -
  have "c_str (inet_ntop a) = inet_ntop a" by (rule c_str_id) (rule inet_ntop_facts)
  moreover have "splitOn CHR ''.'' (inet_ntop a)
      = [showNat (octet 0 a), showNat (octet 1 a), showNat (octet 2 a), showNat (octet 3 a)]"
    by (simp add: inet_ntop_def splitOn_word splitOn_last no_zero_byte)
  ultimately show ?thesis by (simp add: inet_pton_def octetOf_showNat octet_le word_of_octets [simplified])
qed

lemma octet_digits:
  assumes "p < 256" "q < 256" "r < 256" "t < (256 :: nat)"
  shows "(p + 256 * q + 65536 * r + 16777216 * t) mod 256 = p"
  "(p + 256 * q + 65536 * r + 16777216 * t) div 256 mod 256 = q"
  "(p + 256 * q + 65536 * r + 16777216 * t) div 65536 mod 256 = r"
  "(p + 256 * q + 65536 * r + 16777216 * t) div 16777216 mod 256 = t"
proof -
  have eq: "p + 256 * q + 65536 * r + 16777216 * t = p + (q + (r + t * 256) * 256) * 256" by simp
  have d: "x div 65536 = x div 256 div 256" "x div 16777216 = x div 256 div 256 div 256" for x :: nat
    by (simp_all add: div_mult2_eq [symmetric])
  have s: "(x + y * 256) mod 256 = x" "(x + y * 256) div 256 = y" if "x < 256" for x y :: nat using that by simp_all
  show "(p + 256 * q + 65536 * r + 16777216 * t) mod 256 = p"
  "(p + 256 * q + 65536 * r + 16777216 * t) div 256 mod 256 = q"
  "(p + 256 * q + 65536 * r + 16777216 * t) div 65536 mod 256 = r"
  "(p + 256 * q + 65536 * r + 16777216 * t) div 16777216 mod 256 = t"
    using assms unfolding eq d by (simp_all only: s mod_less)
qed

lemma inet_ntop_pton:
  assumes "inet_pton s = Some a"
  shows "inet_ntop a = c_str s"
proof -
  let ?ws = "splitOn CHR ''.'' (c_str s)"
  from assms obtain p q r t where ws: "map octetOf ?ws = [Some p, Some q, Some r, Some t]"
    and a: "a = word_of_nat (p + 2 ^ 8 * q + 2 ^ 16 * r + 2 ^ 24 * t)"
    by (auto simp: inet_pton_def split: list.splits option.splits)
  from ws obtain w1 w2 w3 w4 where split: "?ws = [w1, w2, w3, w4]"
    and o: "octetOf w1 = Some p" "octetOf w2 = Some q" "octetOf w3 = Some r" "octetOf w4 = Some t"
    by (auto simp: map_eq_Cons_conv)
  have d: "showNat n = w \<and> n < 256" if "octetOf w = Some n" for w n
    using that showNat_decimal [of w] by (auto simp: octetOf_def split: if_splits)
  note lt = d [OF o(1), THEN conjunct2] d [OF o(2), THEN conjunct2] d [OF o(3), THEN conjunct2] d [OF o(4), THEN conjunct2]
  have "unat (word_of_nat n :: 32 word) = n" if "n < 2 ^ 32" for n using that by (simp add: unat_of_nat)
  from this [of "p + 2 ^ 8 * q + 2 ^ 16 * r + 2 ^ 24 * t"]
  have "unat a = p + 2 ^ 8 * q + 2 ^ 16 * r + 2 ^ 24 * t" using lt unfolding a by simp
  then have "octet 0 a = p" "octet 1 a = q" "octet 2 a = r" "octet 3 a = t"
    using octet_digits [OF lt] by (simp_all add: octet_def)
  moreover have "c_str s = w1 @ ''.'' @ w2 @ ''.'' @ w3 @ ''.'' @ w4" using splitOn_join [OF split] by simp
  ultimately show ?thesis using d [OF o(1)] d [OF o(2)] d [OF o(3)] d [OF o(4)] by (simp add: inet_ntop_def)
qed

lemma addrString_eq:
  assumes "sin_family a = AF_INET"
  shows "addrString a = inet_ntop (sin_addr a) @ '':'' @ showNat (unat (portOf a))"
    and "length (addrString a) \<le> 21"
proof -
  let ?s = "inet_ntop (sin_addr a) @ '':'' @ showNat (unat (portOf a))"
  have "unat (portOf a) < 10 ^ Suc 4" using unsigned_less [of "portOf a", where 'a = nat] by simp
  then have len: "length (showNat (unat (portOf a))) \<le> 5" using length_showNat [of _ 4] by fastforce
  then have l: "length ?s \<le> 21" using inet_ntop_facts(1) [of "sin_addr a"] by simp
  have "c_str ?s = ?s" by (rule c_str_id) (simp add: inet_ntop_facts no_zero_byte)
  then have "snprintf 32 ?s = ?s" using l by (simp add: snprintf_def)
  then show "addrString a = ?s"
    using assms by (simp add: addrString_def ipString_def portOf_def showInt_def nat_uint_eq)
  with l show "length (addrString a) \<le> 21" by simp
qed

section \<open>Properties\<close>

text \<open>
  C27: addresses and their textual form determine each other. The address printed by \<open>ipString\<close>
  and the port rebuild the same \<^verbatim>\<open>SockAddr\<close>; a valid dotted address is printed back as it was
  given; \<open>addrString\<close> is never cut off by its buffer and is different for different addresses,
  so that it can name a server.
\<close>

theorem sockaddr_roundtrip:
  assumes "sin_family a = AF_INET" and "sin_family b = AF_INET"
  shows "sockAddr (ipString a) (portOf a) = a
    \<and> addrString a = ipString a @ '':'' @ showNat (unat (portOf a)) \<and> length (addrString a) \<le> 21
    \<and> (addrString a = addrString b \<longleftrightarrow> a = b)
    \<and> (inet_pton ip \<noteq> None \<longrightarrow> ipString (sockAddr ip p) = c_str ip) \<and> portOf (sockAddr ip p) = p"
proof -
  have rebuilt: "sockAddr (ipString x) (portOf x) = x" if "sin_family x = AF_INET" for x
    using that by (simp add: sockAddr_def ipString_def portOf_def inet_pton_ntop)
  have "a = b" if "addrString a = addrString b"
  proof -
    have eq: "inet_ntop (sin_addr a) @ CHR '':'' # showNat (unat (portOf a))
        = inet_ntop (sin_addr b) @ CHR '':'' # showNat (unat (portOf b))"
      using that addrString_eq(1) [OF assms(1)] addrString_eq(1) [OF assms(2)] by simp
    have "inet_ntop (sin_addr a) = inet_ntop (sin_addr b) \<and> showNat (unat (portOf a)) = showNat (unat (portOf b))"
      using eq inet_ntop_facts(3) by (metis append_Cons_eq_iff no_zero_byte(3))
    then have "ipString a = ipString b" "portOf a = portOf b"
      using assms decimal_showNat by (auto simp: ipString_def) (metis unsigned_word_eqI)
    then show ?thesis using rebuilt [OF assms(1)] rebuilt [OF assms(2)] by metis
  qed
  moreover have "ipString (sockAddr ip p) = c_str ip" if "inet_pton ip \<noteq> None"
    using that inet_ntop_pton [of ip] by (auto simp: ipString_def sockAddr_def)
  moreover have "portOf (sockAddr ip p) = p" by (simp add: portOf_def sockAddr_def)
  ultimately show ?thesis
    using rebuilt [OF assms(1)] addrString_eq [OF assms(1)] assms(1) by (auto simp: ipString_def)
qed

theorem sockaddr_roundtrip_witness:
  "addrString (sockAddr ''127.0.0.1'' 80) = ''127.0.0.1:80''
   \<and> ipString (sockAddr ''127.0.0.1'' 80) = ''127.0.0.1''"
proof -
  let ?a = "sockAddr ''127.0.0.1'' 80"
  have "sin_family ?a = AF_INET" by (simp add: sockAddr_def)
  note r = sockaddr_roundtrip [OF this this, of "''127.0.0.1''" 80]
  have "showNat 127 = ''127''" "showNat 0 = ''0''" "showNat 1 = ''1''" and port: "showNat 80 = ''80''"
    by code_simp+
  then have "octetOf ''127'' = Some 127" "octetOf ''0'' = Some 0" "octetOf ''1'' = Some 1"
    using octetOf_showNat [of 127] octetOf_showNat [of 0] octetOf_showNat [of 1] by simp_all
  moreover have c: "c_str ''127.0.0.1'' = ''127.0.0.1''" by (simp add: c_str_def)
  ultimately have "inet_pton ''127.0.0.1'' \<noteq> None" by (simp add: inet_pton_def)
  then show ?thesis using r c port by simp
qed

end
