(* ===== verification/Tcp_World.thy ===== *)
theory Tcp_World
  imports Byte_Buffer Loop_Object Net_Address "HOL-Library.AList"
begin

text \<open>
  The state shared by \<^verbatim>\<open>TcpServer\<close>, \<^verbatim>\<open>TcpConnection\<close> and the event loops they run on, and
  the operations of \<^verbatim>\<open>EventLoop\<close> and \<^verbatim>\<open>Channel\<close> that a connection uses. A world has the
  loops (0 is the base loop of the server, \<open>i + 1\<close> its sub loop \<open>i\<close>) with their queues and
  pollers, the two channels of every loop, the live connection objects by address, the server, the batch of tasks each loop is
  running, the handles (\<^verbatim>\<open>TcpConnectionPtr\<close>) that user code keeps, and the trace of system
  calls. \<open>wKernel\<close> is the result of the calls whose result the code asserts. Tasks are data: the function and the pointer that the code binds. Tasks that bind a
  \<^verbatim>\<open>shared_ptr\<close> keep the connection alive, tasks that bind \<^verbatim>\<open>this\<close> do not; a connection nobody
  keeps is destroyed by \<open>reap\<close>, and an access to a destroyed one is \<open>UseAfterFree\<close>.
\<close>

section \<open>Data\<close>

datatype stateE = kConnecting | kConnected | kDisconnecting | kDisconnected

datatype conn_cb = ConnHandleRead | ConnHandleWrite | AcceptorHandleRead

text \<open>The context is an \<^verbatim>\<open>AutoContext\<close>: absent until it is first asked for.\<close>

record 'x conn =
  cLoop :: nat
  cName :: string
  cState :: stateE
  cInput :: buffer
  cOutput :: buffer
  cContext :: "'x option"
  cSock :: int
  cChannel :: "conn_cb channel"
  cLocal :: sockaddr_in
  cPeer :: sockaddr_in

datatype task =
    TAddChannel nat
  | TUpdateChannel nat
  | TRemoveChannel nat
  | TEstablished nat
  | TDestroyed nat
  | TRemoveConnection nat
  | TShutdown nat
  | TClose nat
  | TQueueClose nat
  | TSend nat string
  | TWriteComplete nat
  | TListen
  | TAcceptorAdd
  | TAcceptorUpdate
  | TOwnAdd nat own_channel
  | TOwnUpdate nat own_channel

datatype effect =
    SysWrite int string
  | SysShutdown int
  | SysSendfile int int nat
  | SysClose int
  | SysListen int

record tcp_server =
  srvLoop :: nat
  srvName :: string
  srvConns :: "(string \<times> nat) list"
  srvStarted :: bool
  srvNextId :: int
  srvLoops :: event_loops
  srvListening :: bool
  srvAcceptFd :: int
  srvAcceptChannel :: "conn_cb channel"

text \<open>
  Channels are identified by addresses. In the poller of a loop 0 is the channel of the acceptor, 1
  and 2 are the loop's own wake-up and timer channel, and the channel of a connection has the address
  of the connection, which is greater.
\<close>

fun ownId :: "own_channel \<Rightarrow> nat" where
  "ownId WakeupChannel = 1"
| "ownId TimerChannel = 2"

record 'x world =
  wLoopCount :: nat
  wLoops :: "nat \<Rightarrow> task event_loop"
  wPollers :: "nat \<Rightarrow> epoll_poller"
  wOwn :: "nat \<Rightarrow> own_channel \<Rightarrow> loop_cb channel"
  wConns :: "nat \<rightharpoonup> 'x conn"
  wNextAddr :: nat
  wServer :: tcp_server
  wBatch :: "nat \<Rightarrow> task list"
  wHeld :: "nat list"
  wTrace :: "effect list"
  wKernel :: "effect \<Rightarrow> int"

text \<open>
  The user's callbacks, as functions on the world that also get the thread they run on. They
  are set before the server is started and then copied into every connection.
\<close>

record 'x callbacks =
  connectionCallback :: "int \<Rightarrow> nat \<Rightarrow> 'x world \<Rightarrow> 'x world result"
  msgCallback :: "int \<Rightarrow> nat \<Rightarrow> int \<Rightarrow> 'x world \<Rightarrow> 'x world result"
  writeCompleteCallback :: "(int \<Rightarrow> nat \<Rightarrow> 'x world \<Rightarrow> 'x world result) option"

section \<open>Access\<close>

definition withConn :: "nat \<Rightarrow> 'x world \<Rightarrow> ('x conn \<Rightarrow> 'y result) \<Rightarrow> 'y result" where
  "withConn c w f = (case wConns w c of None \<Rightarrow> Inl UseAfterFree | Some k \<Rightarrow> f k)"

definition putConn :: "nat \<Rightarrow> 'x conn \<Rightarrow> 'x world \<Rightarrow> 'x world" where
  "putConn c k w = w\<lparr>wConns := (wConns w)(c \<mapsto> k)\<rparr>"

definition putLoop :: "nat \<Rightarrow> task event_loop \<Rightarrow> 'x world \<Rightarrow> 'x world" where
  "putLoop l el w = w\<lparr>wLoops := (wLoops w)(l := el)\<rparr>"

definition emit :: "effect \<Rightarrow> 'x world \<Rightarrow> 'x world" where
  "emit e w = w\<lparr>wTrace := wTrace w @ [e]\<rparr>"

text \<open>A helper of \<^verbatim>\<open>miniduo/net.cpp\<close> applied to the result of its system call.\<close>

definition kernelCall :: "(int \<Rightarrow> unit result) \<Rightarrow> effect \<Rightarrow> 'x world \<Rightarrow> 'x world result" where
  "kernelCall f e w = bindR (f (wKernel w e)) (\<lambda>_. Inr (emit e w))"

definition putServer :: "tcp_server \<Rightarrow> 'x world \<Rightarrow> 'x world" where
  "putServer s w = w\<lparr>wServer := s\<rparr>"

section \<open>The event loop as a connection sees it\<close>

definition assertIn :: "int \<Rightarrow> nat \<Rightarrow> 'x world \<Rightarrow> 'y result \<Rightarrow> 'y result" where
  "assertIn tid l w m = assertInLoopThread tid (wLoops w l) m"

definition queueTask :: "nat \<Rightarrow> task \<Rightarrow> 'x world \<Rightarrow> 'x world" where
  "queueTask l t w = putLoop l (perform (queueInLoop t) (wLoops w l)) w"

definition runInLoop :: "int \<Rightarrow> nat \<Rightarrow> task \<Rightarrow> ('x world \<Rightarrow> 'x world result) \<Rightarrow> 'x world \<Rightarrow> 'x world result" where
  "runInLoop tid l t cb w =
     (if isInLoopThread tid (wLoops w l) then cb w else Inr (queueTask l t w))"

text \<open>A poller operation, with the \<^verbatim>\<open>assertInLoop()\<close> it starts with.\<close>

definition pollerOp :: "int \<Rightarrow> nat \<Rightarrow> 'cb poller_op \<Rightarrow> 'x world \<Rightarrow> 'x world result" where
  "pollerOp tid l op w =
     assertIn tid l w
       (bindR (ep_step op (wPollers w l)) (\<lambda>p. Inr (w\<lparr>wPollers := (wPollers w)(l := p)\<rparr>)))"

text \<open>The channels of loop \<open>l\<close> itself.\<close>

definition putOwn :: "nat \<Rightarrow> own_channel \<Rightarrow> loop_cb channel \<Rightarrow> 'x world \<Rightarrow> 'x world" where
  "putOwn l x ch w = w\<lparr>wOwn := (wOwn w)(l := (wOwn w l)(x := ch))\<rparr>"

definition ownOp :: "int \<Rightarrow> (loop_cb channel \<Rightarrow> loop_cb poller_op) \<Rightarrow> nat \<Rightarrow> own_channel \<Rightarrow> 'x world \<Rightarrow> 'x world result" where
  "ownOp tid mk l x w = pollerOp tid l (mk (wOwn w l x)) w"

definition connPollerOp :: "int \<Rightarrow> (conn_cb channel \<Rightarrow> conn_cb poller_op) \<Rightarrow> nat \<Rightarrow> 'x world \<Rightarrow> 'x world result" where
  "connPollerOp tid mk c w = withConn c w (\<lambda>k. pollerOp tid (cLoop k) (mk (cChannel k)) w)"

definition loopAddChannel :: "int \<Rightarrow> nat \<Rightarrow> 'x world \<Rightarrow> 'x world result" where
  "loopAddChannel tid c w =
     withConn c w (\<lambda>k. assertR (chLoop (cChannel k) = cLoop k)
       (runInLoop tid (cLoop k) (TAddChannel c) (connPollerOp tid AddChannel c) w))"

definition loopUpdateChannel :: "int \<Rightarrow> nat \<Rightarrow> 'x world \<Rightarrow> 'x world result" where
  "loopUpdateChannel tid c w =
     withConn c w (\<lambda>k. assertR (chLoop (cChannel k) = cLoop k)
       (runInLoop tid (cLoop k) (TUpdateChannel c) (connPollerOp tid UpdateChannel c) w))"

definition loopRemoveChannel :: "int \<Rightarrow> nat \<Rightarrow> 'x world \<Rightarrow> 'x world result" where
  "loopRemoveChannel tid c w =
     withConn c w (\<lambda>k. assertR (chLoop (cChannel k) = cLoop k)
       (runInLoop tid (cLoop k) (TRemoveChannel c) (connPollerOp tid RemoveChannel c) w))"

text \<open>\<^verbatim>\<open>enableReading\<close>, \<^verbatim>\<open>enableWriting\<close> and \<^verbatim>\<open>disableAll\<close>: change the interest, then \<^verbatim>\<open>update()\<close>.\<close>

definition changeInterest :: "int \<Rightarrow> (conn_cb channel \<Rightarrow> conn_cb channel) \<Rightarrow> nat \<Rightarrow> 'x world \<Rightarrow> 'x world result" where
  "changeInterest tid f c w =
     withConn c w (\<lambda>k. loopUpdateChannel tid c (putConn c (k\<lparr>cChannel := f (cChannel k)\<rparr>) w))"

definition enableReading :: "int \<Rightarrow> bool \<Rightarrow> nat \<Rightarrow> 'x world \<Rightarrow> 'x world result" where
  "enableReading tid enable c w = changeInterest tid (readingEvents enable) c w"

definition enableWriting :: "int \<Rightarrow> bool \<Rightarrow> nat \<Rightarrow> 'x world \<Rightarrow> 'x world result" where
  "enableWriting tid enable c w = changeInterest tid (writingEvents enable) c w"

definition disableAll :: "int \<Rightarrow> nat \<Rightarrow> 'x world \<Rightarrow> 'x world result" where
  "disableAll tid c w = changeInterest tid noEvents c w"

section \<open>Life time of connections\<close>

fun keeps :: "task \<Rightarrow> nat list" where
  "keeps (TEstablished c) = [c]"
| "keeps (TDestroyed c) = [c]"
| "keeps (TRemoveConnection c) = [c]"
| "keeps (TWriteComplete c) = [c]"
| "keeps _ = []"

definition kept :: "'x world \<Rightarrow> nat list" where
  "kept w = map snd (srvConns (wServer w)) @ wHeld w
     @ concat (map (\<lambda>l. concat (map keeps (pendingTasks (wLoops w l) @ wBatch w l))) [0..<wLoopCount w])"

definition destroyConn :: "nat \<Rightarrow> 'x world \<Rightarrow> 'x world" where
  "destroyConn c w =
     (case wConns w c of
        None \<Rightarrow> w
      | Some k \<Rightarrow> emit (SysClose (cSock k)) (w\<lparr>wConns := (wConns w)(c := None)\<rparr>))"

definition reap :: "'x world \<Rightarrow> 'x world" where
  "reap w = fold destroyConn (filter (\<lambda>c. c \<notin> set (kept w)) [0..<wNextAddr w]) w"

section \<open>Well-formed connections\<close>

text \<open>What holds of every connection object between two calls.\<close>

definition conn_ok :: "nat \<Rightarrow> 'x conn \<Rightarrow> bool" where
  "conn_ok c k \<longleftrightarrow> chan_ok (cChannel k) \<and> chId (cChannel k) = c \<and> chLoop (cChannel k) = cLoop k
     \<and> chFd (cChannel k) = cSock k \<and> buf_ok (cInput k) \<and> buf_ok (cOutput k)"

text \<open>
  A connection whose channel is registered with the poller of its loop, seen from the thread of
  that loop.
\<close>

definition conn_attached :: "int \<Rightarrow> nat \<Rightarrow> 'x conn \<Rightarrow> 'x world \<Rightarrow> bool" where
  "conn_attached tid c k w \<longleftrightarrow> wConns w c = Some k \<and> conn_ok c k
     \<and> isInLoopThread tid (wLoops w (cLoop k)) \<and> ep_inv (wPollers w (cLoop k))
     \<and> ep_registered (wPollers w (cLoop k)) (cSock k) = Some c"

lemma withConn_Some: "wConns w c = Some k \<Longrightarrow> withConn c w f = f k"
  by (simp add: withConn_def)

lemma withConn_None: "wConns w c = None \<Longrightarrow> withConn c w f = Inl UseAfterFree"
  by (simp add: withConn_def)

lemma assertIn_yes: "isInLoopThread tid (wLoops w l) \<Longrightarrow> assertIn tid l w m = m"
  by (simp add: assertIn_def assertInLoopThread_def)

lemma assertIn_no: "\<not> isInLoopThread tid (wLoops w l) \<Longrightarrow> assertIn tid l w m = Inl Aborted"
  by (simp add: assertIn_def assertInLoopThread_def)

lemma runInLoop_yes: "isInLoopThread tid (wLoops w l) \<Longrightarrow> runInLoop tid l t f w = f w"
  by (simp add: runInLoop_def)

lemma runInLoop_no: "\<not> isInLoopThread tid (wLoops w l) \<Longrightarrow> runInLoop tid l t f w = Inr (queueTask l t w)"
  by (simp add: runInLoop_def)

lemmas world_simps = withConn_Some assertIn_yes runInLoop_yes

lemma world_frame [simp]:
  "wConns (putConn c k w) = (wConns w)(c \<mapsto> k)" "wLoops (putConn c k w) = wLoops w"
  "wPollers (putConn c k w) = wPollers w" "wServer (putConn c k w) = wServer w"
  "wTrace (putConn c k w) = wTrace w" "wHeld (putConn c k w) = wHeld w"
  "wBatch (putConn c k w) = wBatch w" "wNextAddr (putConn c k w) = wNextAddr w"
  "wLoopCount (putConn c k w) = wLoopCount w" "wKernel (putConn c k w) = wKernel w"
  "wConns (emit e w) = wConns w" "wLoops (emit e w) = wLoops w" "wPollers (emit e w) = wPollers w"
  "wServer (emit e w) = wServer w" "wTrace (emit e w) = wTrace w @ [e]" "wHeld (emit e w) = wHeld w"
  "wBatch (emit e w) = wBatch w" "wNextAddr (emit e w) = wNextAddr w" "wLoopCount (emit e w) = wLoopCount w" "wKernel (emit e w) = wKernel w"
  "wConns (putServer s w) = wConns w" "wLoops (putServer s w) = wLoops w"
  "wPollers (putServer s w) = wPollers w" "wServer (putServer s w) = s"
  "wTrace (putServer s w) = wTrace w" "wHeld (putServer s w) = wHeld w"
  "wBatch (putServer s w) = wBatch w" "wNextAddr (putServer s w) = wNextAddr w"
  "wLoopCount (putServer s w) = wLoopCount w" "wKernel (putServer s w) = wKernel w"
  "wConns (putLoop l el w) = wConns w" "wLoops (putLoop l el w) = (wLoops w)(l := el)"
  "wPollers (putLoop l el w) = wPollers w" "wServer (putLoop l el w) = wServer w"
  "wTrace (putLoop l el w) = wTrace w" "wHeld (putLoop l el w) = wHeld w"
  "wBatch (putLoop l el w) = wBatch w" "wNextAddr (putLoop l el w) = wNextAddr w"
  "wLoopCount (putLoop l el w) = wLoopCount w" "wKernel (putLoop l el w) = wKernel w"
  "wOwn (putConn c k w) = wOwn w" "wOwn (emit e w) = wOwn w" "wOwn (putServer s w) = wOwn w" "wOwn (putLoop l el w) = wOwn w"
  by (simp_all add: putConn_def emit_def putServer_def putLoop_def)

lemma putOwn_frame [simp]:
  "wConns (putOwn l x ch w) = wConns w" "wLoops (putOwn l x ch w) = wLoops w" "wPollers (putOwn l x ch w) = wPollers w"
  "wServer (putOwn l x ch w) = wServer w" "wTrace (putOwn l x ch w) = wTrace w" "wHeld (putOwn l x ch w) = wHeld w"
  "wBatch (putOwn l x ch w) = wBatch w" "wNextAddr (putOwn l x ch w) = wNextAddr w"
  "wLoopCount (putOwn l x ch w) = wLoopCount w" "wKernel (putOwn l x ch w) = wKernel w"
  "wOwn (putOwn l x ch w) = (wOwn w)(l := (wOwn w l)(x := ch))"
  by (simp_all add: putOwn_def)

lemma world_queue [simp]:
  "wConns (queueTask l t w) = wConns w" "wPollers (queueTask l t w) = wPollers w"
  "wServer (queueTask l t w) = wServer w" "wTrace (queueTask l t w) = wTrace w"
  "wHeld (queueTask l t w) = wHeld w" "wBatch (queueTask l t w) = wBatch w"
  "wNextAddr (queueTask l t w) = wNextAddr w" "wLoopCount (queueTask l t w) = wLoopCount w"
  "wOwn (queueTask l t w) = wOwn w"
  "isInLoopThread tid (wLoops (queueTask l t w) m) = isInLoopThread tid (wLoops w m)"
  "pendingTasks (wLoops (queueTask l t w) m)
     = pendingTasks (wLoops w m) @ (if m = l then [t] else [])"
  by (simp_all add: queueTask_def perform_queue pushTask_def isInLoopThread_def)

text \<open>The effect of a change of the interest set: the connection and its loop's poller.\<close>

definition reregister :: "nat \<Rightarrow> 'x conn \<Rightarrow> epoll_poller \<Rightarrow> 'x world \<Rightarrow> 'x world" where
  "reregister c k p w = w\<lparr>wConns := (wConns w)(c \<mapsto> k), wPollers := (wPollers w)(cLoop k := p)\<rparr>"

lemma reregister_frame [simp]:
  "wConns (reregister c k p w) = (wConns w)(c \<mapsto> k)" "wLoops (reregister c k p w) = wLoops w"
  "wPollers (reregister c k p w) = (wPollers w)(cLoop k := p)" "wServer (reregister c k p w) = wServer w"
  "wTrace (reregister c k p w) = wTrace w" "wHeld (reregister c k p w) = wHeld w"
  "wBatch (reregister c k p w) = wBatch w" "wNextAddr (reregister c k p w) = wNextAddr w"
  "wLoopCount (reregister c k p w) = wLoopCount w" "wOwn (reregister c k p w) = wOwn w"
  by (simp_all add: reregister_def)

text \<open>A change of the interest set of an attached connection, made on its loop's thread.\<close>

lemma ep_update_registered:
  assumes "ep_inv p" and "ep_registered p (chFd ch) = Some (chId ch)" and "chan_ok ch"
  obtains p' where "ep_step (UpdateChannel ch) p = Inr p'" "ep_inv p'"
    "ep_registered p' = ep_registered p" "ep_watched p' = (ep_watched p)(chFd ch := interest ch)"
proof -
  from ep.step_refines [OF assms(1), of "UpdateChannel ch"] assms(2,3)
  have m: "mapR (\<lambda>p. (ep_registered p, ep_watched p)) (ep_step (UpdateChannel ch) p)
      = Inr (ep_registered p, (ep_watched p)(chFd ch := interest ch))" by simp
  then obtain p' where p': "ep_step (UpdateChannel ch) p = Inr p'"
    "ep_registered p' = ep_registered p" "ep_watched p' = (ep_watched p)(chFd ch := interest ch)"
    by (auto simp: mapR_eq_Inr)
  moreover have "ep_inv p'" using ep.step_inv [OF assms(1) _ p'(1)] assms(3) by simp
  ultimately show thesis using that by blast
qed

lemma changeInterest_ok:
  assumes "conn_attached tid c k w" and "chan_ok (f (cChannel k))"
    and "chId (f (cChannel k)) = c" "chFd (f (cChannel k)) = cSock k" "chLoop (f (cChannel k)) = cLoop k"
  obtains p' where "changeInterest tid f c w = Inr (reregister c (k\<lparr>cChannel := f (cChannel k)\<rparr>) p' w)"
    "conn_attached tid c (k\<lparr>cChannel := f (cChannel k)\<rparr>)
       (reregister c (k\<lparr>cChannel := f (cChannel k)\<rparr>) p' w)"
    "ep_watched p' = (ep_watched (wPollers w (cLoop k)))(cSock k := interest (f (cChannel k)))"
    "ep_registered p' = ep_registered (wPollers w (cLoop k))"
proof -
  let ?ch = "f (cChannel k)" and ?k = "k\<lparr>cChannel := f (cChannel k)\<rparr>"
  have k: "wConns w c = Some k" "conn_ok c k" "isInLoopThread tid (wLoops w (cLoop k))"
    "ep_inv (wPollers w (cLoop k))" "ep_registered (wPollers w (cLoop k)) (chFd ?ch) = Some (chId ?ch)"
    using assms by (auto simp: conn_attached_def)
  obtain p' where p': "ep_step (UpdateChannel ?ch) (wPollers w (cLoop k)) = Inr p'" "ep_inv p'"
    "ep_registered p' = ep_registered (wPollers w (cLoop k))"
    "ep_watched p' = (ep_watched (wPollers w (cLoop k)))(chFd ?ch := interest ?ch)"
    by (rule ep_update_registered [OF k(4,5) assms(2)])
  let ?w = "reregister c ?k p' w"
  have "changeInterest tid f c w = Inr ?w"
    using k(1,3) p'(1) assms(5)
    by (simp add: changeInterest_def loopUpdateChannel_def connPollerOp_def pollerOp_def world_simps
        putConn_def reregister_def)
  moreover have "conn_attached tid c ?k ?w"
    using k p' assms(2-) by (simp add: conn_attached_def conn_ok_def)
  ultimately show thesis using p'(3,4) assms(4) that by simp
qed

text \<open>
  The same for the three operations of a channel; the new interest is what the specification
  of a channel says, and everything else in the world stays.
\<close>

lemma chan_step_attached:
  assumes "conn_attached tid c k w"
  obtains p' where
    "changeInterest tid (chan_step x) c w = Inr (reregister c (k\<lparr>cChannel := chan_step x (cChannel k)\<rparr>) p' w)"
    "conn_attached tid c (k\<lparr>cChannel := chan_step x (cChannel k)\<rparr>)
       (reregister c (k\<lparr>cChannel := chan_step x (cChannel k)\<rparr>) p' w)"
    "ep_watched p' = (ep_watched (wPollers w (cLoop k)))(cSock k := interest (chan_step x (cChannel k)))"
    "ep_registered p' = ep_registered (wPollers w (cLoop k))"
proof -
  have "conn_ok c k" using assms by (simp add: conn_attached_def)
  then have "chan_ok (chan_step x (cChannel k))" "chId (chan_step x (cChannel k)) = c"
    "chFd (chan_step x (cChannel k)) = cSock k" "chLoop (chan_step x (cChannel k)) = cLoop k"
    by (simp_all add: conn_ok_def chan_step_frame chan_ok_step)
  from changeInterest_ok [where f = "chan_step x", OF assms this that] show thesis .
qed

lemma interest_steps:
  "enableReading tid e c w = changeInterest tid (chan_step (EnableReading e)) c w"
  "enableWriting tid e c w = changeInterest tid (chan_step (EnableWriting e)) c w"
  "disableAll tid c w = changeInterest tid (chan_step DisableAll) c w"
proof -
  have eqs: "chan_step (EnableReading e) = (readingEvents e :: conn_cb channel \<Rightarrow> conn_cb channel)"
    "chan_step (EnableWriting e) = (writingEvents e :: conn_cb channel \<Rightarrow> conn_cb channel)"
    "chan_step DisableAll = (noEvents :: conn_cb channel \<Rightarrow> conn_cb channel)"
    by (rule ext, simp)+
  show "enableReading tid e c w = changeInterest tid (chan_step (EnableReading e)) c w"
    "enableWriting tid e c w = changeInterest tid (chan_step (EnableWriting e)) c w"
    "disableAll tid c w = changeInterest tid (chan_step DisableAll) c w"
    by (simp_all add: enableReading_def enableWriting_def disableAll_def eqs)
qed

lemma conn_attachedD:
  assumes "conn_attached tid c k w"
  shows "wConns w c = Some k" "conn_ok c k" "isInLoopThread tid (wLoops w (cLoop k))"
    "chan_ok (cChannel k)" "chFd (cChannel k) = cSock k" "buf_ok (cOutput k)" "buf_ok (cInput k)"
    "chLoop (cChannel k) = cLoop k" "chId (cChannel k) = c"
  using assms by (auto simp: conn_attached_def conn_ok_def)

text \<open>An update of an attached connection that leaves its channel alone.\<close>

lemma conn_attached_put:
  assumes "conn_attached tid c k w" and "cChannel k' = cChannel k" "cLoop k' = cLoop k" "cSock k' = cSock k"
    and "buf_ok (cInput k')" "buf_ok (cOutput k')"
  shows "conn_attached tid c k' (putConn c k' w)"
  using assms by (simp add: conn_attached_def conn_ok_def)

lemma conn_attached_emit [simp]: "conn_attached tid c k (emit e w) = conn_attached tid c k w"
  by (simp add: conn_attached_def)

lemma conn_attached_queue [simp]: "conn_attached tid c k (queueTask l t w) = conn_attached tid c k w"
  by (simp add: conn_attached_def)

text \<open>
  What an operation on a connection leaves alone: the name, the handles, the counters, and the
  tasks of all other loops.
\<close>

definition alongside :: "'x conn \<Rightarrow> 'x world \<Rightarrow> 'x conn \<Rightarrow> 'x world \<Rightarrow> bool" where
  "alongside k w k' w' \<longleftrightarrow> cName k' = cName k \<and> wHeld w' = wHeld w \<and> wNextAddr w' = wNextAddr w
     \<and> wLoopCount w' = wLoopCount w
     \<and> (\<forall>m. m \<noteq> cLoop k \<longrightarrow> pendingTasks (wLoops w' m) = pendingTasks (wLoops w m) \<and> wBatch w' m = wBatch w m)"

lemma alongside_trans:
  "alongside k w k1 w1 \<Longrightarrow> alongside k1 w1 k2 w2 \<Longrightarrow> cLoop k1 = cLoop k \<Longrightarrow> alongside k w k2 w2"
  by (simp add: alongside_def)

text \<open>
  A connection on the loop of the server that only the server's map keeps alive, tasks of its own
  loop apart.
\<close>

definition sole_owner :: "nat \<Rightarrow> 'x conn \<Rightarrow> 'x world \<Rightarrow> bool" where
  "sole_owner c k w \<longleftrightarrow> srvLoop (wServer w) = cLoop k \<and> cLoop k < wLoopCount w \<and> c < wNextAddr w
     \<and> (cName k, c) \<in> set (srvConns (wServer w))
     \<and> c \<notin> snd ` set (filter (\<lambda>e. fst e \<noteq> cName k) (srvConns (wServer w)))
     \<and> c \<notin> set (wHeld w)
     \<and> (\<forall>m. m \<noteq> cLoop k \<longrightarrow> c \<notin> set (concat (map keeps (pendingTasks (wLoops w m) @ wBatch w m))))"

lemma sole_owner_alongside:
  assumes "sole_owner c k w" and "alongside k w k' w'" and "cLoop k' = cLoop k" and "wServer w' = wServer w"
  shows "sole_owner c k' w'"
  using assms by (simp add: sole_owner_def alongside_def)

lemma sole_owner_served: "sole_owner c k w \<Longrightarrow> c \<in> snd ` set (srvConns (wServer w))"
  by (force simp: sole_owner_def)

section \<open>Destroying connections\<close>

lemma destroyConn_frame [simp]:
  "wLoops (destroyConn c w) = wLoops w" "wPollers (destroyConn c w) = wPollers w"
  "wServer (destroyConn c w) = wServer w" "wHeld (destroyConn c w) = wHeld w"
  "wBatch (destroyConn c w) = wBatch w" "wNextAddr (destroyConn c w) = wNextAddr w"
  "wLoopCount (destroyConn c w) = wLoopCount w" "wOwn (destroyConn c w) = wOwn w" "wConns (destroyConn c w) = (wConns w)(c := None)"
  "wTrace (destroyConn c w) = wTrace w @ (case wConns w c of None \<Rightarrow> [] | Some k \<Rightarrow> [SysClose (cSock k)])"
  by (auto simp: destroyConn_def fun_upd_idem split: option.splits)

lemma fold_destroy:
  "wLoops (fold destroyConn cs w) = wLoops w" "wPollers (fold destroyConn cs w) = wPollers w"
  "wServer (fold destroyConn cs w) = wServer w" "wHeld (fold destroyConn cs w) = wHeld w"
  "wBatch (fold destroyConn cs w) = wBatch w"
  "wConns (fold destroyConn cs w) x = (if x \<in> set cs then None else wConns w x)"
  "wNextAddr (fold destroyConn cs w) = wNextAddr w" "wLoopCount (fold destroyConn cs w) = wLoopCount w"
  "wOwn (fold destroyConn cs w) = wOwn w"
  by (induction cs arbitrary: w) auto

lemma trace_destroy:
  "distinct cs \<Longrightarrow> wTrace (fold destroyConn cs w)
     = wTrace w @ concat (map (\<lambda>c. case wConns w c of None \<Rightarrow> [] | Some k \<Rightarrow> [SysClose (cSock k)]) cs)"
proof (induction cs arbitrary: w)
  case (Cons c cs)
  have "map (\<lambda>x. case ((wConns w)(c := None)) x of None \<Rightarrow> [] | Some k \<Rightarrow> [SysClose (cSock k)]) cs
      = map (\<lambda>x. case wConns w x of None \<Rightarrow> [] | Some k \<Rightarrow> [SysClose (cSock k)]) cs"
    using Cons.prems by (intro map_cong) auto
  with Cons show ?case by (simp del: map_eq_conv fun_upd_apply)
qed simp

lemma reap_frame [simp]:
  "wLoops (reap w) = wLoops w" "wPollers (reap w) = wPollers w" "wServer (reap w) = wServer w"
  "wHeld (reap w) = wHeld w" "wBatch (reap w) = wBatch w" "wNextAddr (reap w) = wNextAddr w"
  "wLoopCount (reap w) = wLoopCount w" "wOwn (reap w) = wOwn w"
  by (simp_all add: reap_def fold_destroy)

lemma reap_conns:
  "wConns (reap w) c = (if c < wNextAddr w \<and> c \<notin> set (kept w) then None else wConns w c)"
  by (simp add: reap_def fold_destroy)

lemma reap_closes:
  assumes "wConns w c = Some k" and "c < wNextAddr w" and "c \<notin> set (kept w)"
  shows "SysClose (cSock k) \<in> set (wTrace (reap w))"
proof -
  have "wTrace (reap w) = wTrace w @ concat (map (\<lambda>c. case wConns w c of None \<Rightarrow> [] | Some k \<Rightarrow> [SysClose (cSock k)])
      (filter (\<lambda>c. c \<notin> set (kept w)) [0..<wNextAddr w]))"
    unfolding reap_def by (rule trace_destroy) simp
  moreover have "c \<in> set (filter (\<lambda>c. c \<notin> set (kept w)) [0..<wNextAddr w])" using assms(2,3) by simp
  ultimately show ?thesis using assms(1) by force
qed

text \<open>A socket that only one connection has is closed once.\<close>

lemma reap_closes_once:
  assumes "wConns w c = Some k" and "c < wNextAddr w" and "c \<notin> set (kept w)"
    and "\<forall>d j. wConns w d = Some j \<longrightarrow> d \<noteq> c \<longrightarrow> cSock j \<noteq> cSock k"
  shows "count_list (wTrace (reap w)) (SysClose (cSock k)) = Suc (count_list (wTrace w) (SysClose (cSock k)))"
proof -
  let ?cs = "filter (\<lambda>c. c \<notin> set (kept w)) [0..<wNextAddr w]"
  let ?tr = "\<lambda>cs. concat (map (\<lambda>c. case wConns w c of None \<Rightarrow> [] | Some k \<Rightarrow> [SysClose (cSock k)]) cs)"
  have none: "c \<notin> set cs \<Longrightarrow> count_list (?tr cs) (SysClose (cSock k)) = 0" for cs
    by (induction cs) (use assms(4) in \<open>auto split: option.splits\<close>)
  have "c \<in> set ?cs" using assms(2,3) by simp
  then obtain xs ys where cs: "?cs = xs @ c # ys" by (meson split_list)
  have "distinct ?cs" by simp
  then have "c \<notin> set xs" "c \<notin> set ys" by (simp_all add: cs)
  then have "count_list (?tr ?cs) (SysClose (cSock k)) = 1" unfolding cs using none assms(1) by simp
  moreover have "wTrace (reap w) = wTrace w @ ?tr ?cs" unfolding reap_def by (rule trace_destroy) simp
  ultimately show ?thesis by simp
qed

lemma reap_trace: "\<exists>fds. wTrace (reap w) = wTrace w @ map SysClose fds"
proof -
  have "\<exists>fds. wTrace (fold destroyConn cs w) = wTrace w @ map SysClose fds" for cs and w :: "'x world"
  proof (induction cs arbitrary: w)
    case (Cons c cs)
    obtain fds where "wTrace (fold destroyConn cs (destroyConn c w)) = wTrace (destroyConn c w) @ map SysClose fds"
      using Cons by blast
    then show ?case by (intro exI [of _ "(case wConns w c of None \<Rightarrow> [] | Some k \<Rightarrow> [cSock k]) @ fds"])
        (simp split: option.splits)
  qed simp
  then show ?thesis by (simp add: reap_def)
qed

lemma ep_remove_registered:
  assumes "ep_inv p" and "ep_registered p (chFd ch) = Some (chId ch)" and "chan_ok ch" and "isNoneEvent ch"
  obtains p' where "ep_step (RemoveChannel ch) p = Inr p'" "ep_inv p'"
    "ep_registered p' = (ep_registered p)(chFd ch := None)"
proof -
  from ep.step_refines [OF assms(1), of "RemoveChannel ch"] assms(2-)
  have m: "mapR (\<lambda>p. (ep_registered p, ep_watched p)) (ep_step (RemoveChannel ch) p)
      = Inr ((ep_registered p)(chFd ch := None), (ep_watched p)(chFd ch := None))" by simp
  then obtain p' where p': "ep_step (RemoveChannel ch) p = Inr p'"
    "ep_registered p' = (ep_registered p)(chFd ch := None)"
    by (auto simp: mapR_eq_Inr)
  moreover have "ep_inv p'" using ep.step_inv [OF assms(1) _ p'(1)] assms(3) by simp
  ultimately show thesis using that by blast
qed

lemma ep_add_unregistered:
  assumes "ep_inv p" and "ep_registered p (chFd ch) = None" and "chan_ok ch"
  obtains p' where "ep_step (AddChannel ch) p = Inr p'" "ep_inv p'"
    "ep_registered p' = (ep_registered p)(chFd ch \<mapsto> chId ch)"
proof -
  from ep.step_refines [OF assms(1), of "AddChannel ch"] assms(2-)
  have m: "mapR (\<lambda>p. (ep_registered p, ep_watched p)) (ep_step (AddChannel ch) p)
      = Inr ((ep_registered p)(chFd ch \<mapsto> chId ch), (ep_watched p)(chFd ch := interest ch))" by simp
  then obtain p' where p': "ep_step (AddChannel ch) p = Inr p'"
    "ep_registered p' = (ep_registered p)(chFd ch \<mapsto> chId ch)"
    by (auto simp: mapR_eq_Inr)
  moreover have "ep_inv p'" using ep.step_inv [OF assms(1) _ p'(1)] assms(3) by simp
  ultimately show thesis using that by blast
qed

end
