(* ===== verification/Tcp_Connection.thy ===== *)
theory Tcp_Connection
  imports Tcp_World Http_Message
begin

text \<open>
  The classes \<^verbatim>\<open>TcpConnection\<close>, \<^verbatim>\<open>Acceptor\<close> and \<^verbatim>\<open>TcpServer\<close> of \<^verbatim>\<open>miniduo/conn.h\<close> and
  \<^verbatim>\<open>miniduo/conn.cpp\<close> over the worlds of \<open>Tcp_World\<close>. Every handler takes the thread it
  runs on and the results of the system calls it makes. \<open>runTask\<close> executes a queued task,
  \<open>doPendingTasks\<close> a batch, \<open>connEvent\<close> the dispatch of the events reported for a
  connection.
\<close>

section \<open>Model: operations of a connection that run no callback\<close>

definition setState :: "stateE \<Rightarrow> nat \<Rightarrow> 'x world \<Rightarrow> 'x world result" where
  "setState s c w = withConn c w (\<lambda>k. Inr (putConn c (k\<lparr>cState := s\<rparr>) w))"

definition connected :: "nat \<Rightarrow> 'x world \<Rightarrow> bool result" where
  "connected c w = withConn c w (\<lambda>k. Inr (cState k = kConnected))"

definition shutdownInLoop :: "int \<Rightarrow> nat \<Rightarrow> 'x world \<Rightarrow> 'x world result" where
  "shutdownInLoop tid c w =
     withConn c w (\<lambda>k. assertIn tid (cLoop k) w
       (if cState k = kConnected
        then bindR (setState kDisconnecting c w)
               (\<lambda>w1. if \<not> isWriting (cChannel k)
                     then kernelCall shutdownWrite (SysShutdown (chFd (cChannel k))) w1 else Inr w1)
        else Inr w))"

definition shutdown :: "int \<Rightarrow> nat \<Rightarrow> 'x world \<Rightarrow> 'x world result" where
  "shutdown tid c w =
     withConn c w (\<lambda>k. runInLoop tid (cLoop k) (TShutdown c) (shutdownInLoop tid c) w)"

definition close :: "nat \<Rightarrow> 'x world \<Rightarrow> 'x world result" where
  "close c w = withConn c w (\<lambda>k. Inr (queueTask (cLoop k) (TClose c) w))"

definition closeInNextLoop :: "nat \<Rightarrow> 'x world \<Rightarrow> 'x world result" where
  "closeInNextLoop c w = withConn c w (\<lambda>k. Inr (queueTask (cLoop k) (TQueueClose c) w))"

text \<open>The lambda that \<open>closeInNextLoop\<close> queues.\<close>

definition queueClose :: "nat \<Rightarrow> 'x world \<Rightarrow> 'x world result" where
  "queueClose c w = withConn c w (\<lambda>k. Inr (queueTask (cLoop k) (TClose c) w))"

definition sendInLoop :: "int \<Rightarrow> string \<Rightarrow> nat \<Rightarrow> 'x world \<Rightarrow> 'x world result" where
  "sendInLoop tid msg c w =
     withConn c w (\<lambda>k. assertIn tid (cLoop k) w
       (if cState k = kConnected
        then bindR (appendBuf msg (cOutput k))
               (\<lambda>b. let w1 = putConn c (k\<lparr>cOutput := b\<rparr>) w
                     in if \<not> isWriting (cChannel k) then enableWriting tid True c w1 else Inr w1)
        else Inr w))"

definition send :: "int \<Rightarrow> string \<Rightarrow> nat \<Rightarrow> 'x world \<Rightarrow> 'x world result" where
  "send tid msg c w =
     withConn c w (\<lambda>k. runInLoop tid (cLoop k) (TSend c msg) (sendInLoop tid msg c) w)"

text \<open>\<^verbatim>\<open>sendfile\<close>: \<open>res\<close> is the result of the system call.\<close>

definition sendfile :: "int \<Rightarrow> int \<Rightarrow> int \<Rightarrow> nat \<Rightarrow> 'x world \<Rightarrow> (int \<times> 'x world) result" where
  "sendfile tid fd res c w =
     assertR (0 < fd)
       (withConn c w (\<lambda>k. assertIn tid (cLoop k) w
          (Inr (res, if 0 < res then emit (SysSendfile (chFd (cChannel k)) fd (nat res)) w else w))))"

section \<open>Model: the server's side of closing\<close>

definition removeConnectionInLoop :: "int \<Rightarrow> nat \<Rightarrow> 'x world \<Rightarrow> 'x world result" where
  "removeConnectionInLoop tid c w =
     assertIn tid (srvLoop (wServer w)) w
       (withConn c w (\<lambda>k.
          assertR (map_of (srvConns (wServer w)) (cName k) \<noteq> None)
            (let s = wServer w;
                 w1 = putServer (s\<lparr>srvConns := filter (\<lambda>e. fst e \<noteq> cName k) (srvConns s)\<rparr>) w
             in Inr (queueTask (cLoop k) (TDestroyed c) w1))))"

definition removeConnection :: "int \<Rightarrow> nat \<Rightarrow> 'x world \<Rightarrow> 'x world result" where
  "removeConnection tid c w =
     runInLoop tid (srvLoop (wServer w)) (TRemoveConnection c) (removeConnectionInLoop tid c) w"

section \<open>Model: handlers that run callbacks\<close>

definition connectEstablished :: "int \<Rightarrow> 'x callbacks \<Rightarrow> nat \<Rightarrow> 'x world \<Rightarrow> 'x world result" where
  "connectEstablished tid cbs c w =
     withConn c w (\<lambda>k. assertIn tid (cLoop k) w
       (assertR (cState k = kConnecting)
          (bindR (setState kConnected c w) (\<lambda>w1.
           bindR (loopAddChannel tid c w1) (\<lambda>w2.
           bindR (enableReading tid True c w2) (\<lambda>w3.
           connectionCallback cbs tid c w3))))))"

definition connectDestroyed :: "int \<Rightarrow> 'x callbacks \<Rightarrow> nat \<Rightarrow> 'x world \<Rightarrow> 'x world result" where
  "connectDestroyed tid cbs c w =
     withConn c w (\<lambda>k. assertIn tid (cLoop k) w
       (bindR
          (if cState k = kConnected
           then bindR (setState kDisconnected c w) (\<lambda>w1.
                bindR (disableAll tid c w1) (\<lambda>w2. connectionCallback cbs tid c w2))
           else Inr w)
          (loopRemoveChannel tid c)))"

definition handleClose :: "int \<Rightarrow> 'x callbacks \<Rightarrow> nat \<Rightarrow> 'x world \<Rightarrow> 'x world result" where
  "handleClose tid cbs c w =
     withConn c w (\<lambda>k. assertIn tid (cLoop k) w
       (assertR (cState k = kConnected \<or> cState k = kDisconnecting)
          (bindR (setState kDisconnected c w) (\<lambda>w1.
           bindR (disableAll tid c w1) (\<lambda>w2.
           bindR (connectionCallback cbs tid c w2) (\<lambda>w3.
           removeConnection tid c w3))))))"

definition closeInLoop :: "int \<Rightarrow> 'x callbacks \<Rightarrow> nat \<Rightarrow> 'x world \<Rightarrow> 'x world result" where
  "closeInLoop tid cbs c w =
     withConn c w (\<lambda>k. assertIn tid (cLoop k) w
       (if cState k = kConnected \<or> cState k = kDisconnecting then handleClose tid cbs c w else Inr w))"

definition conn_handleRead :: "int \<Rightarrow> 'x callbacks \<Rightarrow> readv_result \<Rightarrow> int \<Rightarrow> nat \<Rightarrow> 'x world \<Rightarrow> 'x world result" where
  "conn_handleRead tid cbs res recvTime c w =
     withConn c w (\<lambda>k. bindR (readFd res (cInput k)) (\<lambda>(n, err, b).
       let w1 = putConn c (k\<lparr>cInput := b\<rparr>) w
       in if 0 < n then msgCallback cbs tid c recvTime w1
          else if n = 0 then handleClose tid cbs c w1
          else Inr w1))"

text \<open>The outcome of \<^verbatim>\<open>write(2)\<close>: an error, or the number of bytes taken.\<close>

datatype write_result = WriteError int | Wrote nat

definition conn_handleWrite :: "int \<Rightarrow> 'x callbacks \<Rightarrow> write_result \<Rightarrow> nat \<Rightarrow> 'x world \<Rightarrow> 'x world result" where
  "conn_handleWrite tid cbs res c w =
     withConn c w (\<lambda>k. assertIn tid (cLoop k) w
       (if isWriting (cChannel k)
        then case (if 0 < readableBytes (cOutput k) then res else Wrote 0) of
               WriteError _ \<Rightarrow> Inr w
             | Wrote n \<Rightarrow>
                 (let w1 = (if 0 < readableBytes (cOutput k)
                            then emit (SysWrite (chFd (cChannel k)) (readString (cOutput k) n)) w else w)
                  in bindR (retrieve n (cOutput k)) (\<lambda>b.
                     let w2 = putConn c (k\<lparr>cOutput := b\<rparr>) w1
                     in if readableBytes b = 0
                        then bindR (enableWriting tid False c w2) (\<lambda>w3.
                             let w4 = (if writeCompleteCallback cbs \<noteq> None
                                       then queueTask (cLoop k) (TWriteComplete c) w3 else w3)
                             in if cState k = kDisconnecting then shutdownInLoop tid c w4 else Inr w4)
                        else Inr w2))
        else Inr w))"

section \<open>Model: the acceptor and the server\<close>

definition acceptorOp :: "int \<Rightarrow> (conn_cb channel \<Rightarrow> conn_cb poller_op) \<Rightarrow> 'x world \<Rightarrow> 'x world result" where
  "acceptorOp tid mk w = pollerOp tid (srvLoop (wServer w)) (mk (srvAcceptChannel (wServer w))) w"

definition listen :: "int \<Rightarrow> 'x world \<Rightarrow> 'x world result" where
  "listen tid w =
     (let l = srvLoop (wServer w);
          w0 = putServer ((wServer w)\<lparr>srvListening := True\<rparr>) w
      in bindR (kernelCall listenSock (SysListen (srvAcceptFd (wServer w0))) w0) (\<lambda>w1.
         bindR (runInLoop tid l TAcceptorAdd (acceptorOp tid AddChannel) w1) (\<lambda>w2.
         let s = wServer w2;
             w3 = putServer (s\<lparr>srvAcceptChannel := readingEvents True (srvAcceptChannel s)\<rparr>) w2
         in runInLoop tid l TAcceptorUpdate (acceptorOp tid UpdateChannel) w3)))"

definition start :: "int \<Rightarrow> 'x world \<Rightarrow> 'x world result" where
  "start tid w =
     (let w1 = putServer ((wServer w)\<lparr>srvStarted := True\<rparr>) w
      in if \<not> srvListening (wServer w1)
         then runInLoop tid (srvLoop (wServer w1)) TListen (listen tid) w1
         else Inr w1)"

text \<open>
  The constructor of \<^verbatim>\<open>TcpServer\<close> with that of its \<^verbatim>\<open>Acceptor\<close>: \<open>freshServer\<close> is the object,
  \<open>newServer\<close> adds the system calls and their assertions.
\<close>

definition freshServer :: "sockaddr_in \<Rightarrow> int \<Rightarrow> event_loops \<Rightarrow> tcp_server" where
  "freshServer addr acceptFd els =
     \<lparr>srvLoop = 0, srvName = addrString addr, srvConns = [], srvStarted = False, srvNextId = 1, srvLoops = els,
      srvListening = False, srvAcceptFd = acceptFd,
      srvAcceptChannel = setReadCallback AcceptorHandleRead (newChannel 0 0 acceptFd)\<rparr>"

definition newServer :: "int \<Rightarrow> int \<Rightarrow> int \<Rightarrow> sockaddr_in \<Rightarrow> event_loops \<Rightarrow> tcp_server result" where
  "newServer sockRet optRet bindRet addr els =
     bindR (createNonblockingSock sockRet) (\<lambda>acceptFd.
     bindR (setReuseAddr optRet) (\<lambda>_.
     bindR (bindAddr bindRet) (\<lambda>_.
     Inr (freshServer addr acceptFd els))))"

definition newConn :: "nat \<Rightarrow> nat \<Rightarrow> string \<Rightarrow> int \<Rightarrow> sockaddr_in \<Rightarrow> sockaddr_in \<Rightarrow> 'x conn" where
  "newConn c l name sockfd localAddr peerAddr =
     \<lparr>cLoop = l, cName = name, cState = kConnecting, cInput = newBuffer, cOutput = newBuffer,
      cContext = None, cSock = sockfd,
      cChannel = setWriteCallback ConnHandleWrite (setReadCallback ConnHandleRead (newChannel c l sockfd)),
      cLocal = localAddr, cPeer = peerAddr\<rparr>"

text \<open>\<open>lres\<close> is what \<^verbatim>\<open>getsockname(2)\<close> returns and stores.\<close>

definition newConnection :: "int \<Rightarrow> 'x callbacks \<Rightarrow> int \<Rightarrow> sockaddr_in \<Rightarrow> int \<times> sockaddr_in \<Rightarrow> 'x world \<Rightarrow> 'x world result" where
  "newConnection tid cbs sockfd peerAddr lres w =
     assertIn tid (srvLoop (wServer w)) w
       (let s = wServer w;
            connName = srvName s @ snprintf 32 (''#'' @ showInt (srvNextId s))
        in bindR (getLocalAddr (fst lres) (snd lres)) (\<lambda>localAddr.
           bindR (allocLoop (srvLoops s)) (\<lambda>(ioLoop, els).
           let c = wNextAddr w;
               s1 = s\<lparr>srvNextId := srvNextId s + 1, srvLoops := els,
                       srvConns := AList.update connName c (srvConns s)\<rparr>;
               w1 = putConn c (newConn c ioLoop connName sockfd localAddr peerAddr)
                      (putServer s1 (w\<lparr>wNextAddr := c + 1\<rparr>))
           in runInLoop tid ioLoop (TEstablished c) (connectEstablished tid cbs c) w1)))"

text \<open>
  \<^verbatim>\<open>Acceptor::handleRead\<close>: every element of the list is what one \<^verbatim>\<open>accept(2)\<close> returns and
  stores, with the \<^verbatim>\<open>getsockname(2)\<close> of the new socket; the loop ends at the first failure. The
  callback is always set, by the constructor of the server.
\<close>

fun acceptAll :: "int \<Rightarrow> 'x callbacks \<Rightarrow> sockaddr_in \<Rightarrow> (int \<times> sockaddr_in \<times> int \<times> sockaddr_in) list \<Rightarrow> 'x world \<Rightarrow> 'x world result" where
  "acceptAll tid cbs peerAddr [] w = Inr w"
| "acceptAll tid cbs peerAddr ((ret, paddr, lres) # rs) w =
     (if 0 \<le> srvAcceptFd (wServer w)
      then let (connfd, peerAddr1) = acceptSock ret paddr peerAddr
           in if 0 \<le> connfd
              then bindR (newConnection tid cbs connfd peerAddr1 lres w) (acceptAll tid cbs peerAddr1 rs)
              else Inr w
      else Inr w)"

definition acceptor_handleRead :: "int \<Rightarrow> 'x callbacks \<Rightarrow> (int \<times> sockaddr_in \<times> int \<times> sockaddr_in) list \<Rightarrow> 'x world \<Rightarrow> 'x world result" where
  "acceptor_handleRead tid cbs rs w =
     assertIn tid (srvLoop (wServer w)) w (acceptAll tid cbs (listenAddr 0) rs w)"

text \<open>
  The destructor of \<^verbatim>\<open>TcpServer\<close>. The loop resets the pointers in
  the map, which is destroyed afterwards; here the entry is dropped at once, since nothing that
  the loop calls reads the map.
\<close>

fun destroyAll :: "int \<Rightarrow> 'x callbacks \<Rightarrow> (string \<times> nat) list \<Rightarrow> 'x world \<Rightarrow> 'x world result" where
  "destroyAll tid cbs [] w = Inr w"
| "destroyAll tid cbs ((name, c) # es) w =
     (let s = wServer w;
          w1 = putServer (s\<lparr>srvConns := filter (\<lambda>e. fst e \<noteq> name) (srvConns s)\<rparr>) w
      in withConn c w1 (\<lambda>k.
           bindR (runInLoop tid (cLoop k) (TDestroyed c) (connectDestroyed tid cbs c) w1)
             (\<lambda>w2. destroyAll tid cbs es (reap w2))))"

text \<open>The destructor of \<^verbatim>\<open>Acceptor\<close>, which the one of \<^verbatim>\<open>TcpServer\<close> runs last.\<close>

definition acceptorDtor :: "'x world \<Rightarrow> 'x world result" where
  "acceptorDtor w =
     (if 0 < srvAcceptFd (wServer w) then kernelCall closeSock (SysClose (srvAcceptFd (wServer w))) w else Inr w)"

definition serverDtor :: "int \<Rightarrow> 'x callbacks \<Rightarrow> 'x world \<Rightarrow> 'x world result" where
  "serverDtor tid cbs w =
     assertIn tid (srvLoop (wServer w)) w
       (bindR (destroyAll tid cbs (srvConns (wServer w)) w) acceptorDtor)"

section \<open>Model: running tasks and events\<close>

fun runTask :: "int \<Rightarrow> 'x callbacks \<Rightarrow> task \<Rightarrow> 'x world \<Rightarrow> 'x world result" where
  "runTask tid cbs (TAddChannel c) w = connPollerOp tid AddChannel c w"
| "runTask tid cbs (TUpdateChannel c) w = connPollerOp tid UpdateChannel c w"
| "runTask tid cbs (TRemoveChannel c) w = connPollerOp tid RemoveChannel c w"
| "runTask tid cbs (TEstablished c) w = connectEstablished tid cbs c w"
| "runTask tid cbs (TDestroyed c) w = connectDestroyed tid cbs c w"
| "runTask tid cbs (TRemoveConnection c) w = removeConnectionInLoop tid c w"
| "runTask tid cbs (TShutdown c) w = shutdownInLoop tid c w"
| "runTask tid cbs (TClose c) w = closeInLoop tid cbs c w"
| "runTask tid cbs (TQueueClose c) w = queueClose c w"
| "runTask tid cbs (TSend c msg) w = sendInLoop tid msg c w"
| "runTask tid cbs (TWriteComplete c) w =
     (case writeCompleteCallback cbs of None \<Rightarrow> Inl Uncaught | Some f \<Rightarrow> f tid c w)"
| "runTask tid cbs TListen w = listen tid w"
| "runTask tid cbs TAcceptorAdd w = acceptorOp tid AddChannel w"
| "runTask tid cbs TAcceptorUpdate w = acceptorOp tid UpdateChannel w"
| "runTask tid cbs (TOwnAdd l x) w = ownOp tid AddChannel l x w"
| "runTask tid cbs (TOwnUpdate l x) w = ownOp tid UpdateChannel l x w"

definition runTasks :: "int \<Rightarrow> 'x callbacks \<Rightarrow> task list \<Rightarrow> 'x world \<Rightarrow> 'x world result" where
  "runTasks tid cbs ts w = runR (runTask tid cbs) ts w"

text \<open>The batch keeps its strong references until \<^verbatim>\<open>doPendingTasks\<close> returns.\<close>

definition doPendingTasks :: "int \<Rightarrow> 'x callbacks \<Rightarrow> nat \<Rightarrow> 'x world \<Rightarrow> 'x world result" where
  "doPendingTasks tid cbs l w =
     (let (ts, el) = takeTasks (wLoops w l);
          w1 = (putLoop l el w)\<lparr>wBatch := (wBatch w)(l := ts)\<rparr>
      in bindR (runTasks tid cbs ts w1)
           (\<lambda>w2. Inr (reap (w2\<lparr>wBatch := (wBatch w2)(l := [])\<rparr>))))"

fun connCall :: "int \<Rightarrow> 'x callbacks \<Rightarrow> readv_result \<Rightarrow> write_result \<Rightarrow> nat \<Rightarrow> conn_cb call \<Rightarrow> 'x world \<Rightarrow> 'x world result" where
  "connCall tid cbs rres wres c (CallAt ConnHandleRead t) w = conn_handleRead tid cbs rres t c w"
| "connCall tid cbs rres wres c (Call ConnHandleWrite) w = conn_handleWrite tid cbs wres c w"
| "connCall tid cbs rres wres c _ w = Inr w"

definition connEvent :: "int \<Rightarrow> 'x callbacks \<Rightarrow> readv_result \<Rightarrow> write_result \<Rightarrow> int \<Rightarrow> 32 word \<Rightarrow> nat \<Rightarrow> 'x world \<Rightarrow> 'x world result" where
  "connEvent tid cbs rres wres recvTime revents c w =
     withConn c w (\<lambda>k.
       let k1 = k\<lparr>cChannel := setRevents revents (cChannel k)\<rparr>
       in bindR (runR (connCall tid cbs rres wres c) (handleEvent recvTime (cChannel k1)) (putConn c k1 w))
            (\<lambda>w1. Inr (reap w1)))"

section \<open>The outgoing stream\<close>

text \<open>The bytes handed to the kernel for a socket, in order.\<close>

definition written :: "int \<Rightarrow> effect list \<Rightarrow> string" where
  "written fd tr =
     concat (map (\<lambda>e. case e of SysWrite f s \<Rightarrow> if f = fd then s else [] | _ \<Rightarrow> []) tr)"

datatype out_op = OSend string | OWrite write_result

fun out_step :: "int \<Rightarrow> 'x callbacks \<Rightarrow> nat \<Rightarrow> out_op \<Rightarrow> 'x world \<Rightarrow> 'x world result" where
  "out_step tid cbs c (OSend msg) w = sendInLoop tid msg c w"
| "out_step tid cbs c (OWrite res) w = conn_handleWrite tid cbs res c w"

text \<open>
  The condition on one step: a message for which the buffer has room without compaction, a
  \<^verbatim>\<open>write(2)\<close> that takes no more than it was offered.
\<close>

fun out_fits :: "out_op \<Rightarrow> 'x conn \<Rightarrow> bool" where
  "out_fits (OSend msg) k = room (length msg) (cOutput k)"
| "out_fits (OWrite (Wrote n)) k = (n \<le> readableBytes (cOutput k))"
| "out_fits (OWrite (WriteError e)) k = True"

fun out_run_fits :: "int \<Rightarrow> 'x callbacks \<Rightarrow> nat \<Rightarrow> out_op list \<Rightarrow> 'x world \<Rightarrow> bool" where
  "out_run_fits tid cbs c [] w = True"
| "out_run_fits tid cbs c (x # xs) w =
     ((case wConns w c of None \<Rightarrow> False | Some k \<Rightarrow> out_fits x k)
      \<and> (case out_step tid cbs c x w of Inl _ \<Rightarrow> True | Inr w1 \<Rightarrow> out_run_fits tid cbs c xs w1))"

fun sent :: "out_op list \<Rightarrow> string" where
  "sent [] = []"
| "sent (OSend msg # xs) = msg @ sent xs"
| "sent (OWrite res # xs) = sent xs"

text \<open>
  An established connection on its loop's thread; output that waits is watched for, so it cannot
  be forgotten. \<open>done\<close> is everything passed to \<open>send\<close> so far.
\<close>

definition streaming :: "int \<Rightarrow> nat \<Rightarrow> string \<Rightarrow> 'x world \<Rightarrow> bool" where
  "streaming tid c done w \<longleftrightarrow>
     (\<exists>k. conn_attached tid c k w \<and> cState k = kConnected
        \<and> (contents (cOutput k) \<noteq> [] \<longrightarrow> isWriting (cChannel k))
        \<and> written (cSock k) (wTrace w) @ contents (cOutput k) = done)"

lemma written_emit: "written fd (tr @ [SysWrite fd s]) = written fd tr @ s"
  by (simp add: written_def)

lemma isWriting_step:
  "chan_ok ch \<Longrightarrow> isWriting (chan_step (EnableWriting e) ch) = e"
  "chan_ok ch \<Longrightarrow> isNoneEvent (chan_step DisableAll ch)"
proof -
  assume "chan_ok ch"
  then obtain r w where "refines_switch ch (r, w)" by (auto simp: chan_ok_def refines_switch_def)
  from chan_step_refines [OF this, THEN refines_switch_tests(1)]
    chan_step_refines [OF this, THEN refines_switch_tests(2)]
  show "isWriting (chan_step (EnableWriting e) ch) = e" "isNoneEvent (chan_step DisableAll ch)"
    by (metis snd_conv switch_step.simps(2), metis switch_step.simps(3))
qed

lemma send_streams:
  assumes "conn_attached tid c k w" and "cState k = kConnected" and "room (length msg) (cOutput k)"
  obtains k' w' where "sendInLoop tid msg c w = Inr w'" "conn_attached tid c k' w'"
    "cState k' = kConnected" "cSock k' = cSock k" "isWriting (cChannel k')"
    "contents (cOutput k') = contents (cOutput k) @ msg" "wTrace w' = wTrace w"
    "appendBuf msg (cOutput k) = Inr (cOutput k')" "cContext k' = cContext k" "cInput k' = cInput k"
    "cLoop k' = cLoop k" "wLoops w' = wLoops w" "wServer w' = wServer w" "alongside k w k' w'"
proof -
  note k = conn_attachedD [OF assms(1)]
  obtain b where b: "appendBuf msg (cOutput k) = Inr b" "buf_ok b" "contents b = contents (cOutput k) @ msg"
    using bq.push_ok [OF k(6) assms(3)] by blast
  let ?k1 = "k\<lparr>cOutput := b\<rparr>" and ?w1 = "putConn c (k\<lparr>cOutput := b\<rparr>) w"
  have at: "conn_attached tid c ?k1 ?w1" using assms(1) b(2) k(7) by (intro conn_attached_put) simp_all
  show thesis
  proof (cases "isWriting (cChannel k)")
    case True
    then have "sendInLoop tid msg c w = Inr ?w1"
      using k(1,3) assms(2) b(1) by (simp add: sendInLoop_def world_simps Let_def)
    then show thesis using True assms(2) b(1,3) by (intro that [OF _ at]) (simp_all add: alongside_def)
  next
    case False
    let ?x = "EnableWriting True"
    obtain p where p: "changeInterest tid (chan_step ?x) c ?w1
        = Inr (reregister c (?k1\<lparr>cChannel := chan_step ?x (cChannel ?k1)\<rparr>) p ?w1)"
      "conn_attached tid c (?k1\<lparr>cChannel := chan_step ?x (cChannel ?k1)\<rparr>)
        (reregister c (?k1\<lparr>cChannel := chan_step ?x (cChannel ?k1)\<rparr>) p ?w1)"
      by (rule chan_step_attached [OF at])
    have "sendInLoop tid msg c w = changeInterest tid (chan_step ?x) c ?w1"
      using False k(1,3) assms(2) b(1) by (simp add: sendInLoop_def world_simps Let_def interest_steps)
    with p show thesis using isWriting_step(1) [OF k(4), of True] assms(2) b(1,3)
      by (intro that [OF _ p(2)]) (simp_all add: alongside_def)
  qed
qed

text \<open>
  \<open>handleWrite\<close> in any state of an attached connection: the stream is kept, the connection
  state is kept, and no system call but the write is made. In the state \<open>kDisconnecting\<close> the
  call of \<open>shutdownInLoop\<close> does nothing, because that function asks for \<open>kConnected\<close>.
\<close>

lemma write_streams:
  assumes "conn_attached tid c k w" and "out_fits (OWrite res) k"
    and "contents (cOutput k) \<noteq> [] \<longrightarrow> isWriting (cChannel k)"
  obtains k' w' where "conn_handleWrite tid cbs res c w = Inr w'" "conn_attached tid c k' w'"
    "cState k' = cState k" "cSock k' = cSock k" "cLoop k' = cLoop k" "cInput k' = cInput k"
    "contents (cOutput k') \<noteq> [] \<longrightarrow> isWriting (cChannel k')"
    "written (cSock k) (wTrace w') @ contents (cOutput k') = written (cSock k) (wTrace w) @ contents (cOutput k)"
    "\<And>n. res = Wrote n \<Longrightarrow> isWriting (cChannel k) \<Longrightarrow> contents (cOutput k) \<noteq> [] \<Longrightarrow>
       wTrace w' = wTrace w @ [SysWrite (cSock k) (take n (contents (cOutput k)))]
       \<and> contents (cOutput k') = drop n (contents (cOutput k))
       \<and> (contents (cOutput k') = [] \<longrightarrow> \<not> isWriting (cChannel k'))"
proof -
  note k = conn_attachedD [OF assms(1)]
  note simps = conn_handleWrite_def world_simps Let_def
  have len: "length (contents (cOutput k)) = readableBytes (cOutput k)" using k(6) by (rule length_contents)
  then have pos: "contents (cOutput k) \<noteq> [] \<longleftrightarrow> 0 < readableBytes (cOutput k)"
    by (metis length_greater_0_conv)
  show thesis
  proof (cases "isWriting (cChannel k) \<and> (0 < readableBytes (cOutput k) \<longrightarrow> (\<exists>n. res = Wrote n))")
    case False
    then have "conn_handleWrite tid cbs res c w = Inr w"
      using k(1,3) by (cases res) (auto simp: simps)
    then show thesis using assms False pos by (intro that) auto
  next
    case True
    define n where "n = (if 0 < readableBytes (cOutput k) then (case res of Wrote n \<Rightarrow> n | _ \<Rightarrow> 0) else 0)"
    define w1 where "w1 = (if 0 < readableBytes (cOutput k)
      then emit (SysWrite (chFd (cChannel k)) (readString (cOutput k) n)) w else w)"
    have n: "n \<le> readableBytes (cOutput k)"
      using assms(2) by (cases res) (auto simp: n_def)
    obtain b where b: "retrieve n (cOutput k) = Inr b" "buf_ok b" "contents b = drop n (contents (cOutput k))"
      using bq.pop_ok [OF k(6)] n len by metis
    let ?k1 = "k\<lparr>cOutput := b\<rparr>"
    let ?w2 = "putConn c ?k1 w1"
    have at1: "conn_attached tid c k w1" using assms(1) by (simp add: w1_def)
    then have at: "conn_attached tid c ?k1 ?w2" using b(2) k(7) by (intro conn_attached_put) simp_all
    have tr: "written (cSock k) (wTrace w1) @ contents b = written (cSock k) (wTrace w) @ contents (cOutput k)"
      using k(5) n b(3) len readString_contents [OF k(6) n]
      by (auto simp: w1_def written_emit)
    have tr1: "wTrace w1 = wTrace w @ [SysWrite (cSock k) (take m (contents (cOutput k)))]
        \<and> contents b = drop m (contents (cOutput k))"
      if "res = Wrote m" "contents (cOutput k) \<noteq> []" for m
      using that pos k(5) b(3) readString_contents [OF k(6) n] by (simp add: w1_def n_def)
    have eq: "conn_handleWrite tid cbs res c w =
        (if readableBytes b = 0
         then bindR (enableWriting tid False c ?w2) (\<lambda>w3.
                let w4 = (if writeCompleteCallback cbs \<noteq> None then queueTask (cLoop k) (TWriteComplete c) w3 else w3)
                in if cState k = kDisconnecting then shutdownInLoop tid c w4 else Inr w4)
         else Inr ?w2)"
      using True k(1,3) b(1) by (cases res) (auto simp: simps n_def w1_def split: if_splits)
    have empty_iff: "readableBytes b = 0 \<longleftrightarrow> contents b = []"
      using length_contents [OF b(2)] by (metis length_0_conv)
    show thesis
    proof (cases "readableBytes b = 0")
      case False
      with eq at tr tr1 empty_iff True show thesis by (intro that [OF _ at]) auto
    next
      case empty: True
      let ?x = "EnableWriting False"
      obtain p where p: "changeInterest tid (chan_step ?x) c ?w2
          = Inr (reregister c (?k1\<lparr>cChannel := chan_step ?x (cChannel ?k1)\<rparr>) p ?w2)"
        "conn_attached tid c (?k1\<lparr>cChannel := chan_step ?x (cChannel ?k1)\<rparr>)
          (reregister c (?k1\<lparr>cChannel := chan_step ?x (cChannel ?k1)\<rparr>) p ?w2)"
        by (rule chan_step_attached [OF at])
      let ?k3 = "?k1\<lparr>cChannel := chan_step ?x (cChannel ?k1)\<rparr>"
      let ?w3 = "reregister c ?k3 p ?w2"
      define w4 where "w4 = (if writeCompleteCallback cbs \<noteq> None then queueTask (cLoop k) (TWriteComplete c) ?w3 else ?w3)"
      have at4: "conn_attached tid c ?k3 w4" and tr4: "wTrace w4 = wTrace w1" using p(2) by (simp_all add: w4_def)
      have "conn_handleWrite tid cbs res c w = (if cState k = kDisconnecting then shutdownInLoop tid c w4 else Inr w4)"
        using eq empty p(1) by (simp add: interest_steps Let_def w4_def)
      moreover have "cState k = kDisconnecting \<Longrightarrow> shutdownInLoop tid c w4 = Inr w4"
        using conn_attachedD(1,3) [OF at4] by (simp add: shutdownInLoop_def withConn_Some assertIn_yes)
      ultimately have "conn_handleWrite tid cbs res c w = Inr w4" by (simp split: if_splits)
      moreover have "\<not> isWriting (cChannel ?k3)" using isWriting_step(1) [OF k(4), of False] by simp
      ultimately show thesis using tr tr1 tr4 empty_iff empty
        by (intro that [OF _ at4]) auto
    qed
  qed
qed

lemma out_run_streams:
  assumes "streaming tid c done w" and "out_run_fits tid cbs c xs w"
  shows "\<exists>w'. runR (out_step tid cbs c) xs w = Inr w' \<and> streaming tid c (done @ sent xs) w'"
  using assms
proof (induction xs arbitrary: w "done")
  case (Cons x xs)
  from Cons.prems(1) obtain k where k: "conn_attached tid c k w" "cState k = kConnected"
    "contents (cOutput k) \<noteq> [] \<longrightarrow> isWriting (cChannel k)"
    "written (cSock k) (wTrace w) @ contents (cOutput k) = done"
    by (auto simp: streaming_def)
  have fits: "out_fits x k" using Cons.prems(2) conn_attachedD(1) [OF k(1)] by simp
  have "\<exists>w1. out_step tid cbs c x w = Inr w1 \<and> streaming tid c (done @ sent [x]) w1"
  proof (cases x)
    case (OSend msg)
    with fits have "room (length msg) (cOutput k)" by simp
    from send_streams [OF k(1,2) this] obtain k' w' where "sendInLoop tid msg c w = Inr w'"
      "conn_attached tid c k' w'" "cState k' = kConnected" "cSock k' = cSock k" "isWriting (cChannel k')"
      "contents (cOutput k') = contents (cOutput k) @ msg" "wTrace w' = wTrace w" by metis
    with OSend k(4) show ?thesis by (auto simp: streaming_def)
  next
    case (OWrite res)
    with fits have "out_fits (OWrite res) k" by simp
    from write_streams [OF k(1) this k(3), of cbs] obtain k' w' where "conn_handleWrite tid cbs res c w = Inr w'"
      "conn_attached tid c k' w'" "cState k' = cState k" "cSock k' = cSock k"
      "contents (cOutput k') \<noteq> [] \<longrightarrow> isWriting (cChannel k')"
      "written (cSock k) (wTrace w') @ contents (cOutput k') = written (cSock k) (wTrace w) @ contents (cOutput k)"
      by metis
    with OWrite k(2,4) show ?thesis by (auto simp: streaming_def)
  qed
  then obtain w1 where w1: "out_step tid cbs c x w = Inr w1" "streaming tid c (done @ sent [x]) w1" by blast
  moreover have "out_run_fits tid cbs c xs w1" using Cons.prems(2) w1(1) by simp
  moreover have "sent [x] @ sent xs = sent (x # xs)" by (cases x) simp_all
  ultimately show ?case using Cons.IH [OF w1(2)] by simp
qed simp

section \<open>Opening and closing, for callbacks that leave the world alone\<close>

text \<open>The destruction of a connection that has been closed before.\<close>

lemma destroyed_after_close:
  assumes "conn_attached tid c k w" and "cState k = kDisconnected" and "isNoneEvent (cChannel k)"
  obtains p' where "connectDestroyed tid cbs c w = Inr (w\<lparr>wPollers := (wPollers w)(cLoop k := p')\<rparr>)"
    "ep_registered p' = (ep_registered (wPollers w (cLoop k)))(cSock k := None)"
proof -
  note k = conn_attachedD [OF assms(1)]
  have reg: "ep_registered (wPollers w (cLoop k)) (chFd (cChannel k)) = Some (chId (cChannel k))"
    and inv: "ep_inv (wPollers w (cLoop k))"
    using assms(1) k by (auto simp: conn_attached_def)
  obtain p' where p': "ep_step (RemoveChannel (cChannel k)) (wPollers w (cLoop k)) = Inr p'"
    "ep_registered p' = (ep_registered (wPollers w (cLoop k)))(chFd (cChannel k) := None)"
    using ep_remove_registered [OF inv reg k(4) assms(3)] by blast
  then have "connectDestroyed tid cbs c w = Inr (w\<lparr>wPollers := (wPollers w)(cLoop k := p')\<rparr>)"
    using k assms(2)
    by (simp add: connectDestroyed_def loopRemoveChannel_def connPollerOp_def pollerOp_def world_simps)
  with p'(2) k(5) show thesis by (intro that) simp_all
qed

text \<open>The batch that destroys it, when nobody keeps the connection any more.\<close>

lemma destroy_batch:
  assumes "conn_attached tid c k w" and "cState k = kDisconnected" and "isNoneEvent (cChannel k)"
    and "pendingTasks (wLoops w (cLoop k)) = [TDestroyed c]" and "c < wNextAddr w"
    and "c \<notin> snd ` set (srvConns (wServer w))" and "c \<notin> set (wHeld w)"
    and "\<forall>m. m \<noteq> cLoop k \<longrightarrow> c \<notin> set (concat (map keeps (pendingTasks (wLoops w m) @ wBatch w m)))"
  obtains w' fds where "doPendingTasks tid cbs (cLoop k) w = Inr w'" "wConns w' c = None"
    "SysClose (cSock k) \<in> set (wTrace w')" "ep_registered (wPollers w' (cLoop k)) (cSock k) = None"
    "wServer w' = wServer w" "wTrace w' = wTrace w @ map SysClose fds"
    "(\<forall>d j. wConns w d = Some j \<longrightarrow> d \<noteq> c \<longrightarrow> cSock j \<noteq> cSock k)
      \<Longrightarrow> count_list (wTrace w') (SysClose (cSock k)) = Suc (count_list (wTrace w) (SysClose (cSock k)))"
proof -
  let ?l = "cLoop k"
  let ?w1 = "(putLoop ?l ((wLoops w ?l)\<lparr>pendingTasks := []\<rparr>) w)\<lparr>wBatch := (wBatch w)(?l := [TDestroyed c])\<rparr>"
  have "conn_attached tid c k ?w1" using assms(1) by (auto simp: conn_attached_def isInLoopThread_def split: if_splits)
  from destroyed_after_close [OF this assms(2,3), of cbs] obtain p where
    p: "connectDestroyed tid cbs c ?w1 = Inr (?w1\<lparr>wPollers := (wPollers ?w1)(?l := p)\<rparr>)"
      "ep_registered p = (ep_registered (wPollers ?w1 ?l))(cSock k := None)" by metis
  let ?w2 = "?w1\<lparr>wPollers := (wPollers w)(?l := p), wBatch := (wBatch w)(?l := [])\<rparr>"
  have run: "doPendingTasks tid cbs ?l w = Inr (reap ?w2)"
    using p(1) assms(4) by (simp add: doPendingTasks_def takeTasks_def runTasks_def)
  have "c \<notin> set (kept ?w2)" using assms(6-8) by (auto simp: kept_def)
  then have gone: "wConns (reap ?w2) c = None" "SysClose (cSock k) \<in> set (wTrace (reap ?w2))"
    using reap_closes [of ?w2 c k] conn_attachedD(1) [OF assms(1)] assms(5) by (simp_all add: reap_conns)
  have once: "count_list (wTrace (reap ?w2)) (SysClose (cSock k)) = Suc (count_list (wTrace w) (SysClose (cSock k)))"
    if "\<forall>d j. wConns w d = Some j \<longrightarrow> d \<noteq> c \<longrightarrow> cSock j \<noteq> cSock k"
    using reap_closes_once [of ?w2 c k] conn_attachedD(1) [OF assms(1)] assms(5) \<open>c \<notin> set (kept ?w2)\<close> that by simp
  obtain fds where "wTrace (reap ?w2) = wTrace ?w2 @ map SysClose fds" using reap_trace [of ?w2] by blast
  with run gone p(2) once show thesis by (intro that [of "reap ?w2" fds]) simp_all
qed

text \<open>
  What the proofs of the life cycle need of the connection callback: that it changes nothing
  (\<^verbatim>\<open>HttpServer::onState\<close> only logs).
\<close>

locale quiet_user =
  fixes cbs :: "'x callbacks"
  assumes quiet: "connectionCallback cbs tid c w = Inr w"
begin

lemma established:
  assumes "wConns w c = Some k" and "conn_ok c k" and "cState k = kConnecting"
    and "isInLoopThread tid (wLoops w (cLoop k))" and "ep_inv (wPollers w (cLoop k))"
    and "ep_registered (wPollers w (cLoop k)) (cSock k) = None"
  obtains w' k' where "connectEstablished tid cbs c w = Inr w'" "conn_attached tid c k' w'"
    "cState k' = kConnected" "cSock k' = cSock k" "cOutput k' = cOutput k" "cInput k' = cInput k"
    "cName k' = cName k" "cLoop k' = cLoop k" "wTrace w' = wTrace w" "wServer w' = wServer w"
    "wLoops w' = wLoops w" "wHeld w' = wHeld w" "wBatch w' = wBatch w" "wNextAddr w' = wNextAddr w"
    "wLoopCount w' = wLoopCount w" "cContext k' = cContext k" "dom (wConns w') = dom (wConns w)"
proof -
  let ?l = "cLoop k" and ?k1 = "k\<lparr>cState := kConnected\<rparr>"
  let ?w1 = "putConn c ?k1 w"
  have ch: "chan_ok (cChannel k)" "chFd (cChannel k) = cSock k" "chId (cChannel k) = c" "chLoop (cChannel k) = cLoop k"
    using assms(2) by (auto simp: conn_ok_def)
  have un: "ep_registered (wPollers w ?l) (chFd (cChannel k)) = None" using ch(2) assms(6) by simp
  obtain p where p: "ep_step (AddChannel (cChannel k)) (wPollers w ?l) = Inr p" "ep_inv p"
    "ep_registered p = (ep_registered (wPollers w ?l))(chFd (cChannel k) \<mapsto> chId (cChannel k))"
    by (rule ep_add_unregistered [OF assms(5) un ch(1)])
  let ?w2 = "?w1\<lparr>wPollers := (wPollers w)(?l := p)\<rparr>"
  have add: "loopAddChannel tid c ?w1 = Inr ?w2"
    using assms(4) p(1) ch(4) by (simp add: loopAddChannel_def connPollerOp_def pollerOp_def world_simps)
  have at: "conn_attached tid c ?k1 ?w2"
    using assms(2,4) p(2,3) ch by (simp add: conn_attached_def conn_ok_def)
  let ?k3 = "?k1\<lparr>cChannel := chan_step (EnableReading True) (cChannel ?k1)\<rparr>"
  obtain p3 where p3: "changeInterest tid (chan_step (EnableReading True)) c ?w2 = Inr (reregister c ?k3 p3 ?w2)"
    "conn_attached tid c ?k3 (reregister c ?k3 p3 ?w2)" by (rule chan_step_attached [OF at])
  have "connectEstablished tid cbs c w = Inr (reregister c ?k3 p3 ?w2)"
    using assms(1,3,4) add p3(1) quiet
    by (simp add: connectEstablished_def setState_def world_simps interest_steps)
  then show thesis by (rule that [OF _ p3(2)]) (use assms(1) in auto)
qed

text \<open>Closing on the loop of the server: what \<open>handleClose\<close> leaves behind.\<close>

lemma closed:
  assumes "conn_attached tid c k w" and "cState k = kConnected \<or> cState k = kDisconnecting"
    and "srvLoop (wServer w) = cLoop k" and "map_of (srvConns (wServer w)) (cName k) \<noteq> None"
  obtains w' k' where "handleClose tid cbs c w = Inr w'" "conn_attached tid c k' w'"
    "cState k' = kDisconnected" "isNoneEvent (cChannel k')" "cSock k' = cSock k" "cLoop k' = cLoop k"
    "srvConns (wServer w') = filter (\<lambda>e. fst e \<noteq> cName k) (srvConns (wServer w))"
    "\<And>l. pendingTasks (wLoops w' l) = pendingTasks (wLoops w l) @ (if l = cLoop k then [TDestroyed c] else [])"
    "wTrace w' = wTrace w" "wHeld w' = wHeld w" "wBatch w' = wBatch w"
    "wNextAddr w' = wNextAddr w" "wLoopCount w' = wLoopCount w" "wConns w' = (wConns w)(c \<mapsto> k')"
proof -
  note k = conn_attachedD [OF assms(1)]
  let ?k1 = "k\<lparr>cState := kDisconnected\<rparr>"
  have at: "conn_attached tid c ?k1 (putConn c ?k1 w)"
    using assms(1) k(6,7) by (intro conn_attached_put) simp_all
  let ?k2 = "?k1\<lparr>cChannel := chan_step DisableAll (cChannel ?k1)\<rparr>"
  obtain p where p: "changeInterest tid (chan_step DisableAll) c (putConn c ?k1 w)
      = Inr (reregister c ?k2 p (putConn c ?k1 w))"
    "conn_attached tid c ?k2 (reregister c ?k2 p (putConn c ?k1 w))"
    by (rule chan_step_attached [OF at])
  let ?w2 = "reregister c ?k2 p (putConn c ?k1 w)"
  let ?s = "(wServer w)\<lparr>srvConns := filter (\<lambda>e. fst e \<noteq> cName k) (srvConns (wServer w))\<rparr>"
  let ?w3 = "queueTask (cLoop k) (TDestroyed c) (putServer ?s ?w2)"
  have "removeConnection tid c ?w2 = Inr ?w3"
    using assms(3,4) k(3)
    by (simp add: removeConnection_def removeConnectionInLoop_def world_simps Let_def)
  then have "handleClose tid cbs c w = Inr ?w3"
    using k(1,3) assms(2) p(1) quiet
    by (auto simp: handleClose_def setState_def world_simps interest_steps)
  moreover have "conn_attached tid c ?k2 ?w3" using p(2) by (simp add: conn_attached_def)
  ultimately show thesis using isWriting_step(2) [OF k(4)]
    by (intro that [of ?w3 ?k2]) simp_all
qed

text \<open>A queued \<open>close\<close> takes two batches: the first closes, the second destroys.\<close>

lemma close_batches:
  assumes "conn_attached tid c k w" and "cState k = kConnected \<or> cState k = kDisconnecting" and "sole_owner c k w"
    and "pendingTasks (wLoops w (cLoop k)) = [TClose c]"
  obtains w1 w2 fds where "doPendingTasks tid cbs (cLoop k) w = Inr w1" "doPendingTasks tid cbs (cLoop k) w1 = Inr w2"
    "wConns w1 c \<noteq> None" "wConns w2 c = None" "SysClose (cSock k) \<in> set (wTrace w2)"
    "ep_registered (wPollers w2 (cLoop k)) (cSock k) = None" "cName k \<notin> fst ` set (srvConns (wServer w2))"
    "wTrace w2 = wTrace w @ map SysClose fds"
proof -
  let ?l = "cLoop k"
  note own = assms(3) [unfolded sole_owner_def]
  define q where "q = (putLoop ?l ((wLoops w ?l)\<lparr>pendingTasks := []\<rparr>) w)\<lparr>wBatch := (wBatch w)(?l := [TClose c])\<rparr>"
  have at: "conn_attached tid c k q"
    using assms(1) by (auto simp: q_def conn_attached_def isInLoopThread_def split: if_splits)
  have srv: "srvLoop (wServer q) = ?l" "map_of (srvConns (wServer q)) (cName k) \<noteq> None"
    using own weak_map_of_SomeI [of "cName k" c] by (auto simp: q_def)
  obtain w0 k1 where w0: "handleClose tid cbs c q = Inr w0" "conn_attached tid c k1 w0" "cState k1 = kDisconnected"
    "isNoneEvent (cChannel k1)" "cSock k1 = cSock k" "cLoop k1 = ?l"
    "srvConns (wServer w0) = filter (\<lambda>e. fst e \<noteq> cName k) (srvConns (wServer q))"
    "\<And>l. pendingTasks (wLoops w0 l) = pendingTasks (wLoops q l) @ (if l = ?l then [TDestroyed c] else [])"
    "wTrace w0 = wTrace q" "wHeld w0 = wHeld q" "wBatch w0 = wBatch q" "wNextAddr w0 = wNextAddr q"
    "wLoopCount w0 = wLoopCount q"
    using closed [OF at assms(2) srv] by metis
  let ?w0 = "w0\<lparr>wBatch := (wBatch w0)(?l := [])\<rparr>"
  have run: "doPendingTasks tid cbs ?l w = Inr (reap ?w0)"
    using w0(1) assms(2,4) conn_attachedD(1,3) [OF at]
    by (simp add: doPendingTasks_def takeTasks_def runTasks_def q_def closeInLoop_def world_simps)
  have "c \<in> set (keeps (TDestroyed c))" "TDestroyed c \<in> set (pendingTasks (wLoops ?w0 ?l))" using w0(8) by simp_all
  then have "c \<in> set (kept ?w0)" using own w0(13) by (fastforce simp: kept_def q_def)
  then have at1: "conn_attached tid c k1 (reap ?w0)" using w0(2) by (simp add: conn_attached_def reap_conns)
  obtain w2 fds where w2: "doPendingTasks tid cbs (cLoop k1) (reap ?w0) = Inr w2" "wConns w2 c = None"
    "SysClose (cSock k1) \<in> set (wTrace w2)" "ep_registered (wPollers w2 (cLoop k1)) (cSock k1) = None"
    "wServer w2 = wServer (reap ?w0)" "wTrace w2 = wTrace (reap ?w0) @ map SysClose fds"
    by (rule destroy_batch [OF at1 w0(3,4)]) (use own w0(6-12) in \<open>auto simp: q_def\<close>)
  obtain fds' where "wTrace (reap ?w0) = wTrace w @ map SysClose fds'"
    using reap_trace [of ?w0] w0(9) by (auto simp: q_def)
  with w2 run w0(5-7) conn_attachedD(1) [OF at1] show thesis
    by (intro that [of "reap ?w0" w2 "fds' @ fds"]) auto
qed

end

section \<open>Properties\<close>

text \<open>
  A world for the examples: one loop run by thread 1, a server with one connection (address 1,
  socket 5) that has just been accepted, and callbacks that do nothing. The poller of the loop is empty.
\<close>

definition quietCbs :: "unit callbacks" where
  "quietCbs = \<lparr>connectionCallback = (\<lambda>tid c w. Inr w), msgCallback = (\<lambda>tid c t w. Inr w),
               writeCompleteCallback = None\<rparr>"

definition acceptedWorld :: "'x world" where
  "acceptedWorld =
     \<lparr>wLoopCount = 1,
      wLoops = (\<lambda>_. \<lparr>stopLooping = False, loopTid = 1, pendingTasks = [], wakeupCount = 0\<rparr>),
      wPollers = (\<lambda>_. newEPollPoller), wOwn = (\<lambda>l x. newChannel (ownId x) l (-1)), wConns = [1 \<mapsto> newConn 1 0 ''srv#1'' 5 (listenAddr 80) (listenAddr 0)], wNextAddr = 2,
      wServer = (freshServer (listenAddr 80) 3 (newEventLoops 0))\<lparr>srvName := ''srv'', srvConns := [(''srv#1'', 1)], srvNextId := 2\<rparr>,
      wBatch = (\<lambda>_. []), wHeld = [], wTrace = [], wKernel = (\<lambda>_. 0)\<rparr>"

lemma newConn_ok: "0 \<le> fd \<Longrightarrow> conn_ok c (newConn c l name fd localAddr peerAddr)"
  by (auto simp: conn_ok_def newConn_def newBuffer_ok chan_ok_def setWriteCallback_def setReadCallback_def
      newChannel_def evmask_def intro: exI [of _ False])

lemma quiet_quietCbs: "quiet_user quietCbs"
  by (simp add: quiet_user_def quietCbs_def)

lemma accepted_established:
  fixes cbs :: "'x callbacks"
  assumes "quiet_user cbs"
  obtains w' k' where "connectEstablished 1 cbs 1 acceptedWorld = Inr w'" "conn_attached 1 1 k' w'"
    "cState k' = kConnected" "cSock k' = 5" "cOutput k' = newBuffer" "wTrace w' = []"
    "wServer w' = wServer (acceptedWorld :: 'x world)" "cName k' = ''srv#1''" "cLoop k' = 0"
    "wLoops w' = wLoops (acceptedWorld :: 'x world)"
    "wHeld w' = []" "wBatch w' = (\<lambda>_. [])" "wNextAddr w' = 2" "wLoopCount w' = 1" "cContext k' = None"
    "cInput k' = newBuffer" "dom (wConns w') = {1}"
proof -
  let ?k = "newConn 1 0 ''srv#1'' 5 (listenAddr 80) (listenAddr 0) :: 'x conn" and ?w = "acceptedWorld :: 'x world"
  have a: "wConns ?w 1 = Some ?k" "cState ?k = kConnecting" "cSock ?k = 5" "cLoop ?k = 0"
    "cOutput ?k = newBuffer" "isInLoopThread 1 (wLoops ?w (cLoop ?k))" "ep_inv (wPollers ?w (cLoop ?k))"
    "ep_registered (wPollers ?w (cLoop ?k)) (cSock ?k) = None" "wTrace ?w = []" "cName ?k = ''srv#1''"
    "wHeld ?w = []" "wBatch ?w = (\<lambda>_. [])" "wNextAddr ?w = 2" "wLoopCount ?w = 1" "cContext ?k = None"
    "cInput ?k = newBuffer" "dom (wConns ?w) = {1}"
    by (simp_all add: acceptedWorld_def newConn_def isInLoopThread_def ep_inv_new ep_abs_new)
  have "conn_ok 1 ?k" by (rule newConn_ok) simp
  then obtain w' k' where "connectEstablished 1 cbs 1 ?w = Inr w'" "conn_attached 1 1 k' w'"
    "cState k' = kConnected" "cSock k' = cSock ?k" "cOutput k' = cOutput ?k" "cInput k' = cInput ?k"
    "cName k' = cName ?k" "cLoop k' = cLoop ?k" "wTrace w' = wTrace ?w" "wServer w' = wServer ?w"
    "wLoops w' = wLoops ?w" "wHeld w' = wHeld ?w" "wBatch w' = wBatch ?w" "wNextAddr w' = wNextAddr ?w"
    "wLoopCount w' = wLoopCount ?w" "cContext k' = cContext ?k" "dom (wConns w') = dom (wConns ?w)"
    by (rule quiet_user.established [OF assms a(1) _ a(2,6-8)])
  with a show thesis by (intro that [of w' k']) simp_all
qed

lemmas established_world = accepted_established [OF quiet_quietCbs]

text \<open>
  C15: the outgoing byte stream, as long as the output buffer is not compacted. On an established
  connection, every interleaving of \<open>sendInLoop\<close> and \<open>handleWrite\<close> (with writes that take any part of
  what is offered, or fail) in which every message finds room in the output buffer, behind the
  waiting bytes or by growing it (\<open>out_run_fits\<close>; the code corrupts the waiting bytes when an append has to
  move them to the front), succeeds, keeps the bytes in the order of the calls of \<open>send\<close>, loses none and repeats
  none: what has been written to the socket followed by the output buffer is what had been sent
  before followed by the new messages. Waiting output is always watched for writability.
\<close>

theorem outgoing_stream:
  assumes "streaming tid c done w" and "out_run_fits tid cbs c xs w"
  shows "\<exists>w' k'. runR (out_step tid cbs c) xs w = Inr w' \<and> wConns w' c = Some k' \<and> cState k' = kConnected
    \<and> written (cSock k') (wTrace w') @ contents (cOutput k') = done @ sent xs
    \<and> (contents (cOutput k') \<noteq> [] \<longrightarrow> isWriting (cChannel k'))"
proof -
  from out_run_streams [OF assms] obtain w' where w': "runR (out_step tid cbs c) xs w = Inr w'"
    "streaming tid c (done @ sent xs) w'" by blast
  from w'(2) obtain k' where k': "conn_attached tid c k' w'" "cState k' = kConnected"
    "contents (cOutput k') \<noteq> [] \<longrightarrow> isWriting (cChannel k')"
    "written (cSock k') (wTrace w') @ contents (cOutput k') = done @ sent xs"
    by (auto simp: streaming_def)
  show ?thesis
    by (rule exI [of _ w'], rule exI [of _ k']) (use w'(1) k' conn_attachedD(1) [OF k'(1)] in simp)
qed

theorem outgoing_stream_witness:
  "\<exists>w w' k'. runR (out_step 1 quietCbs 1) [OSend ''hello''] w = Inr w' \<and> wConns w' 1 = Some k'
     \<and> written (cSock k') (wTrace w') @ contents (cOutput k') = ''hello''"
proof -
  obtain w :: "unit world" and k where w: "conn_attached 1 1 k w" "cState k = kConnected" "cOutput k = newBuffer" "wTrace w = []"
    using established_world by metis
  then have "streaming 1 1 [] w" by (auto simp: streaming_def written_def)
  moreover have "room (length ''hello'') newBuffer"
    by (rule newBuffer_room) (simp add: kCheapPrepend_def max_size_def)
  then have "out_run_fits 1 quietCbs 1 [OSend ''hello''] w"
    using conn_attachedD(1) [OF w(1)] w(3) by (simp split: sum.splits)
  ultimately show ?thesis using outgoing_stream [of 1 1 "[]" w quietCbs "[OSend ''hello'']"]
    by (metis append_Nil append_Nil2 sent.simps(1,2))
qed

text \<open>
  C34: \<open>shutdown\<close> and the end of the stream. With nothing waiting, \<open>shutdownInLoop\<close> shuts the
  write side down, or ends the process when \<^verbatim>\<open>shutdown(2)\<close> fails. With output waiting it only changes the state to \<open>kDisconnecting\<close>; when the
  output has been written completely, the \<open>shutdownInLoop\<close> that \<open>handleWrite\<close> calls does
  nothing, because it asks for the state \<open>kConnected\<close>: the write side is never shut down, and
  calling \<open>shutdownInLoop\<close> again does not help.
\<close>

theorem shutdown_after_output_lost:
  assumes "conn_attached tid c k w" and "cState k = kConnected"
  shows "(\<not> isWriting (cChannel k) \<longrightarrow>
      (if 0 \<le> wKernel w (SysShutdown (cSock k))
       then \<exists>w1. shutdownInLoop tid c w = Inr w1 \<and> wTrace w1 = wTrace w @ [SysShutdown (cSock k)]
       else shutdownInLoop tid c w = Inl AssertFailed))
    \<and> (isWriting (cChannel k) \<and> contents (cOutput k) \<noteq> [] \<longrightarrow>
      (\<exists>w1 w2. shutdownInLoop tid c w = Inr w1
         \<and> conn_handleWrite tid cbs (Wrote (readableBytes (cOutput k))) c w1 = Inr w2
         \<and> wTrace w2 = wTrace w @ [SysWrite (cSock k) (contents (cOutput k))]
         \<and> shutdownInLoop tid c w2 = Inr w2))"
proof (intro conjI impI)
  note k = conn_attachedD [OF assms(1)]
  let ?k1 = "k\<lparr>cState := kDisconnecting\<rparr>" and ?w1 = "putConn c (k\<lparr>cState := kDisconnecting\<rparr>) w"
  show "if 0 \<le> wKernel w (SysShutdown (cSock k))
     then \<exists>w1. shutdownInLoop tid c w = Inr w1 \<and> wTrace w1 = wTrace w @ [SysShutdown (cSock k)]
     else shutdownInLoop tid c w = Inl AssertFailed"
    if "\<not> isWriting (cChannel k)"
    using that k(1,3,5) assms(2)
    by (simp add: shutdownInLoop_def setState_def world_simps kernelCall_def shutdownWrite_def)
  assume out: "isWriting (cChannel k) \<and> contents (cOutput k) \<noteq> []"
  have w1: "shutdownInLoop tid c w = Inr ?w1"
    using out k(1,3) assms(2) by (simp add: shutdownInLoop_def setState_def world_simps)
  have at: "conn_attached tid c ?k1 ?w1" using assms(1) k(6,7) by (intro conn_attached_put) simp_all
  let ?n = "readableBytes (cOutput k)"
  have fits: "out_fits (OWrite (Wrote ?n)) ?k1" by simp
  have watch: "contents (cOutput ?k1) \<noteq> [] \<longrightarrow> isWriting (cChannel ?k1)" using out by simp
  from write_streams [OF at fits watch, of cbs] obtain k2 w2 where
    w2: "conn_handleWrite tid cbs (Wrote ?n) c ?w1 = Inr w2" "conn_attached tid c k2 w2" "cState k2 = cState ?k1"
      "\<And>n. Wrote ?n = Wrote n \<Longrightarrow> isWriting (cChannel ?k1) \<Longrightarrow> contents (cOutput ?k1) \<noteq> [] \<Longrightarrow>
       wTrace w2 = wTrace ?w1 @ [SysWrite (cSock ?k1) (take n (contents (cOutput ?k1)))]"
    by metis
  have "wTrace w2 = wTrace w @ [SysWrite (cSock k) (contents (cOutput k))]"
    using w2(4) [OF refl] out length_contents [OF k(6)] by simp
  moreover have "shutdownInLoop tid c w2 = Inr w2"
    using w2(3) conn_attachedD(1,3) [OF w2(2)] by (simp add: shutdownInLoop_def world_simps)
  ultimately show "\<exists>w1 w2. shutdownInLoop tid c w = Inr w1
      \<and> conn_handleWrite tid cbs (Wrote ?n) c w1 = Inr w2
      \<and> wTrace w2 = wTrace w @ [SysWrite (cSock k) (contents (cOutput k))]
      \<and> shutdownInLoop tid c w2 = Inr w2" using w1 w2(1) by blast
qed

theorem shutdown_after_output_lost_witness:
  "\<exists>w1 w2. wTrace w1 = [] \<and> conn_handleWrite 1 quietCbs (Wrote 5) 1 w1 = Inr w2
     \<and> wTrace w2 = [SysWrite 5 ''hello''] \<and> shutdownInLoop 1 1 w2 = Inr w2"
proof -
  obtain w :: "unit world" and k where w: "conn_attached 1 1 k w" "cState k = kConnected" "cSock k = 5" "cOutput k = newBuffer" "wTrace w = []"
    by (rule established_world) blast
  have room: "room (length ''hello'') (cOutput k)"
    unfolding w(4) by (rule newBuffer_room) (simp add: kCheapPrepend_def max_size_def)
  obtain k' and w' :: "unit world" where s: "conn_attached 1 1 k' w'" "cState k' = kConnected"
    "cSock k' = cSock k" "isWriting (cChannel k')" "contents (cOutput k') = contents (cOutput k) @ ''hello''"
    "wTrace w' = wTrace w" by (rule send_streams [OF w(1,2) room]) blast
  have hello: "contents (cOutput k') = ''hello''" using s(5) w(4) by simp
  moreover have "readableBytes (cOutput k') = 5"
    using length_contents [OF conn_attachedD(6) [OF s(1)]] hello by simp
  ultimately obtain w1 w2 where *: "shutdownInLoop 1 1 w' = Inr w1" "conn_handleWrite 1 quietCbs (Wrote 5) 1 w1 = Inr w2"
    "wTrace w2 = [SysWrite 5 ''hello'']" "shutdownInLoop 1 1 w2 = Inr w2"
    using shutdown_after_output_lost [OF s(1,2), of quietCbs] s(3,4,6) w(3,5) by auto
  have "wTrace w1 = []" using *(1) s w(5) conn_attachedD(1,3) [OF s(1)]
    by (auto simp: shutdownInLoop_def setState_def world_simps)
  with * show ?thesis by blast
qed



text \<open>
  C35: \<open>send\<close> is documented as thread safe, but the task it queues holds a plain pointer. When
  a thread other than the loop's owns the last handle of a connection, calls \<open>send\<close> and drops
  the handle, the loop's next batch accesses the destroyed object.
\<close>

theorem send_from_last_handle:
  assumes "wConns w c = Some k" and "c < wNextAddr w" and "cLoop k < wLoopCount w"
    and "\<not> isInLoopThread tid (wLoops w (cLoop k))" and "pendingTasks (wLoops w (cLoop k)) = []"
    and "c \<notin> set (kept (w\<lparr>wHeld := []\<rparr>))"
  shows "\<exists>w1. send tid msg c w = Inr w1
    \<and> doPendingTasks ltid cbs (cLoop k) (reap (w1\<lparr>wHeld := []\<rparr>)) = Inl UseAfterFree"
proof -
  let ?w1 = "queueTask (cLoop k) (TSend c msg) w"
  let ?w2 = "reap (?w1\<lparr>wHeld := []\<rparr>)"
  have "send tid msg c w = Inr ?w1" using assms(1,4) by (simp add: send_def withConn_Some runInLoop_no)
  moreover have "set (kept (?w1\<lparr>wHeld := []\<rparr>)) = set (kept (w\<lparr>wHeld := []\<rparr>))"
    by (auto simp: kept_def)
  then have "wConns ?w2 c = None" using assms(2,6) by (simp add: reap_conns)
  then have "doPendingTasks ltid cbs (cLoop k) ?w2 = Inl UseAfterFree"
    using assms(5) by (simp add: doPendingTasks_def takeTasks_def runTasks_def sendInLoop_def withConn_None)
  ultimately show ?thesis by blast
qed

theorem send_from_last_handle_witness:
  "\<exists>w1. send 2 ''x'' 1 (acceptedWorld\<lparr>wServer := freshServer (listenAddr 80) 3 (newEventLoops 0), wHeld := [1]\<rparr>) = Inr w1
    \<and> doPendingTasks 1 quietCbs 0 (reap (w1\<lparr>wHeld := []\<rparr>)) = Inl UseAfterFree"
proof -
  let ?w = "acceptedWorld\<lparr>wServer := freshServer (listenAddr 80) 3 (newEventLoops 0), wHeld := [1]\<rparr>"
  let ?k = "newConn 1 0 ''srv#1'' 5 (listenAddr 80) (listenAddr 0)"
  have "wConns ?w 1 = Some ?k" "cLoop ?k = 0" by (simp_all add: acceptedWorld_def newConn_def)
  with send_from_last_handle [of ?w 1 ?k 2 "''x''" 1 quietCbs] show ?thesis
    by (simp add: acceptedWorld_def isInLoopThread_def kept_def freshServer_def)
qed

lemma idle_stopped: "loop_reach s \<Longrightarrow> sysPhase s = Idle \<longrightarrow> stopLooping (sysLoop s)"
proof (induction rule: loop_reach.induct)
  case reach_init
  then show ?case by (simp add: loop_sys_init_def newEventLoop_def)
next
  case (reach_step s s')
  from reach_step.hyps(2) reach_step.IH show ?case
  proof cases
    case (step_act xs a as ys)
    then show ?thesis using reach_step.IH by (cases a) (auto simp: loop_defs)
  next
    case step_own
    then show ?thesis using reach_step.IH by cases (auto simp: loop_defs)
  qed (auto simp: loop_defs startLooping_eq)
qed

text \<open>
  C37: the destructor of \<^verbatim>\<open>TcpServer\<close>. It aborts the process whenever the loop of the server is not
  running on the calling thread: while another thread runs it, and, in every interleaving, on every
  thread once \<^verbatim>\<open>loop()\<close> has returned or before it was entered. On the loop's own thread, when the first
  connection of the map is served by that loop, has called \<open>shutdown\<close> and is still watched, it fails an
  assertion, because the connection is removed from the poller without clearing its interest.
  Destroying a listening server without connections succeeds and closes the listening socket, but
  leaves its channel with the poller, so that the loop fails an assertion as soon as a new socket
  gets the same descriptor.
\<close>

theorem server_destructor_faults:
  "(\<not> isInLoopThread tid (wLoops w (srvLoop (wServer w))) \<longrightarrow> serverDtor tid cbs w = Inl Aborted)
   \<and> (loop_reach s \<and> sysPhase s = Idle \<and> wLoops w (srvLoop (wServer w)) = sysLoop s \<longrightarrow>
      serverDtor tid cbs w = Inl Aborted)
   \<and> (conn_attached tid c k w \<and> cState k = kDisconnecting \<and> \<not> isNoneEvent (cChannel k)
       \<and> srvLoop (wServer w) = cLoop k \<and> srvConns (wServer w) = (cName k, c) # es \<longrightarrow>
      serverDtor tid cbs w = Inl AssertFailed)
   \<and> (srvConns (wServer w) = [] \<and> isInLoopThread tid (wLoops w (srvLoop (wServer w))) \<and> 0 < srvAcceptFd (wServer w)
       \<and> ep_registered (wPollers w (srvLoop (wServer w))) (srvAcceptFd (wServer w)) \<noteq> None
       \<and> wKernel w (SysClose (srvAcceptFd (wServer w))) = 0 \<longrightarrow>
      (\<exists>w'. serverDtor tid cbs w = Inr w' \<and> SysClose (srvAcceptFd (wServer w)) \<in> set (wTrace w')
         \<and> (\<forall>ch. chFd ch = srvAcceptFd (wServer w)
              \<longrightarrow> ep_step (AddChannel ch) (wPollers w' (srvLoop (wServer w))) = Inl AssertFailed)))"
proof (intro conjI impI)
  assume "\<not> isInLoopThread tid (wLoops w (srvLoop (wServer w)))"
  then show "serverDtor tid cbs w = Inl Aborted" by (simp add: serverDtor_def assertIn_no)
next
  assume "loop_reach s \<and> sysPhase s = Idle \<and> wLoops w (srvLoop (wServer w)) = sysLoop s"
  then have "\<not> isInLoopThread tid (wLoops w (srvLoop (wServer w)))"
    using idle_stopped [of s] by (simp add: isInLoopThread_def)
  then show "serverDtor tid cbs w = Inl Aborted" by (simp add: serverDtor_def assertIn_no)
next
  assume a: "conn_attached tid c k w \<and> cState k = kDisconnecting \<and> \<not> isNoneEvent (cChannel k)
    \<and> srvLoop (wServer w) = cLoop k \<and> srvConns (wServer w) = (cName k, c) # es"
  then have at: "conn_attached tid c k w" by simp
  note k = conn_attachedD [OF at]
  let ?w1 = "putServer ((wServer w)\<lparr>srvConns := filter (\<lambda>e. fst e \<noteq> cName k) (srvConns (wServer w))\<rparr>) w"
  have "ep_step (RemoveChannel (cChannel k)) (wPollers w (cLoop k)) = Inl AssertFailed"
    using a by (simp add: ep_step_fails)
  then have "connectDestroyed tid cbs c ?w1 = Inl AssertFailed"
    using a k by (simp add: connectDestroyed_def loopRemoveChannel_def connPollerOp_def pollerOp_def world_simps)
  then show "serverDtor tid cbs w = Inl AssertFailed"
    using a k by (simp add: serverDtor_def world_simps Let_def)
next
  assume "srvConns (wServer w) = [] \<and> isInLoopThread tid (wLoops w (srvLoop (wServer w))) \<and> 0 < srvAcceptFd (wServer w)
    \<and> ep_registered (wPollers w (srvLoop (wServer w))) (srvAcceptFd (wServer w)) \<noteq> None
    \<and> wKernel w (SysClose (srvAcceptFd (wServer w))) = 0"
  then show "\<exists>w'. serverDtor tid cbs w = Inr w' \<and> SysClose (srvAcceptFd (wServer w)) \<in> set (wTrace w')
      \<and> (\<forall>ch. chFd ch = srvAcceptFd (wServer w)
           \<longrightarrow> ep_step (AddChannel ch) (wPollers w' (srvLoop (wServer w))) = Inl AssertFailed)"
    by (auto simp: serverDtor_def world_simps acceptorDtor_def kernelCall_def closeSock_def assertR_def ep_addChannel_def
        ep_registered_def)
qed

definition listeningWorld :: "unit world" where
  "listeningWorld = acceptedWorld\<lparr>wServer := freshServer (listenAddr 80) 3 (newEventLoops 0),
     wPollers := \<lambda>_. newEPollPoller\<lparr>epChannels := [3 \<mapsto> (0, ADDED)]\<rparr>\<rparr>"

theorem server_destructor_faults_witness:
  "serverDtor 1 quietCbs (acceptedWorld\<lparr>wLoops := \<lambda>_. newEventLoop\<rparr>) = Inl Aborted
   \<and> serverDtor 2 quietCbs acceptedWorld = Inl Aborted
   \<and> (\<exists>w'. serverDtor 1 quietCbs listeningWorld = Inr w' \<and> SysClose 3 \<in> set (wTrace w')
        \<and> ep_step (AddChannel (newChannel 1 0 3)) (wPollers w' 0) = Inl AssertFailed)"
proof (intro conjI)
  show "serverDtor 2 quietCbs acceptedWorld = Inl Aborted"
    using server_destructor_faults [of 2 acceptedWorld quietCbs] by (simp add: acceptedWorld_def isInLoopThread_def freshServer_def)
  show "serverDtor 1 quietCbs (acceptedWorld\<lparr>wLoops := \<lambda>_. newEventLoop\<rparr>) = Inl Aborted"
    using server_destructor_faults [of 1 "acceptedWorld\<lparr>wLoops := \<lambda>_. newEventLoop\<rparr>" quietCbs loop_sys_init]
      reach_init by (auto simp: loop_sys_init_def)
  have w: "srvConns (wServer listeningWorld) = []" "srvAcceptFd (wServer listeningWorld) = 3" "srvLoop (wServer listeningWorld) = 0"
    "isInLoopThread 1 (wLoops listeningWorld 0)" "wKernel listeningWorld (SysClose 3) = 0"
    "ep_registered (wPollers listeningWorld 0) 3 \<noteq> None"
    by (simp_all add: listeningWorld_def freshServer_def acceptedWorld_def isInLoopThread_def ep_registered_def)
  have "chFd (newChannel 1 0 3) = 3" by (simp add: newChannel_def)
  with server_destructor_faults [of 1 listeningWorld quietCbs] w
  show "\<exists>w'. serverDtor 1 quietCbs listeningWorld = Inr w' \<and> SysClose 3 \<in> set (wTrace w')
      \<and> ep_step (AddChannel (newChannel 1 0 3)) (wPollers w' 0) = Inl AssertFailed"
    by (auto simp del: ep_step.simps)
qed

subsection \<open>Names of connections\<close>

definition connName :: "tcp_server \<Rightarrow> int \<Rightarrow> string" where
  "connName s i = srvName s @ ''#'' @ showInt i"

text \<open>Every entry of the map was named with an earlier number, under one name each.\<close>

definition names_ok :: "tcp_server \<Rightarrow> bool" where
  "names_ok s \<longleftrightarrow> 1 \<le> srvNextId s \<and> distinct (map fst (srvConns s))
     \<and> (\<forall>e \<in> set (srvConns s). \<exists>i. 1 \<le> i \<and> i < srvNextId s \<and> fst e = connName s i)"

lemma connName_take: "0 \<le> i \<Longrightarrow> i < 2 ^ 31 \<Longrightarrow> srvName s @ snprintf 32 (''#'' @ showInt i) = connName s i"
  using showInt_facts [of i] c_str_id [of "''#'' @ showInt i"] by (simp add: connName_def snprintf_def)

lemma AList_update_new: "k \<notin> fst ` set xs \<Longrightarrow> AList.update k v xs = xs @ [(k, v)]"
  by (induction xs) auto

lemma changeInterest_server: "changeInterest tid f c w = Inr w' \<Longrightarrow> wServer w' = wServer w"
  by (auto simp: changeInterest_def loopUpdateChannel_def connPollerOp_def pollerOp_def withConn_def
      runInLoop_def assertIn_def assertInLoopThread_def result_simps split: option.splits if_splits)

context quiet_user
begin

lemma established_server: "connectEstablished tid cbs c w = Inr w' \<Longrightarrow> wServer w' = wServer w"
  by (auto simp: connectEstablished_def loopAddChannel_def connPollerOp_def pollerOp_def withConn_def
      runInLoop_def assertIn_def assertInLoopThread_def result_simps quiet setState_def interest_steps
      dest!: changeInterest_server split: option.splits if_splits)

end

text \<open>
  C28: connection names do not collide while the \<^verbatim>\<open>int\<close> counter of connections is below \<open>2 ^ 31\<close>.
  If every name in the server's map was made from an earlier connection number, then whenever
  \<open>newConnection\<close> returns (for a user whose connection callback leaves the world alone) it has
  added one entry at the end of the map, under the name of the current number, has kept all other
  entries, and the map has this property again; so no connection is overwritten and lost.
\<close>

theorem newConnection_unique_name:
  assumes "\<forall>tid c w. connectionCallback cbs tid c w = Inr w" and "names_ok (wServer w)"
    and "srvNextId (wServer w) < 2 ^ 31" and "newConnection tid cbs fd peerAddr lres w = Inr w'"
  shows "srvConns (wServer w') = srvConns (wServer w) @ [(connName (wServer w) (srvNextId (wServer w)), wNextAddr w)]
    \<and> names_ok (wServer w')"
proof -
  let ?s = "wServer w"
  let ?n = "connName ?s (srvNextId ?s)"
  have q: "quiet_user cbs" using assms(1) by (simp add: quiet_user_def)
  have pos: "0 \<le> srvNextId ?s" using assms(2) by (simp add: names_ok_def)
  have fresh: "?n \<notin> fst ` set (srvConns ?s)"
  proof
    assume "?n \<in> fst ` set (srvConns ?s)"
    then obtain i where "1 \<le> i" "i < srvNextId ?s" "?n = connName ?s i"
      using assms(2) by (auto simp: names_ok_def)
    then show False using showInt_inj [of "srvNextId ?s" i] pos by (simp add: connName_def)
  qed
  obtain l els where al: "allocLoop (srvLoops ?s) = Inr (l, els)"
    using assms(4) by (auto simp: newConnection_def assertIn_def assertInLoopThread_def result_simps Let_def split: if_splits)
  let ?s1 = "?s\<lparr>srvNextId := srvNextId ?s + 1, srvLoops := els, srvConns := srvConns ?s @ [(?n, wNextAddr w)]\<rparr>"
  have "wServer w' = ?s1"
    using assms(4) al fresh connName_take [OF pos assms(3), of ?s] quiet_user.established_server [OF q]
    by (auto simp: newConnection_def assertIn_def assertInLoopThread_def AList_update_new runInLoop_def Let_def
        getLocalAddr_def result_simps split: if_splits)
  moreover have "names_ok ?s1"
    using assms(2) fresh pos by (fastforce simp: names_ok_def connName_def intro: less_imp_le)
  ultimately show ?thesis by simp
qed

theorem newConnection_unique_name_witness:
  "\<exists>w'. newConnection 1 quietCbs 7 (listenAddr 9) (0, listenAddr 80) acceptedWorld = Inr w'
     \<and> srvConns (wServer w') = [(''srv#1'', 1), (connName (wServer (acceptedWorld :: unit world)) 2, 2)]"
proof -
  let ?w = "acceptedWorld :: unit world"
  let ?k = "newConn 2 0 (''srv'' @ snprintf 32 (''#'' @ showInt 2)) 7 (listenAddr 80) (listenAddr 9) :: unit conn"
  let ?s = "(wServer ?w)\<lparr>srvNextId := 3, srvLoops := newEventLoops 0,
      srvConns := AList.update (''srv'' @ snprintf 32 (''#'' @ showInt 2)) 2 (srvConns (wServer ?w))\<rparr>"
  let ?w1 = "putConn 2 ?k (putServer ?s (?w\<lparr>wNextAddr := 3\<rparr>))"
  have q: "\<forall>tid c w. connectionCallback quietCbs tid c w = Inr w" by (simp add: quietCbs_def)
  have one: "showInt 1 = ''1''" by code_simp
  have n: "names_ok (wServer ?w)"
    by (auto simp: names_ok_def acceptedWorld_def freshServer_def connName_def one intro!: exI [of _ 1])
  have "conn_ok 2 ?k" by (rule newConn_ok) simp
  moreover have "wConns ?w1 2 = Some ?k" "cState ?k = kConnecting"
    "isInLoopThread 1 (wLoops ?w1 (cLoop ?k))" "ep_inv (wPollers ?w1 (cLoop ?k))"
    "ep_registered (wPollers ?w1 (cLoop ?k)) (cSock ?k) = None"
    by (simp_all add: newConn_def acceptedWorld_def isInLoopThread_def ep_inv_new ep_abs_new)
  ultimately obtain w' where "connectEstablished 1 quietCbs 2 ?w1 = Inr w'"
    using quiet_user.established [OF quiet_quietCbs] by metis
  moreover have "newConnection 1 quietCbs 7 (listenAddr 9) (0, listenAddr 80) ?w = connectEstablished 1 quietCbs 2 ?w1"
    by (simp add: newConnection_def assertIn_def assertInLoopThread_def acceptedWorld_def isInLoopThread_def
        freshServer_def allocLoop_def newEventLoops_def getLocalAddr_def runInLoop_def putConn_def putServer_def Let_def)
  ultimately have new: "newConnection 1 quietCbs 7 (listenAddr 9) (0, listenAddr 80) ?w = Inr w'" by simp
  have "srvNextId (wServer ?w) = 2" "wNextAddr ?w = 2" "srvConns (wServer ?w) = [(''srv#1'', 1)]"
    by (simp_all add: acceptedWorld_def)
  with newConnection_unique_name [OF q n _ new] new show ?thesis by simp
qed

end
