(* ===== verification/Http_Server.thy ===== *)
theory Http_Server
  imports Tcp_Connection
begin

text \<open>
  The class \<^verbatim>\<open>HttpServer\<close> of \<^verbatim>\<open>miniduo/http/httpserver.h\<close> and
  \<^verbatim>\<open>miniduo/http/httpserver.cpp\<close>: the callbacks a static file server installs in a
  \<^verbatim>\<open>TcpServer\<close>. The context of a connection is an \<open>http_context\<close>. What the system calls on
  files return is the record \<open>file_env\<close>.
\<close>

section \<open>Model: files\<close>

text \<open>
  \<open>envStat\<close> gives the mode of a path (\<open>None\<close>: \<^verbatim>\<open>stat\<close> fails), \<open>envOpen\<close> the descriptor
  \<^verbatim>\<open>open\<close> returns, \<open>envSize\<close> the \<^verbatim>\<open>st_size\<close> of a descriptor, \<open>envRead\<close> the first block
  (\<open>None\<close>: \<^verbatim>\<open>read\<close> fails) and \<open>envSendfile\<close> the result of the next \<^verbatim>\<open>sendfile\<close>.
\<close>

record file_env =
  envStat :: "string \<Rightarrow> 32 word option"
  envOpen :: "string \<Rightarrow> int"
  envSize :: "int \<Rightarrow> int"
  envRead :: "int \<Rightarrow> string option"
  envSendfile :: "effect list \<Rightarrow> int \<Rightarrow> int"

definition S_IROTH :: "32 word" where "S_IROTH = 0x4"
definition S_IFMT :: "32 word" where "S_IFMT = 0xF000"
definition S_IFDIR :: "32 word" where "S_IFDIR = 0x4000"

text \<open>The conversion of \<^verbatim>\<open>off_t\<close> to \<^verbatim>\<open>int\<close>.\<close>

definition int_of_long :: "int \<Rightarrow> int" where
  "int_of_long i = (i + 2 ^ 31) mod 2 ^ 32 - 2 ^ 31"

section \<open>Model: the context of a connection\<close>

type_synonym http_world = "http_context world"

text \<open>\<^verbatim>\<open>new HttpContext()\<close> zero-initialises the members without an initialiser.\<close>

definition newHttpContext :: http_context where
  "newHttpContext = \<lparr>ctxReq = newHttpRequest VERSION_INVALID, ctxResp = newHttpResponse 0\<rparr>"

definition getContext :: "http_context conn \<Rightarrow> http_context" where
  "getContext k = (case cContext k of None \<Rightarrow> newHttpContext | Some ctx \<Rightarrow> ctx)"

definition putContext :: "nat \<Rightarrow> http_context \<Rightarrow> http_world \<Rightarrow> http_world result" where
  "putContext c ctx w = withConn c w (\<lambda>k. Inr (putConn c (k\<lparr>cContext := Some ctx\<rparr>) w))"

section \<open>Model: building the response\<close>

definition decodeHttpRequest :: "nat \<Rightarrow> http_world \<Rightarrow> (HTTP_CODE \<times> http_world) result" where
  "decodeHttpRequest c w =
     withConn c w (\<lambda>k.
       let ctx = getContext k; w0 = putConn c (k\<lparr>cContext := Some ctx\<rparr>) w
       in if checkstate (ctxReq ctx) = GET_ALL then Inr (NO_REQUEST, w0)
          else case tryDecode (ctxReq ctx) (cInput k) of
                 None \<Rightarrow> Inl NoReturn
               | Some res \<Rightarrow> bindR res (\<lambda>(code, r1, b1).
                   Inr (code, putConn c (k\<lparr>cContext := Some (ctx\<lparr>ctxReq := r1\<rparr>), cInput := b1\<rparr>) w)))"

definition handleRequest :: "file_env \<Rightarrow> string \<Rightarrow> http_request \<Rightarrow> HTTP_CODE" where
  "handleRequest env resourcePath req =
     (case envStat env (c_str (resourcePath @ URL req)) of
        None \<Rightarrow> NO_RESOURCE
      | Some mode \<Rightarrow>
          if mode AND S_IROTH = 0 then FORBIDDEN_REQUEST
          else if mode AND S_IFMT = S_IFDIR then BAD_REQUEST
          else FILE_REQUEST)"

definition loadFailResponse :: "int \<Rightarrow> http_response \<Rightarrow> http_response" where
  "loadFailResponse status resp =
     (addBody (snd (responseStatus status))
        (addHeaders (int (length (snd (responseStatus status)))) (addStatusLine status resp)))
     \<lparr>respComplete := True\<rparr>"

definition loadFile :: "file_env \<Rightarrow> string \<Rightarrow> http_request \<Rightarrow> http_response \<Rightarrow> http_response result" where
  "loadFile env resourcePath req resp =
     (let fd = envOpen env (c_str (resourcePath @ URL req));
          resp1 = resp\<lparr>filefd := fd\<rparr>
      in assertR (0 < fd)
           (let resp2 = addHeaders (int_of_long (envSize env fd)) (addStatusLine 200 resp1)
            in case envRead env fd of
                 None \<Rightarrow> Inl AssertFailed
               | Some bytes \<Rightarrow>
                   Inr (if bytes = [] then resp2
                        else if int (length bytes) < envSize env fd
                        then (addBody bytes resp2)\<lparr>respComplete := False\<rparr>
                        else (addBody bytes resp2)\<lparr>respComplete := True\<rparr>)))"

definition loadResponse :: "file_env \<Rightarrow> string \<Rightarrow> HTTP_CODE \<Rightarrow> http_request \<Rightarrow> http_response \<Rightarrow> http_response result" where
  "loadResponse env resourcePath retcode req resp =
     (case retcode of
        INTERNAL_ERROR \<Rightarrow> Inr (loadFailResponse 500 resp)
      | BAD_REQUEST \<Rightarrow> Inr (loadFailResponse 400 resp)
      | FORBIDDEN_REQUEST \<Rightarrow> Inr (loadFailResponse 403 resp)
      | NO_RESOURCE \<Rightarrow> Inr (loadFailResponse 404 resp)
      | FILE_REQUEST \<Rightarrow> loadFile env resourcePath req resp
      | _ \<Rightarrow> Inr resp)"

definition sendResponse :: "int \<Rightarrow> http_response \<Rightarrow> nat \<Rightarrow> http_world \<Rightarrow> http_world result" where
  "sendResponse tid resp c w =
     bindR (send tid (respHeaders resp) c w) (send tid (body resp) c)"

section \<open>Model: the callbacks\<close>

definition onState :: "int \<Rightarrow> nat \<Rightarrow> http_world \<Rightarrow> http_world result" where
  "onState tid c w = Inr w"

definition onMsg :: "file_env \<Rightarrow> string \<Rightarrow> int \<Rightarrow> nat \<Rightarrow> int \<Rightarrow> http_world \<Rightarrow> http_world result" where
  "onMsg env resourcePath tid c recvTime w =
     bindR (decodeHttpRequest c w) (\<lambda>(retcode, w1).
       if retcode = NO_REQUEST then Inr w1
       else withConn c w1 (\<lambda>k.
         let ctx = getContext k;
             retcode1 = (if retcode = GET_REQUEST then handleRequest env resourcePath (ctxReq ctx) else retcode)
         in bindR (loadResponse env resourcePath retcode1 (ctxReq ctx) (ctxResp ctx)) (\<lambda>resp.
            bindR (putContext c (ctx\<lparr>ctxResp := resp\<rparr>) w1) (\<lambda>w2.
            sendResponse tid resp c w2))))"

text \<open>The three places where \<^verbatim>\<open>onWriteComplete\<close> ends a response.\<close>

definition finishResponse :: "nat \<Rightarrow> http_world \<Rightarrow> http_world result" where
  "finishResponse c w =
     withConn c w (\<lambda>k.
       let ctx = getContext k;
           toClose = closeConnection (ctxResp ctx);
           (closed, resp) = clearResponse (ctxResp ctx);
           w1 = fold (\<lambda>fd. emit (SysClose fd)) closed w
       in bindR (putContext c \<lparr>ctxReq = clearRequest (ctxReq ctx), ctxResp = resp\<rparr> w1)
            (\<lambda>w2. if toClose then close c w2 else Inr w2))"

definition onWriteComplete :: "file_env \<Rightarrow> int \<Rightarrow> nat \<Rightarrow> http_world \<Rightarrow> http_world result" where
  "onWriteComplete env tid c w =
     withConn c w (\<lambda>k.
       let ctx = getContext k; w0 = putConn c (k\<lparr>cContext := Some ctx\<rparr>) w
       in if respComplete (ctxResp ctx) then finishResponse c w0
          else if checkstate (ctxReq ctx) = GET_ALL
          then bindR (sendfile tid (filefd (ctxResp ctx)) (envSendfile env (wTrace w0) (filefd (ctxResp ctx))) c w0)
                 (\<lambda>(ret, w1). if 0 < ret then send tid [] c w1 else finishResponse c w1)
          else Inr w0)"

definition httpCallbacks :: "file_env \<Rightarrow> string \<Rightarrow> http_context callbacks" where
  "httpCallbacks env resourcePath =
     \<lparr>connectionCallback = onState, msgCallback = onMsg env resourcePath,
      writeCompleteCallback = Some (onWriteComplete env)\<rparr>"

interpretation http: quiet_user "httpCallbacks env resourcePath" for env resourcePath
  by unfold_locales (simp add: httpCallbacks_def onState_def)

section \<open>Lemmas\<close>

lemma putContext_attached:
  assumes "conn_attached tid c k w"
  shows "putContext c ctx w = Inr (putConn c (k\<lparr>cContext := Some ctx\<rparr>) w)"
    and "conn_attached tid c (k\<lparr>cContext := Some ctx\<rparr>) (putConn c (k\<lparr>cContext := Some ctx\<rparr>) w)"
  using conn_attachedD [OF assms] conn_attached_put [OF assms, of "k\<lparr>cContext := Some ctx\<rparr>"]
  by (simp_all add: putContext_def withConn_Some)

text \<open>Sending into an output buffer whose reader stands at the front.\<close>

lemma send_front:
  assumes "conn_attached tid c k w" and "cState k = kConnected"
    and "readerIndex (cOutput k) = kCheapPrepend" and "writerIndex (cOutput k) + length msg \<le> max_size"
  obtains k' w' where "send tid msg c w = Inr w'" "conn_attached tid c k' w'" "cState k' = kConnected"
    "isWriting (cChannel k')" "contents (cOutput k') = contents (cOutput k) @ msg" "wTrace w' = wTrace w"
    "readerIndex (cOutput k') = kCheapPrepend" "writerIndex (cOutput k') = writerIndex (cOutput k) + length msg"
    "cContext k' = cContext k" "cInput k' = cInput k" "cSock k' = cSock k"
    "cLoop k' = cLoop k" "wLoops w' = wLoops w" "wServer w' = wServer w" "alongside k w k' w'"
proof -
  note k = conn_attachedD [OF assms(1)]
  obtain b where b: "appendBuf msg (cOutput k) = Inr b" "readerIndex b = kCheapPrepend"
    "writerIndex b = writerIndex (cOutput k) + length msg"
    by (rule appendBuf_front [OF k(6) assms(3,4)])
  have room: "room (length msg) (cOutput k)"
    using assms(3,4) front_not_compacts [OF k(6)] by (simp add: room_def)
  obtain k' w' where w': "sendInLoop tid msg c w = Inr w'" "conn_attached tid c k' w'"
    "cState k' = kConnected" "cSock k' = cSock k" "isWriting (cChannel k')"
    "contents (cOutput k') = contents (cOutput k) @ msg" "wTrace w' = wTrace w"
    "appendBuf msg (cOutput k) = Inr (cOutput k')" "cContext k' = cContext k" "cInput k' = cInput k"
    "cLoop k' = cLoop k" "wLoops w' = wLoops w" "wServer w' = wServer w" "alongside k w k' w'"
    by (rule send_streams [OF assms(1,2) room])
  have "send tid msg c w = Inr w'" using k(1,3) w'(1) by (simp add: send_def world_simps)
  then show thesis using w' b by (intro that [of w' k']) simp_all
qed


section \<open>Specification: the answer to a request\<close>

text \<open>
  What the server is to answer for a path: status, length of the whole body (for a file, its size), the
  part of the body that is sent with the headers, and whether that is all. \<^verbatim>\<open>open\<close> and \<^verbatim>\<open>read\<close> must
  succeed. The code announces the length after a conversion to \<^verbatim>\<open>int\<close>, so it is right for less than 2 GiB.
\<close>

definition answerFor :: "file_env \<Rightarrow> string \<Rightarrow> (int \<times> int \<times> string \<times> bool) result" where
  "answerFor env path =
     (let failing = (\<lambda>s. Inr (s, int (length (snd (responseStatus s))), snd (responseStatus s), True))
      in case envStat env path of
           None \<Rightarrow> failing 404
         | Some mode \<Rightarrow>
             if \<not> bit mode 2 then failing 403
             else if take_bit 4 (drop_bit 12 mode) = 4 then failing 400
             else if envOpen env path \<le> 0 then Inl AssertFailed
             else case envRead env (envOpen env path) of
                    None \<Rightarrow> Inl AssertFailed
                  | Some bytes \<Rightarrow>
                      Inr (200, envSize env (envOpen env path), bytes,
                           bytes \<noteq> [] \<and> envSize env (envOpen env path) \<le> int (length bytes)))"

definition headerBlock :: "int \<Rightarrow> int \<Rightarrow> string" where
  "headerBlock status len =
     formatBuffer (''HTTP/1.1 '' @ showInt status @ '' '' @ fst (responseStatus status) @ kCRLF)
     @ formatBuffer (''Content-Length:'' @ showInt len @ kCRLF) @ formatBuffer kCRLF"

lemma headers_block:
  "respHeaders (addHeaders len (addStatusLine status resp)) = respHeaders resp @ headerBlock status len"
  "body (addHeaders len (addStatusLine status resp)) = body resp"
  "respComplete (addHeaders len (addStatusLine status resp)) = respComplete resp"
  by (simp_all add: headerBlock_def addHeaders_def addStatusLine_def addContentLength_def addBlankLine_def
      headersAppendFormat_def headersAppend_def)

lemma mode_tests:
  "mode AND S_IROTH = 0 \<longleftrightarrow> \<not> bit mode 2"
  "mode AND S_IFMT = S_IFDIR \<longleftrightarrow> take_bit 4 (drop_bit 12 mode) = (4 :: 32 word)"
proof -
  show "mode AND S_IROTH = 0 \<longleftrightarrow> \<not> bit mode 2"
    using and_exp_eq_0_iff_not_bit [of mode 2] by (simp add: S_IROTH_def)
  have m: "mode AND 0xF000 = push_bit 12 (take_bit 4 (drop_bit 12 mode))" (is "_ = push_bit 12 ?x")
  proof -
    have "(0xF000 :: 32 word) = push_bit 12 (mask 4)" by (simp add: mask_eq_exp_minus_1 push_bit_eq_mult)
    then show ?thesis by (auto simp: bit_eq_iff bit_simps)
  qed
  have d: "drop_bit 12 (push_bit 12 ?x) = ?x" by (auto simp: bit_eq_iff bit_simps)
  have p: "push_bit 12 4 = (0x4000 :: 32 word)" "drop_bit 12 0x4000 = (4 :: 32 word)"
    by (simp_all add: push_bit_eq_mult drop_bit_eq_div)
  show "mode AND S_IFMT = S_IFDIR \<longleftrightarrow> ?x = 4" unfolding S_IFMT_def S_IFDIR_def using m d p by metis
qed

lemma int_of_long_id: "0 \<le> i \<Longrightarrow> i < 2 ^ 31 \<Longrightarrow> int_of_long i = i"
  by (simp add: int_of_long_def)

lemma fail_lengths:
  "int_of_long (int (length (snd (responseStatus 404)))) = int (length (snd (responseStatus 404)))"
  "int_of_long (int (length (snd (responseStatus 403)))) = int (length (snd (responseStatus 403)))"
  "int_of_long (int (length (snd (responseStatus 400)))) = int (length (snd (responseStatus 400)))"
  by (rule int_of_long_id; simp add: responseStatus_def)+

lemma loadResponse_answer:
  "mapR (\<lambda>resp. (respHeaders resp, body resp, respComplete resp))
      (loadResponse env resourcePath (handleRequest env resourcePath req) req (newHttpResponse code))
   = mapR (\<lambda>(status, len, txt, full). (headerBlock status (int_of_long len), txt, full))
       (answerFor env (c_str (resourcePath @ URL req)))"
  by (auto simp: fail_lengths loadResponse_def handleRequest_def answerFor_def loadFile_def loadFailResponse_def headers_block
      addBody_def mode_tests newHttpResponse_def Let_def split: option.splits)



section \<open>Sending a file\<close>

text \<open>
  One turn of the loop for a connection whose socket takes everything: \<open>handleWrite\<close>, then the
  queued tasks.
\<close>

definition serveRound :: "file_env \<Rightarrow> string \<Rightarrow> int \<Rightarrow> nat \<Rightarrow> http_world \<Rightarrow> http_world result" where
  "serveRound env rp tid c w =
     withConn c w (\<lambda>k.
       bindR (conn_handleWrite tid (httpCallbacks env rp) (Wrote (readableBytes (cOutput k))) c w)
         (doPendingTasks tid (httpCallbacks env rp) (cLoop k)))"


fun sentBytes :: "int \<Rightarrow> effect list \<Rightarrow> nat" where
  "sentBytes fd [] = 0"
| "sentBytes fd (SysSendfile s f n # tr) = (if f = fd then n else 0) + sentBytes fd tr"
| "sentBytes fd (_ # tr) = sentBytes fd tr"

lemma sentBytes_append [simp]: "sentBytes fd (tr @ tr') = sentBytes fd tr + sentBytes fd tr'"
  by (induction fd tr rule: sentBytes.induct) simp_all

lemma written_append [simp]: "written fd (tr @ tr') = written fd tr @ written fd tr'"
  by (simp add: written_def)

lemma written_one [simp]: "written fd [SysWrite fd s] = s"
  by (simp add: written_def)

text \<open>A connection in the middle of a response; \<open>ctx\<close> is its context.\<close>

definition responding :: "int \<Rightarrow> nat \<Rightarrow> http_context \<Rightarrow> http_context conn \<Rightarrow> http_world \<Rightarrow> bool" where
  "responding tid c ctx k w \<longleftrightarrow> conn_attached tid c k w \<and> cState k = kConnected \<and> isWriting (cChannel k)
     \<and> cContext k = Some ctx \<and> pendingTasks (wLoops w (cLoop k)) = []
     \<and> c \<in> snd ` set (srvConns (wServer w))"

lemma write_all:
  assumes "conn_attached tid c k w" and "cState k = kConnected" and "isWriting (cChannel k)"
    and "writeCompleteCallback cbs \<noteq> None"
  obtains k' w' where
    "conn_handleWrite tid cbs (Wrote (readableBytes (cOutput k))) c w = Inr (queueTask (cLoop k) (TWriteComplete c) w')"
    "conn_attached tid c k' w'" "cState k' = kConnected" "cContext k' = cContext k" "cLoop k' = cLoop k"
    "cSock k' = cSock k" "cOutput k' = retrieveAll (cOutput k)"
    "written (cSock k) (wTrace w') = written (cSock k) (wTrace w) @ contents (cOutput k)"
    "\<forall>fd. sentBytes fd (wTrace w') = sentBytes fd (wTrace w)"
    "wLoops w' = wLoops w" "wServer w' = wServer w" "alongside k w k' w'"
proof -
  note k = conn_attachedD [OF assms(1)]
  let ?n = "readableBytes (cOutput k)" and ?b = "retrieveAll (cOutput k)"
  define w1 where "w1 = (if 0 < ?n then emit (SysWrite (chFd (cChannel k)) (readString (cOutput k) ?n)) w else w)"
  have len: "length (contents (cOutput k)) = ?n" using k(6) by (rule length_contents)
  have b: "retrieve ?n (cOutput k) = Inr ?b" "buf_ok ?b" "readableBytes ?b = 0"
    using retrieve_all [OF k(6)] buf_ok_retrieveAll [OF k(6)] by simp_all
  let ?k1 = "k\<lparr>cOutput := ?b\<rparr>" and ?x = "EnableWriting False"
  let ?w2 = "putConn c ?k1 w1"
  have "conn_attached tid c k w1" using assms(1) by (simp add: w1_def)
  then have at: "conn_attached tid c ?k1 ?w2" using b(2) k(7) by (intro conn_attached_put) simp_all
  let ?k3 = "?k1\<lparr>cChannel := chan_step ?x (cChannel ?k1)\<rparr>"
  obtain p where p: "changeInterest tid (chan_step ?x) c ?w2 = Inr (reregister c ?k3 p ?w2)"
    "conn_attached tid c ?k3 (reregister c ?k3 p ?w2)"
    by (rule chan_step_attached [OF at])
  have "conn_handleWrite tid cbs (Wrote ?n) c w = Inr (queueTask (cLoop k) (TWriteComplete c) (reregister c ?k3 p ?w2))"
    using k(1,3) assms(2-) b(1,3) p(1)
    by (auto simp: conn_handleWrite_def world_simps Let_def w1_def interest_steps)
  moreover have "written (cSock k) (wTrace w1) = written (cSock k) (wTrace w) @ contents (cOutput k)"
    using k(5) len readString_contents [OF k(6), of ?n] by (auto simp: w1_def written_emit)
  moreover have "sentBytes fd (wTrace w1) = sentBytes fd (wTrace w)" for fd by (simp add: w1_def)
  ultimately show thesis using p(2) assms(2) by (intro that [of "reregister c ?k3 p ?w2" ?k3]) (simp_all add: w1_def alongside_def)
qed

text \<open>The three outcomes of \<open>onWriteComplete\<close> on an attached connection that is not writing.\<close>

lemma finishResponse_attached:
  assumes "conn_attached tid c k w" and "cContext k = Some ctx"
  obtains k' w' where
    "finishResponse c w = Inr (if closeConnection (ctxResp ctx) then queueTask (cLoop k) (TClose c) w' else w')"
    "conn_attached tid c k' w'" "cState k' = cState k" "cLoop k' = cLoop k" "cSock k' = cSock k"
    "cContext k' = Some \<lparr>ctxReq = clearRequest (ctxReq ctx), ctxResp = snd (clearResponse (ctxResp ctx))\<rparr>"
    "wTrace w' = wTrace w @ map SysClose (fst (clearResponse (ctxResp ctx)))"
    "wLoops w' = wLoops w" "wServer w' = wServer w" "alongside k w k' w'"
proof -
  let ?fds = "fst (clearResponse (ctxResp ctx))"
  let ?ctx = "\<lparr>ctxReq = clearRequest (ctxReq ctx), ctxResp = snd (clearResponse (ctxResp ctx))\<rparr>"
  have frame: "conn_attached tid c k (fold (\<lambda>fd. emit (SysClose fd)) fds w)"
    "wTrace (fold (\<lambda>fd. emit (SysClose fd)) fds w) = wTrace w @ map SysClose fds"
    "wLoops (fold (\<lambda>fd. emit (SysClose fd)) fds w) = wLoops w"
    "wServer (fold (\<lambda>fd. emit (SysClose fd)) fds w) = wServer w"
    "alongside k w k (fold (\<lambda>fd. emit (SysClose fd)) fds w)" for fds
    using assms(1) by (induction fds arbitrary: w) (simp_all add: alongside_def)
  note put = putContext_attached [OF frame(1) [of ?fds], of ?ctx]
  let ?w' = "putConn c (k\<lparr>cContext := Some ?ctx\<rparr>) (fold (\<lambda>fd. emit (SysClose fd)) ?fds w)"
  have "finishResponse c w = Inr (if closeConnection (ctxResp ctx) then queueTask (cLoop k) (TClose c) ?w' else ?w')"
    using conn_attachedD(1) [OF assms(1)] assms(2) put(1)
    by (simp add: finishResponse_def withConn_Some getContext_def close_def Let_def case_prod_unfold)
  then show thesis using put(2) frame
    by (intro that [of ?w' "k\<lparr>cContext := Some ?ctx\<rparr>"]) (simp_all add: alongside_def)
qed

lemma onWriteComplete_attached:
  assumes "conn_attached tid c k w" and "cContext k = Some ctx"
  shows "onWriteComplete env tid c w =
    (if respComplete (ctxResp ctx) then finishResponse c w
     else if checkstate (ctxReq ctx) = GET_ALL
     then if filefd (ctxResp ctx) \<le> 0 then Inl AssertFailed
       else let ret = envSendfile env (wTrace w) (filefd (ctxResp ctx))
         in if 0 < ret then send tid [] c (emit (SysSendfile (cSock k) (filefd (ctxResp ctx)) (nat ret)) w)
            else finishResponse c w
     else Inr w)"
proof -
  note k = conn_attachedD [OF assms(1)]
  have "k\<lparr>cContext := Some ctx\<rparr> = k" using assms(2) by simp
  moreover have "putConn c k w = w" using k(1) by (simp add: putConn_def fun_upd_idem)
  ultimately have "putConn c (k\<lparr>cContext := Some ctx\<rparr>) w = w" by metis
  then show ?thesis using k(1,3,5) assms(2)
    by (auto simp: onWriteComplete_def withConn_Some getContext_def sendfile_def assertIn_yes Let_def)
qed

lemma closes_only [simp]: "written fd (map SysClose fds) = []" "sentBytes fd (map SysClose fds) = 0"
  by (induction fds) (simp_all add: written_def)


lemma reap_attached:
  assumes "conn_attached tid c k w" and "c \<in> snd ` set (srvConns (wServer w))"
  shows "conn_attached tid c k (reap (w\<lparr>wBatch := f\<rparr>))"
proof -
  have "c \<in> set (kept (w\<lparr>wBatch := f\<rparr>))" using assms(2) by (simp add: kept_def)
  then show ?thesis using assms(1) by (simp add: conn_attached_def reap_conns)
qed

lemma bindR_runR_Nil [simp]: "bindR m (runR f []) = m"
  by (cases m) simp_all

text \<open>A turn writes the output buffer and then runs \<open>onWriteComplete\<close>.\<close>

lemma round_writes:
  assumes "responding tid c ctx k w"
  obtains k1 w1 where
    "serveRound env rp tid c w = bindR (onWriteComplete env tid c w1)
        (\<lambda>w2. Inr (reap (w2\<lparr>wBatch := (wBatch w2)(cLoop k := [])\<rparr>)))"
    "conn_attached tid c k1 w1" "cState k1 = kConnected" "cContext k1 = Some ctx" "cLoop k1 = cLoop k"
    "cSock k1 = cSock k" "cOutput k1 = retrieveAll (cOutput k)"
    "written (cSock k) (wTrace w1) = written (cSock k) (wTrace w) @ contents (cOutput k)"
    "\<forall>fd. sentBytes fd (wTrace w1) = sentBytes fd (wTrace w)"
    "pendingTasks (wLoops w1 (cLoop k)) = []" "wServer w1 = wServer w" "alongside k w k1 w1"
proof -
  let ?cbs = "httpCallbacks env rp" and ?l = "cLoop k"
  have r: "conn_attached tid c k w" "cState k = kConnected" "isWriting (cChannel k)" "cContext k = Some ctx"
    "pendingTasks (wLoops w ?l) = []" using assms by (simp_all add: responding_def)
  have cb: "writeCompleteCallback ?cbs \<noteq> None" by (simp add: httpCallbacks_def)
  obtain k1 w0 where w0:
    "conn_handleWrite tid ?cbs (Wrote (readableBytes (cOutput k))) c w = Inr (queueTask ?l (TWriteComplete c) w0)"
    "conn_attached tid c k1 w0" "cState k1 = kConnected" "cContext k1 = cContext k" "cLoop k1 = ?l"
    "cSock k1 = cSock k" "cOutput k1 = retrieveAll (cOutput k)"
    "written (cSock k) (wTrace w0) = written (cSock k) (wTrace w) @ contents (cOutput k)"
    "\<forall>fd. sentBytes fd (wTrace w0) = sentBytes fd (wTrace w)"
    "wLoops w0 = wLoops w" "wServer w0 = wServer w" "alongside k w k1 w0"
    by (rule write_all [OF r(1-3) cb])
  define q where "q = queueTask ?l (TWriteComplete c) w0"
  define w1 where "w1 = (putLoop ?l ((wLoops q ?l)\<lparr>pendingTasks := []\<rparr>) q)\<lparr>wBatch := (wBatch q)(?l := [TWriteComplete c])\<rparr>"
  have "conn_attached tid c k1 q" using w0(2) by (simp add: q_def)
  then have at: "conn_attached tid c k1 w1"
    by (auto simp: conn_attached_def w1_def isInLoopThread_def split: if_splits)
  have "pendingTasks (wLoops q ?l) = [TWriteComplete c]" using r(5) w0(10) by (simp add: q_def)
  then have "doPendingTasks tid ?cbs ?l q = bindR (onWriteComplete env tid c w1)
      (\<lambda>w2. Inr (reap (w2\<lparr>wBatch := (wBatch w2)(?l := [])\<rparr>)))"
    by (simp add: doPendingTasks_def takeTasks_def runTasks_def w1_def httpCallbacks_def)
  then have "serveRound env rp tid c w = bindR (onWriteComplete env tid c w1)
      (\<lambda>w2. Inr (reap (w2\<lparr>wBatch := (wBatch w2)(?l := [])\<rparr>)))"
    using w0(1) conn_attachedD(1) [OF r(1)] by (simp add: serveRound_def withConn_Some q_def)
  then show thesis using w0 r(4) at
    by (intro that [of w1 k1]) (simp_all add: w1_def q_def alongside_def)
qed


text \<open>The context while the rest of a file is being sent.\<close>

definition sendingFile :: "int \<Rightarrow> http_context \<Rightarrow> bool" where
  "sendingFile fd ctx \<longleftrightarrow> checkstate (ctxReq ctx) = GET_ALL \<and> \<not> respComplete (ctxResp ctx)
     \<and> filefd (ctxResp ctx) = fd \<and> 0 < fd"

text \<open>The state after the last turn: everything is cleared and the closing of the connection is queued.\<close>

definition responded :: "int \<Rightarrow> nat \<Rightarrow> http_context \<Rightarrow> http_context conn \<Rightarrow> http_world \<Rightarrow> bool" where
  "responded tid c ctx k w \<longleftrightarrow> conn_attached tid c k w \<and> cState k = kConnected
     \<and> cContext k = Some \<lparr>ctxReq = clearRequest (ctxReq ctx), ctxResp = snd (clearResponse (ctxResp ctx))\<rparr>
     \<and> pendingTasks (wLoops w (cLoop k)) = (if closeConnection (ctxResp ctx) then [TClose c] else [])
     \<and> set (map SysClose (fst (clearResponse (ctxResp ctx)))) \<subseteq> set (wTrace w)"


lemma round_finishes:
  assumes "responding tid c ctx k w"
    and "respComplete (ctxResp ctx) \<or> sendingFile fd ctx
      \<and> (\<forall>tr. sentBytes fd tr = sentBytes fd (wTrace w) \<longrightarrow> envSendfile env tr fd \<le> 0)"
  obtains k' w' where "serveRound env rp tid c w = Inr w'" "responded tid c ctx k' w'" "cSock k' = cSock k"
    "written (cSock k) (wTrace w') = written (cSock k) (wTrace w) @ contents (cOutput k)"
    "\<forall>fd. sentBytes fd (wTrace w') = sentBytes fd (wTrace w)"
    "cLoop k' = cLoop k" "wServer w' = wServer w" "alongside k w k' w'"
proof -
  obtain k1 w1 where w1: "serveRound env rp tid c w = bindR (onWriteComplete env tid c w1)
        (\<lambda>w2. Inr (reap (w2\<lparr>wBatch := (wBatch w2)(cLoop k := [])\<rparr>)))"
    "conn_attached tid c k1 w1" "cState k1 = kConnected" "cContext k1 = Some ctx" "cLoop k1 = cLoop k"
    "cSock k1 = cSock k" "cOutput k1 = retrieveAll (cOutput k)"
    "written (cSock k) (wTrace w1) = written (cSock k) (wTrace w) @ contents (cOutput k)"
    "\<forall>fd. sentBytes fd (wTrace w1) = sentBytes fd (wTrace w)"
    "pendingTasks (wLoops w1 (cLoop k)) = []" "wServer w1 = wServer w" "alongside k w k1 w1" by (rule round_writes [OF assms(1)])
  have wc: "onWriteComplete env tid c w1 = finishResponse c w1"
    using onWriteComplete_attached [OF w1(2,4), of env] assms(2) w1(9) by (auto simp: sendingFile_def Let_def not_less)
  obtain k' w2 where w2:
    "finishResponse c w1 = Inr (if closeConnection (ctxResp ctx) then queueTask (cLoop k1) (TClose c) w2 else w2)"
    "conn_attached tid c k' w2" "cState k' = cState k1" "cLoop k' = cLoop k1" "cSock k' = cSock k1"
    "cContext k' = Some \<lparr>ctxReq = clearRequest (ctxReq ctx), ctxResp = snd (clearResponse (ctxResp ctx))\<rparr>"
    "wTrace w2 = wTrace w1 @ map SysClose (fst (clearResponse (ctxResp ctx)))"
    "wLoops w2 = wLoops w1" "wServer w2 = wServer w1" "alongside k1 w1 k' w2"
    by (rule finishResponse_attached [OF w1(2,4)])
  define w3 where "w3 = (if closeConnection (ctxResp ctx) then queueTask (cLoop k1) (TClose c) w2 else w2)"
  let ?w4 = "reap (w3\<lparr>wBatch := (wBatch w3)(cLoop k := [])\<rparr>)"
  have at: "conn_attached tid c k' w3" using w2(2) by (simp add: w3_def)
  have c: "c \<in> snd ` set (srvConns (wServer w3))" using assms(1) w1(11) w2(9) by (simp add: responding_def w3_def)
  obtain fds where tr: "wTrace ?w4 = wTrace w3 @ map SysClose fds"
    using reap_trace [of "w3\<lparr>wBatch := (wBatch w3)(cLoop k := [])\<rparr>"] by auto
  have tr3: "wTrace w3 = wTrace w1 @ map SysClose (fst (clearResponse (ctxResp ctx)))" using w2(7) by (simp add: w3_def)
  have "responded tid c ctx k' ?w4"
    using reap_attached [OF at c] w2 w1(3,5,10) by (auto simp: responded_def tr tr3, simp_all add: w3_def)
  moreover have "serveRound env rp tid c w = Inr ?w4" using w1(1) wc w2(1) by (simp add: w3_def)
  moreover have "alongside k w k' ?w4" using w1(5,12) w2(10) by (simp add: alongside_def w3_def)
  moreover have "wServer ?w4 = wServer w" using w1(11) w2(9) by (simp add: w3_def)
  ultimately show thesis using w2(4,5) w1(5,6,8,9) by (intro that [of ?w4 k']) (simp_all add: tr tr3)
qed






section \<open>Properties\<close>


text \<open>A file of 2 GiB or more, up to 4 GiB: the length that the headers announce is negative.\<close>

lemma large_file_length:
  assumes "answerFor env (c_str (rp @ URL req)) = Inr (200, len, txt, full)" and "2 ^ 31 \<le> len" and "len < 2 ^ 32"
    and "loadResponse env rp (handleRequest env rp req) req (newHttpResponse code) = Inr resp"
  shows "respHeaders resp = headerBlock 200 (len - 2 ^ 32)" "len - 2 ^ 32 < 0"
proof -
  have "(len + 2 ^ 31) mod 2 ^ 32 = len + 2 ^ 31 - 2 ^ 32"
    using assms(2,3) by (intro int_mod_pos_eq [where q = 1, symmetric, THEN sym]) simp_all
  then have "int_of_long len = len - 2 ^ 32" by (simp add: int_of_long_def)
  then show "respHeaders resp = headerBlock 200 (len - 2 ^ 32)"
    using loadResponse_answer [of env rp req code] assms(1,4) by simp
  show "len - 2 ^ 32 < 0" using assms(3) by simp
qed

text \<open>
  A world for the examples: a request for \<^verbatim>\<open>/a\<close> has been received on the only connection of a
  server, whose files are given by \<open>env\<close>.
\<close>

definition smallRequest :: string where
  "smallRequest = printRequest ''GET'' ''/a'' [] ''HTTP/1.1'' [] []"


lemma idle_world:
  obtains k w where "conn_attached 1 1 k w" "cState k = kConnected" "cContext k = None" "cOutput k = newBuffer"
    "cInput k = newBuffer" "cSock k = 5" "cLoop k = 0" "wTrace w = []" "pendingTasks (wLoops w 0) = []"
    "sole_owner 1 k (w :: http_world)"
proof -
  have q: "quiet_user (httpCallbacks env [])" for env by (rule http.quiet_user_axioms)
  obtain w :: http_world and k where w: "conn_attached 1 1 k w" "cState k = kConnected" "cSock k = 5"
    "cOutput k = newBuffer" "wTrace w = []" "wServer w = wServer (acceptedWorld :: http_world)" "cName k = ''srv#1''"
    "cLoop k = 0" "wLoops w = wLoops (acceptedWorld :: http_world)" "wHeld w = []" "wBatch w = (\<lambda>_. [])"
    "wNextAddr w = 2" "wLoopCount w = 1" "cContext k = None" "cInput k = newBuffer"
    by (rule accepted_established [OF q])
  then have "sole_owner 1 k w" by (simp add: sole_owner_def acceptedWorld_def freshServer_def)
  with w show thesis by (intro that [of k w]) (simp_all add: acceptedWorld_def)
qed

lemma requested_world:
  obtains k w where "conn_attached 1 1 k w" "cState k = kConnected" "cContext k = None" "cOutput k = newBuffer"
    "contents (cInput k) = smallRequest @ []" "cSock k = 5" "cLoop k = 0" "wTrace w = []"
    "pendingTasks (wLoops w 0) = []" "1 \<in> snd ` set (srvConns (wServer (w :: http_world)))"
proof -
  obtain k and w :: http_world where w: "conn_attached 1 1 k w" "cState k = kConnected" "cContext k = None"
    "cOutput k = newBuffer" "cInput k = newBuffer" "cSock k = 5" "cLoop k = 0" "wTrace w = []"
    "pendingTasks (wLoops w 0) = []" "sole_owner 1 k w" by (rule idle_world)
  obtain b where b: "buf_ok b" "contents b = smallRequest"
    by (rule buffer_holding [of smallRequest]) (simp_all add: smallRequest_def printRequest_def kCRLF_def)
  let ?k = "k\<lparr>cInput := b\<rparr>"
  have "conn_attached 1 1 ?k (putConn 1 ?k w)"
    using w(1) b(1) conn_attachedD(6) [OF w(1)] by (intro conn_attached_put) simp_all
  moreover have "1 \<in> snd ` set (srvConns (wServer w))" by (rule sole_owner_served [OF w(10)])
  ultimately show thesis using w b(2) by (intro that [of ?k "putConn 1 ?k w"]) simp_all
qed



text \<open>A file of 5000 bytes with mode 0644 at every path.\<close>

definition bigFile :: file_env where
  "bigFile = \<lparr>envStat = (\<lambda>p. Some 0x81A4), envOpen = (\<lambda>p. 9), envSize = (\<lambda>fd. 5000),
     envRead = (\<lambda>fd. Some (replicate 4096 CHR ''x'')),
     envSendfile = (\<lambda>tr fd. int (min 4096 (904 - sentBytes fd tr)))\<rparr>"



text \<open>
  C38: a failing \<^verbatim>\<open>sendfile(2)\<close> counts as the end of the file. The socket is non-blocking, so the
  call may fail with \<^verbatim>\<open>EAGAIN\<close> in the middle of a file; whenever it returns a negative number the
  turn clears the response, closes the file and queues the closing of the connection, although
  no further byte was sent.
\<close>

theorem sendfile_failure_truncates:
  assumes "responding tid c ctx k w" and "sendingFile fd ctx" and "\<forall>tr. envSendfile env tr fd < 0"
  shows "\<exists>w' k'. serveRound env rp tid c w = Inr w' \<and> wConns w' c = Some k'
    \<and> sentBytes fd (wTrace w') = sentBytes fd (wTrace w) \<and> SysClose fd \<in> set (wTrace w')
    \<and> checkstate (ctxReq (getContext k')) = EXPECT_REQUESTLINE
    \<and> (closeConnection (ctxResp ctx) \<longrightarrow> TClose c \<in> set (pendingTasks (wLoops w' (cLoop k'))))"
proof -
  have fin: "respComplete (ctxResp ctx) \<or> sendingFile fd ctx
      \<and> (\<forall>tr. sentBytes fd tr = sentBytes fd (wTrace w) \<longrightarrow> envSendfile env tr fd \<le> 0)"
    using assms(2,3) by (simp add: less_imp_le)
  obtain k' w' where w': "serveRound env rp tid c w = Inr w'" "responded tid c ctx k' w'" "cSock k' = cSock k"
    "written (cSock k) (wTrace w') = written (cSock k) (wTrace w) @ contents (cOutput k)"
    "\<forall>fd. sentBytes fd (wTrace w') = sentBytes fd (wTrace w)"
    "cLoop k' = cLoop k" "wServer w' = wServer w" "alongside k w k' w'"
    by (rule round_finishes [OF assms(1) fin])
  have "SysClose fd \<in> set (wTrace w')"
    using w'(2) assms(2) by (auto simp: responded_def sendingFile_def clearResponse_def Let_def)
  moreover have "wConns w' c = Some k'" "checkstate (ctxReq (getContext k')) = EXPECT_REQUESTLINE"
    "closeConnection (ctxResp ctx) \<longrightarrow> TClose c \<in> set (pendingTasks (wLoops w' (cLoop k')))"
    using w'(2) conn_attachedD(1) by (auto simp: responded_def getContext_def clearRequest_def)
  ultimately show ?thesis using w'(1,5) by (intro exI [of _ w'] exI [of _ k']) simp
qed

theorem sendfile_failure_truncates_witness:
  "\<exists>w w' k'. serveRound (bigFile\<lparr>envSendfile := \<lambda>tr fd. -1\<rparr>) ''/srv'' 1 1 w = Inr w' \<and> wConns w' 1 = Some k'
     \<and> sentBytes 9 (wTrace w') = 0 \<and> TClose 1 \<in> set (pendingTasks (wLoops w' (cLoop k')))"
proof -
  obtain k and w :: http_world where w: "conn_attached 1 1 k w" "cState k = kConnected" "cContext k = None"
    "cOutput k = newBuffer" "contents (cInput k) = printRequest ''GET'' ''/a'' [] ''HTTP/1.1'' [] [] @ []"
    "cSock k = 5" "cLoop k = 0" "wTrace w = []" "pendingTasks (wLoops w 0) = []" "1 \<in> snd ` set (srvConns (wServer w))"
    by (rule requested_world [unfolded smallRequest_def])
  let ?ctx = "\<lparr>ctxReq = parsedRequest ''GET'' ''/a'' [] ''HTTP/1.1'' [] [],
      ctxResp = (newHttpResponse 0)\<lparr>filefd := 9\<rparr>\<rparr>"
  let ?k1 = "k\<lparr>cContext := Some ?ctx\<rparr>"
  note at = putContext_attached(2) [OF w(1), of ?ctx]
  obtain k2 and w2 :: http_world where "conn_attached 1 1 k2 w2" "cState k2 = kConnected" "isWriting (cChannel k2)"
    "wTrace w2 = []" "cContext k2 = Some ?ctx" "cLoop k2 = 0" "wLoops w2 = wLoops w" "wServer w2 = wServer w"
    by (rule send_front [OF at, of "[]"])
      (use w in \<open>simp_all add: kCheapPrepend_def max_size_def\<close>)
  with w(9,10) have "responding 1 1 ?ctx k2 w2" by (simp add: responding_def)
  moreover have "sendingFile 9 ?ctx" by (simp add: sendingFile_def parsedRequest_def newHttpResponse_def)
  ultimately show ?thesis
    using sendfile_failure_truncates [of 1 1 ?ctx k2 w2 9 "bigFile\<lparr>envSendfile := \<lambda>tr fd. -1\<rparr>" "''/srv''"]
      \<open>wTrace w2 = []\<close> by (fastforce simp: newHttpResponse_def)
qed

end
