(* ===== verification/Echo_Server.thy ===== *)
theory Echo_Server
  imports Tcp_Connection
begin

text \<open>
  The echo server of \<^verbatim>\<open>examples/echosvr.cpp\<close> (also the example of the README): its callbacks on
  top of the modelled \<^verbatim>\<open>TcpServer\<close>, and the choice of the port from the command line. It shows
  what a user of the library gets: reading, the message callback, sending and writing compose.
\<close>

section \<open>Model\<close>

text \<open>\<^verbatim>\<open>onState\<close> only logs.\<close>

definition echo_onState :: "int \<Rightarrow> nat \<Rightarrow> unit world \<Rightarrow> unit world result" where
  "echo_onState tid c w = Inr w"

definition echo_onMsg :: "int \<Rightarrow> nat \<Rightarrow> int \<Rightarrow> unit world \<Rightarrow> unit world result" where
  "echo_onMsg tid c recvTime w =
     withConn c w (\<lambda>k. let (s, b) = retrieveAsString (cInput k)
                        in send tid s c (putConn c (k\<lparr>cInput := b\<rparr>) w))"

definition echoCbs :: "unit callbacks" where
  "echoCbs = \<lparr>connectionCallback = echo_onState, msgCallback = echo_onMsg, writeCompleteCallback = None\<rparr>"

text \<open>
  \<^verbatim>\<open>atoi\<close> for values in the range of \<^verbatim>\<open>int\<close> (outside it is undefined), and the port of \<^verbatim>\<open>main\<close>;
  \<open>args\<close> is \<^verbatim>\<open>argv\<close>.
\<close>

definition atoi :: "string \<Rightarrow> int" where
  "atoi s =
     (let t = dropWhile isspace s;
          u = (if t \<noteq> [] \<and> (hd t = CHR ''-'' \<or> hd t = CHR ''+'') then tl t else t);
          v = int (decimal (takeWhile isdigit u))
      in if t \<noteq> [] \<and> hd t = CHR ''-'' then - v else v)"

definition echo_main_addr :: "string list \<Rightarrow> sockaddr_in result" where
  "echo_main_addr args =
     (if 2 < length args then Inl Aborted
      else let port = (if length args = 2 then atoi (args ! 1) else 9981)
           in Inr (listenAddr (word_of_int port)))"

section \<open>Events on a connection\<close>

text \<open>Received bytes, a failed read, a write.\<close>

datatype echo_event = EchoRead string int | EchoReadError int int | EchoWrite write_result

fun echo_step :: "int \<Rightarrow> nat \<Rightarrow> echo_event \<Rightarrow> unit world \<Rightarrow> unit world result" where
  "echo_step tid c (EchoRead s t) w = conn_handleRead tid echoCbs (ReadvBytes s) t c w"
| "echo_step tid c (EchoReadError e t) w = conn_handleRead tid echoCbs (ReadvError e) t c w"
| "echo_step tid c (EchoWrite res) w = conn_handleWrite tid echoCbs res c w"

fun echo_fits :: "echo_event \<Rightarrow> unit conn \<Rightarrow> bool" where
  "echo_fits (EchoRead s t) k = (s \<noteq> [] \<and> read_room (length s) (cInput k) \<and> room (length s) (cOutput k))"
| "echo_fits (EchoReadError e t) k = True"
| "echo_fits (EchoWrite res) k = out_fits (OWrite res) k"

fun echo_run_fits :: "int \<Rightarrow> nat \<Rightarrow> echo_event list \<Rightarrow> unit world \<Rightarrow> bool" where
  "echo_run_fits tid c [] w = True"
| "echo_run_fits tid c (x # xs) w =
     ((case wConns w c of None \<Rightarrow> False | Some k \<Rightarrow> echo_fits x k)
      \<and> (case echo_step tid c x w of Inl _ \<Rightarrow> True | Inr w1 \<Rightarrow> echo_run_fits tid c xs w1))"

fun received :: "echo_event list \<Rightarrow> string" where
  "received [] = []"
| "received (EchoRead s t # xs) = s @ received xs"
| "received (_ # xs) = received xs"

definition echoing :: "int \<Rightarrow> nat \<Rightarrow> string \<Rightarrow> unit world \<Rightarrow> bool" where
  "echoing tid c got w \<longleftrightarrow>
     (\<exists>k. conn_attached tid c k w \<and> cState k = kConnected \<and> contents (cInput k) = []
        \<and> (contents (cOutput k) \<noteq> [] \<longrightarrow> isWriting (cChannel k))
        \<and> written (cSock k) (wTrace w) @ contents (cOutput k) = got)"

interpretation echo: quiet_user echoCbs
  by unfold_locales (simp add: echoCbs_def echo_onState_def)

lemma retrieveAsString_contents: "buf_ok b \<Longrightarrow> retrieveAsString b = (contents b, retrieveAll b)"
  using readString_contents [of b "readableBytes b"] length_contents [of b] by (simp add: retrieveAsString_def)

lemma echo_read:
  assumes "conn_attached tid c k w" and "cState k = kConnected" and "contents (cInput k) = []"
    and "echo_fits (EchoRead s t) k"
  obtains k' w' where "echo_step tid c (EchoRead s t) w = Inr w'" "conn_attached tid c k' w'"
    "cState k' = kConnected" "contents (cInput k') = []" "isWriting (cChannel k')"
    "contents (cOutput k') = contents (cOutput k) @ s" "wTrace w' = wTrace w" "cSock k' = cSock k"
proof -
  note k = conn_attachedD [OF assms(1)]
  obtain b where b: "readFd (ReadvBytes s) (cInput k) = Inr (int (length s), None, b)" "buf_ok b" "contents b = s"
    using readFd_ok [OF k(7), of s] assms(3,4) by auto
  let ?k1 = "k\<lparr>cInput := b\<rparr>" and ?k2 = "k\<lparr>cInput := retrieveAll b\<rparr>"
  let ?w1 = "putConn c ?k1 w"
  let ?w2 = "putConn c ?k2 ?w1"
  have at1: "conn_attached tid c ?k1 ?w1" using b(2) k(6) by (intro conn_attached_put [OF assms(1)]) simp_all
  have at2: "conn_attached tid c ?k2 ?w2"
    using buf_ok_retrieveAll [OF b(2)] k(6) by (intro conn_attached_put [OF at1]) simp_all
  have st: "cState ?k2 = kConnected" and room: "room (length s) (cOutput ?k2)" using assms(2,4) by simp_all
  obtain k' w' where s: "sendInLoop tid s c ?w2 = Inr w'" "conn_attached tid c k' w'"
    "cState k' = kConnected" "cSock k' = cSock ?k2" "isWriting (cChannel k')"
    "contents (cOutput k') = contents (cOutput ?k2) @ s" "wTrace w' = wTrace ?w2"
    "appendBuf s (cOutput ?k2) = Inr (cOutput k')" "cContext k' = cContext ?k2" "cInput k' = cInput ?k2"
    "cLoop k' = cLoop ?k2" "wLoops w' = wLoops ?w2" "wServer w' = wServer ?w2" "alongside ?k2 ?w2 k' w'"
    by (rule send_streams [OF at2 st room])
  have "echo_step tid c (EchoRead s t) w = sendInLoop tid s c ?w2"
    using k(1,3) b assms(4) retrieveAsString_contents [OF b(2)]
    by (simp add: conn_handleRead_def echoCbs_def echo_onMsg_def withConn_Some send_def runInLoop_yes Let_def)
  then show thesis using s by (intro that [of w' k']) simp_all
qed

lemma echo_step_ok:
  assumes "echoing tid c got w" and "case wConns w c of None \<Rightarrow> False | Some k \<Rightarrow> echo_fits x k"
  shows "\<exists>w'. echo_step tid c x w = Inr w' \<and> echoing tid c (got @ received [x]) w'"
proof -
  from assms(1) obtain k where k: "conn_attached tid c k w" "cState k = kConnected" "contents (cInput k) = []"
    "contents (cOutput k) \<noteq> [] \<longrightarrow> isWriting (cChannel k)" "written (cSock k) (wTrace w) @ contents (cOutput k) = got"
    by (auto simp: echoing_def)
  have fits: "echo_fits x k" using assms(2) conn_attachedD(1) [OF k(1)] by simp
  show ?thesis
  proof (cases x)
    case (EchoRead s t)
    with fits have "echo_fits (EchoRead s t) k" by simp
    then obtain k' w' where "echo_step tid c (EchoRead s t) w = Inr w'" "conn_attached tid c k' w'"
      "cState k' = kConnected" "contents (cInput k') = []" "isWriting (cChannel k')"
      "contents (cOutput k') = contents (cOutput k) @ s" "wTrace w' = wTrace w" "cSock k' = cSock k"
      by (rule echo_read [OF k(1-3)])
    with EchoRead k(5) show ?thesis by (intro exI [of _ w']) (auto simp: echoing_def)
  next
    case (EchoReadError e t)
    have "putConn c (k\<lparr>cInput := cInput k\<rparr>) w = w"
      using conn_attachedD(1) [OF k(1)] by (simp add: putConn_def fun_upd_idem)
    then have "echo_step tid c x w = Inr w"
      using EchoReadError conn_attachedD(1) [OF k(1)] by (simp add: conn_handleRead_def withConn_Some readFd_def)
    with EchoReadError assms(1) show ?thesis by simp
  next
    case (EchoWrite res)
    with fits have "out_fits (OWrite res) k" by simp
    from write_streams [OF k(1) this k(4), of echoCbs] obtain k' w' where
      "conn_handleWrite tid echoCbs res c w = Inr w'" "conn_attached tid c k' w'" "cState k' = cState k"
      "cSock k' = cSock k" "cInput k' = cInput k" "contents (cOutput k') \<noteq> [] \<longrightarrow> isWriting (cChannel k')"
      "written (cSock k) (wTrace w') @ contents (cOutput k') = written (cSock k) (wTrace w) @ contents (cOutput k)"
      by metis
    with EchoWrite k show ?thesis by (intro exI [of _ w']) (auto simp: echoing_def)
  qed
qed

lemma echo_run_ok:
  assumes "echoing tid c got w" and "echo_run_fits tid c xs w"
  shows "\<exists>w'. runR (echo_step tid c) xs w = Inr w' \<and> echoing tid c (got @ received xs) w'"
  using assms
proof (induction xs arbitrary: w got)
  case (Cons x xs)
  from Cons.prems(2) have fits: "case wConns w c of None \<Rightarrow> False | Some k \<Rightarrow> echo_fits x k" by simp
  from echo_step_ok [OF Cons.prems(1) fits] obtain w1 where
    w1: "echo_step tid c x w = Inr w1" "echoing tid c (got @ received [x]) w1" by blast
  moreover have "echo_run_fits tid c xs w1" using Cons.prems(2) w1(1) by simp
  moreover have "received [x] @ received xs = received (x # xs)" by (cases x) simp_all
  ultimately show ?case using Cons.IH [OF w1(2)] by simp
qed simp

section \<open>Properties\<close>

text \<open>
  C10: the echo server echoes, as long as its buffers are not compacted. On an established
  connection, for every order of reads, failed reads and partial or failing writes in which what is
  read finds room in the input and in the output buffer, behind the waiting bytes or by growing
  it (\<open>echo_run_fits\<close>; the code corrupts the waiting bytes when an append has to move them to the
  front, which can happen when more is read while output waits), every event is handled without fault, and the bytes
  written to the socket followed by those waiting in the output buffer are exactly the bytes received,
  in order; waiting bytes are watched for, so they will be written.
\<close>

theorem echo_server_echoes:
  assumes "echoing tid c got w" and "echo_run_fits tid c xs w"
  shows "\<exists>w' k'. runR (echo_step tid c) xs w = Inr w' \<and> wConns w' c = Some k'
    \<and> written (cSock k') (wTrace w') @ contents (cOutput k') = got @ received xs
    \<and> (contents (cOutput k') \<noteq> [] \<longrightarrow> isWriting (cChannel k')) \<and> contents (cInput k') = []"
proof -
  from echo_run_ok [OF assms] obtain w' where w': "runR (echo_step tid c) xs w = Inr w'"
    "echoing tid c (got @ received xs) w'" by blast
  then obtain k' where k': "conn_attached tid c k' w'" "contents (cInput k') = []"
    "contents (cOutput k') \<noteq> [] \<longrightarrow> isWriting (cChannel k')"
    "written (cSock k') (wTrace w') @ contents (cOutput k') = got @ received xs" by (auto simp: echoing_def)
  then show ?thesis using w'(1) conn_attachedD(1) [OF k'(1)] by (intro exI [of _ w'] exI [of _ k']) simp
qed

theorem echo_server_echoes_witness:
  "\<exists>w w' k'. runR (echo_step 1 1) [EchoReadError 11 0, EchoRead ''hello'' 0] w = Inr w' \<and> wConns w' 1 = Some k'
     \<and> written (cSock k') (wTrace w') @ contents (cOutput k') = ''hello''"
proof -
  obtain w :: "unit world" and k where w: "conn_attached 1 1 k w" "cState k = kConnected" "cOutput k = newBuffer"
    "wTrace w = []" "cInput k = newBuffer"
    by (rule accepted_established [OF echo.quiet_user_axioms]) blast
  have start: "echoing 1 1 [] w" using w by (auto simp: echoing_def written_def)
  have same: "putConn 1 k w = w" using conn_attachedD(1) [OF w(1)] by (simp add: putConn_def fun_upd_idem)
  have k: "k\<lparr>cInput := newBuffer\<rparr> = k" using w(5) by (metis conn.surjective conn.update_convs(4))
  have "room (length ''hello'') newBuffer" "read_room (length ''hello'') newBuffer"
    using newBuffer_room [of "length ''hello''"] newBuffer_ok
    by (simp_all add: kCheapPrepend_def max_size_def read_room_def)
  then have "echo_run_fits 1 1 [EchoReadError 11 0, EchoRead ''hello'' 0] w"
    using conn_attachedD(1) [OF w(1)] w(3,5) same k
    by (simp add: conn_handleRead_def withConn_Some readFd_def Let_def split: sum.splits)
  from echo_server_echoes [OF start this] show ?thesis by auto
qed

end
