(* ===== verification/Connection_Lifetime.thy ===== *)
theory Connection_Lifetime
  imports Http_Server Echo_Server
begin

text \<open>
  The life time of connections under all operations of the library. A connection is kept alive
  by the map of the server, by handles of the user, and by the tasks that capture a
  \<^verbatim>\<open>TcpConnectionPtr\<close>; other tasks capture a plain pointer. The invariant \<open>live_ok\<close> says that
  everything that is kept is alive. It is preserved by every operation, and no operation that
  starts from a live connection touches a destroyed one: the only possible sources of such an
  access are the plain pointers in the queues (\<open>rawRefs\<close>). The proofs follow the code by rules
  for the predicate \<open>safe\<close>, one per construct, collected in \<open>lifetime\<close>.
\<close>

named_theorems lifetime

section \<open>Operations that access no connection\<close>

text \<open>No use of a destroyed object, and no \<^verbatim>\<open>abort()\<close> for a call on the wrong thread.\<close>

definition orderly :: "'a result \<Rightarrow> bool" where
  "orderly m \<longleftrightarrow> m \<noteq> Inl UseAfterFree \<and> m \<noteq> Inl Aborted"

lemma orderly_simps [simp]: "orderly (Inr x)" "orderly (Inl e) = (e \<noteq> UseAfterFree \<and> e \<noteq> Aborted)"
  by (simp_all add: orderly_def)

lemma orderly_bind: "orderly m \<Longrightarrow> (\<And>x. m = Inr x \<Longrightarrow> orderly (f x)) \<Longrightarrow> orderly (bindR m f)"
  by (cases m) simp_all

lemma orderly_assert: "(b \<Longrightarrow> orderly m) \<Longrightarrow> orderly (assertR b m)"
  by (simp add: assertR_def)

lemma orderly_buffer: "orderly (retrieve n b)" "orderly (appendBuf s b)" "orderly (readFd res b)"
  "orderly (retrieveLine b)"
proof -
  have copy: "orderly (copy_into xs i ys)" for xs :: "'a list" and i ys by (simp add: copy_into_def)
  have space: "orderly (makeSpace n b)" for n b
    using copy by (auto simp: makeSpace_def resize_def intro!: orderly_bind orderly_assert)
  show app: "orderly (appendBuf s b)" for s b
    using copy space by (auto simp: appendBuf_def intro!: orderly_bind orderly_assert)
  show "orderly (retrieve n b)" by (simp add: retrieve_def Let_def assertR_def)
  show "orderly (readFd res b)"
    using app by (auto simp: readFd_def Let_def split: readv_result.splits intro!: orderly_bind)
  show "orderly (retrieveLine b)"
    by (auto simp: retrieveLine_def retrieveUntil_def retrieve_def Let_def assertR_def split: option.splits intro!: orderly_bind)
qed

lemma orderly_poller: "orderly (ep_step op p)"
  by (cases op) (auto simp: ep_addChannel_def ep_updateChannel_def ep_removeChannel_def Let_def assertR_def
      split: option.splits)

section \<open>The invariant and the rules\<close>

definition live_ok :: "'x world \<Rightarrow> bool" where
  "live_ok w \<longleftrightarrow> set (kept w) \<subseteq> dom (wConns w) \<and> dom (wConns w) \<subseteq> {..<wNextAddr w}"

text \<open>
  An operation is safe in a world when it keeps the invariant, destroys nothing before it returns,
  and does not end in an access to a destroyed connection.
\<close>

definition safe :: "'x world \<Rightarrow> 'x world result \<Rightarrow> bool" where
  "safe w r \<longleftrightarrow> (live_ok w \<longrightarrow>
     (case r of Inl e \<Rightarrow> e \<noteq> UseAfterFree | Inr w' \<Rightarrow> live_ok w' \<and> dom (wConns w) \<subseteq> dom (wConns w')))"

lemma safe_return [lifetime]: "safe w (Inr w)"
  by (simp add: safe_def)

lemma safe_fault [lifetime]: "e \<noteq> UseAfterFree \<Longrightarrow> safe w (Inl e)"
  by (simp add: safe_def)

lemma safe_bind:
  assumes "safe w m" and "\<And>w'. dom (wConns w) \<subseteq> dom (wConns w') \<Longrightarrow> safe w' (f w')"
  shows "safe w (bindR m f)"
proof (cases m)
  case (Inr w')
  show ?thesis
  proof (cases "live_ok w")
    case True
    then have "live_ok w'" "dom (wConns w) \<subseteq> dom (wConns w')" using assms(1) Inr by (auto simp: safe_def)
    with assms(2) [of w'] Inr show ?thesis by (auto simp: safe_def split: sum.splits)
  qed (simp add: safe_def)
qed (use assms(1) in \<open>simp add: safe_def\<close>)

text \<open>Passing through an intermediate world.\<close>

lemma safe_via: "safe w (Inr w1) \<Longrightarrow> (dom (wConns w) \<subseteq> dom (wConns w1) \<Longrightarrow> safe w1 r) \<Longrightarrow> safe w r"
  by (cases r) (simp_all add: safe_def, blast)

lemma safe_other: "orderly m \<Longrightarrow> (\<And>x. safe w (f x)) \<Longrightarrow> safe w (bindR m f)"
  by (cases m) (simp_all add: safe_def)

lemma safe_withConn [lifetime]:
  "c \<in> dom (wConns w) \<Longrightarrow> (\<And>k. wConns w c = Some k \<Longrightarrow> safe w (f k)) \<Longrightarrow> safe w (withConn c w f)"
  by (auto simp: withConn_def)

lemma safe_assertR [lifetime]: "(b \<Longrightarrow> safe w m) \<Longrightarrow> safe w (assertR b m)"
  by (simp add: assertR_def safe_def)

lemma safe_assertIn [lifetime]: "safe w m \<Longrightarrow> safe w (assertIn tid l w' m)"
  by (simp add: assertIn_def assertInLoopThread_def safe_def)

lemma safe_if [lifetime]: "(b \<Longrightarrow> safe w m) \<Longrightarrow> (\<not> b \<Longrightarrow> safe w m') \<Longrightarrow> safe w (if b then m else m')"
  by simp

subsection \<open>Changes of the world\<close>

lemma kept_frame [simp]:
  "kept (putConn c k w) = kept w" "kept (emit e w) = kept w" "kept (w\<lparr>wPollers := p\<rparr>) = kept w"
  "kept (w\<lparr>wNextAddr := n\<rparr>) = kept w"
  by (simp_all add: kept_def putConn_def emit_def)

lemma kept_queue: "set (kept (queueTask l t w)) \<subseteq> set (keeps t) \<union> set (kept w)"
  by (auto simp: kept_def split: if_splits)

lemma kept_server:
  "set (kept (putServer s w)) \<subseteq> snd ` set (srvConns s) \<union> set (kept w)"
  by (auto simp: kept_def putServer_def)

lemma kept_served: "snd ` set (srvConns (wServer w)) \<subseteq> set (kept w)"
  by (simp add: kept_def)

lemma safe_put [lifetime]: "c \<in> dom (wConns w) \<Longrightarrow> safe w (Inr (putConn c k w))"
  by (auto simp: safe_def live_ok_def)

lemma safe_emit [lifetime]: "safe w (Inr (emit e w))"
  by (simp add: safe_def live_ok_def emit_def) (simp add: kept_def)

lemma safe_pollers [lifetime]: "safe w (Inr (w\<lparr>wPollers := p\<rparr>))"
  by (simp add: safe_def live_ok_def)

lemma safe_queue [lifetime]: "set (keeps t) \<subseteq> dom (wConns w) \<Longrightarrow> safe w (Inr (queueTask l t w))"
  using kept_queue [of l t w] by (auto simp: safe_def live_ok_def)

lemma safe_server [lifetime]:
  assumes "snd ` set (srvConns s) \<subseteq> snd ` set (srvConns (wServer w))"
  shows "safe w (Inr (putServer s w))"
proof -
  have "snd ` set (srvConns s) \<union> set (kept w) \<subseteq> set (kept w)"
    by (rule Un_least [OF subset_trans [OF assms kept_served] order_refl])
  then have "set (kept (putServer s w)) \<subseteq> set (kept w)" by (rule subset_trans [OF kept_server])
  then show ?thesis unfolding safe_def live_ok_def by (simp add: subset_trans)
qed

lemma safe_kernel [lifetime]: "(\<And>n. orderly (f n)) \<Longrightarrow> safe w (kernelCall f e w)"
  by (auto simp: kernelCall_def intro!: safe_other safe_emit)

lemma safe_runInLoop [lifetime]:
  "set (keeps t) \<subseteq> dom (wConns w) \<Longrightarrow> safe w (cb w) \<Longrightarrow> safe w (runInLoop tid l t cb w)"
  by (simp add: runInLoop_def safe_queue)

lemma safe_pollerOp [lifetime]: "safe w (pollerOp tid l op w)"
  by (auto simp: pollerOp_def intro!: lifetime safe_other orderly_poller)

section \<open>The operations of a connection\<close>

lemma safe_connPollerOp [lifetime]: "c \<in> dom (wConns w) \<Longrightarrow> safe w (connPollerOp tid mk c w)"
  by (auto simp: connPollerOp_def intro!: lifetime)

lemma safe_loop_channel [lifetime]:
  assumes "c \<in> dom (wConns w)"
  shows "safe w (loopAddChannel tid c w)" "safe w (loopUpdateChannel tid c w)" "safe w (loopRemoveChannel tid c w)"
  using assms by (auto simp: loopAddChannel_def loopUpdateChannel_def loopRemoveChannel_def intro!: lifetime)

lemma safe_changeInterest:
  assumes "c \<in> dom (wConns w)"
  shows "safe w (changeInterest tid f c w)"
  unfolding changeInterest_def
  by (intro safe_withConn [OF assms] safe_via [OF safe_put [OF assms]]) (auto intro!: lifetime)

lemma safe_interest [lifetime]:
  assumes "c \<in> dom (wConns w)"
  shows "safe w (enableReading tid e c w)" "safe w (enableWriting tid e c w)" "safe w (disableAll tid c w)"
  using assms by (simp_all add: enableReading_def enableWriting_def disableAll_def safe_changeInterest)

lemma safe_setState [lifetime]: "c \<in> dom (wConns w) \<Longrightarrow> safe w (setState s c w)"
  by (auto simp: setState_def intro!: lifetime)

lemma orderly_sockets: "orderly (shutdownWrite n)" "orderly (listenSock n)" "orderly (closeSock n)"
  by (simp_all add: shutdownWrite_def listenSock_def closeSock_def assertR_def)

lemma safe_shutdown [lifetime]:
  assumes "c \<in> dom (wConns w)"
  shows "safe w (shutdownInLoop tid c w)" "safe w (shutdown tid c w)"
proof -
  show "safe w (shutdownInLoop tid c w)"
    using assms by (auto simp: shutdownInLoop_def intro!: lifetime safe_bind orderly_sockets)
  then show "safe w (shutdown tid c w)" using assms by (auto simp: shutdown_def intro!: lifetime)
qed

lemma safe_close [lifetime]:
  assumes "c \<in> dom (wConns w)"
  shows "safe w (close c w)" "safe w (queueClose c w)" "safe w (closeInNextLoop c w)"
  using assms by (auto simp: close_def queueClose_def closeInNextLoop_def intro!: lifetime)

lemma safe_send [lifetime]:
  assumes "c \<in> dom (wConns w)"
  shows "safe w (sendInLoop tid msg c w)" "safe w (send tid msg c w)"
proof -
  have "safe w (let w1 = putConn c k w in if b then enableWriting tid True c w1 else Inr w1)" for k b
    unfolding Let_def by (rule safe_via [OF safe_put [OF assms]]) (auto intro!: lifetime)
  then show "safe w (sendInLoop tid msg c w)"
    using assms unfolding sendInLoop_def by (intro lifetime safe_other orderly_buffer)
  then show "safe w (send tid msg c w)" using assms by (auto simp: send_def intro!: lifetime)
qed

lemma safe_remove [lifetime]:
  assumes "c \<in> dom (wConns w)"
  shows "safe w (removeConnectionInLoop tid c w)" "safe w (removeConnection tid c w)"
proof -
  have "safe w (Inr (queueTask l (TDestroyed c) (putServer (s\<lparr>srvConns := filter P (srvConns s)\<rparr>) w)))"
    if "s = wServer w" for l s and P :: "string \<times> nat \<Rightarrow> bool"
    by (rule safe_via [OF safe_server [of "s\<lparr>srvConns := filter P (srvConns s)\<rparr>"]]) (use assms that in \<open>auto intro!: lifetime\<close>)
  then show "safe w (removeConnectionInLoop tid c w)"
    using assms unfolding removeConnectionInLoop_def Let_def by (intro lifetime) auto
  then show "safe w (removeConnection tid c w)" using assms by (auto simp: removeConnection_def intro!: lifetime)
qed

text \<open>The end of \<^verbatim>\<open>handleWrite\<close>, when the output buffer is empty.\<close>

lemma safe_drained:
  assumes "c \<in> dom (wConns (w :: 'x world))"
  shows "safe w (bindR (enableWriting tid False c w) (\<lambda>w3.
      let w4 = (if b then queueTask l (TWriteComplete c) w3 else w3)
      in if b' then shutdownInLoop tid c w4 else Inr w4))"
proof (rule safe_bind [OF safe_interest(2) [OF assms]])
  fix w3 :: "'x world"
  assume "dom (wConns w) \<subseteq> dom (wConns w3)"
  with assms have c: "c \<in> dom (wConns w3)" by blast
  then have "safe w3 (Inr (if b then queueTask l (TWriteComplete c) w3 else w3))" by (auto intro!: lifetime)
  then show "safe w3 (let w4 = (if b then queueTask l (TWriteComplete c) w3 else w3)
      in if b' then shutdownInLoop tid c w4 else Inr w4)"
    unfolding Let_def by (rule safe_via) (use c in \<open>auto intro!: lifetime\<close>)
qed

lemma safe_write_result:
  "(\<And>n. safe w (f n)) \<Longrightarrow> safe w (case r of WriteError e \<Rightarrow> Inr w | Wrote n \<Rightarrow> f n)"
  by (cases r) (simp_all add: safe_return)

section \<open>The server\<close>

lemma safe_acceptorOp [lifetime]: "safe w (acceptorOp tid mk w)"
  by (auto simp: acceptorOp_def intro!: lifetime)

lemma safe_ownOp [lifetime]: "safe w (ownOp tid mk l x w)"
  by (auto simp: ownOp_def intro!: lifetime)

lemma safe_listen_channel:
  assumes "srvConns s = srvConns (wServer w)"
  shows "safe w (runInLoop tid l TAcceptorUpdate (acceptorOp tid UpdateChannel) (putServer s w))"
  by (rule safe_via [OF safe_server [of s]]) (use assms in \<open>simp_all add: safe_runInLoop safe_acceptorOp\<close>)

lemma safe_listen [lifetime]: "safe w (listen tid w)"
proof -
  let ?s = "(wServer w)\<lparr>srvListening := True\<rparr>"
  have "safe w (Inr (putServer ?s w))" by (rule safe_server) simp
  then show ?thesis unfolding listen_def Let_def
  proof (rule safe_via)
    show "safe (putServer ?s w) (bindR (kernelCall listenSock (SysListen (srvAcceptFd (wServer (putServer ?s w)))) (putServer ?s w)) (\<lambda>w1.
      bindR (runInLoop tid (srvLoop (wServer w)) TAcceptorAdd (acceptorOp tid AddChannel) w1) (\<lambda>w2.
      runInLoop tid (srvLoop (wServer w)) TAcceptorUpdate (acceptorOp tid UpdateChannel)
        (putServer ((wServer w2)\<lparr>srvAcceptChannel := readingEvents True (srvAcceptChannel (wServer w2))\<rparr>) w2))))"
      by (rule safe_bind [OF safe_kernel [OF orderly_sockets(2)]], rule safe_bind)
        (simp_all add: safe_runInLoop safe_acceptorOp safe_listen_channel)
  qed
qed

lemma safe_start [lifetime]: "safe w (start tid w)"
  unfolding start_def Let_def
  by (rule safe_via [OF safe_server [of "(wServer w)\<lparr>srvStarted := True\<rparr>"]]) (auto intro!: lifetime)

lemma update_values: "snd ` set (AList.update x v al) \<subseteq> insert v (snd ` set al)"
  by (induction al) auto

text \<open>The new object of \<^verbatim>\<open>newConnection\<close> is alive and owned by the map.\<close>

lemma safe_new:
  assumes "srvConns s = AList.update name (wNextAddr w) (srvConns (wServer w))"
  shows "safe w (Inr (putConn (wNextAddr w) k (putServer s (w\<lparr>wNextAddr := wNextAddr w + 1\<rparr>))))"
proof -
  let ?w = "putServer s (w\<lparr>wNextAddr := wNextAddr w + 1\<rparr>)"
  have "set (kept ?w) \<subseteq> snd ` set (srvConns s) \<union> set (kept w)"
    using kept_server [of s "w\<lparr>wNextAddr := wNextAddr w + 1\<rparr>"] by simp
  also have "\<dots> \<subseteq> insert (wNextAddr w) (set (kept w))"
    using update_values [of name "wNextAddr w" "srvConns (wServer w)"] kept_served [of w] assms by auto
  finally have "set (kept ?w) \<subseteq> insert (wNextAddr w) (set (kept w))" .
  then show ?thesis unfolding safe_def live_ok_def by (auto simp: less_Suc_eq)
qed

section \<open>References in tasks\<close>

text \<open>The connections a task refers to by a plain pointer.\<close>

fun rawRefs :: "task \<Rightarrow> nat list" where
  "rawRefs (TAddChannel c) = [c]"
| "rawRefs (TUpdateChannel c) = [c]"
| "rawRefs (TRemoveChannel c) = [c]"
| "rawRefs (TShutdown c) = [c]"
| "rawRefs (TClose c) = [c]"
| "rawRefs (TQueueClose c) = [c]"
| "rawRefs (TSend c msg) = [c]"
| "rawRefs _ = []"

text \<open>Destroying what nobody keeps does not touch the invariant.\<close>

definition settled :: "'x world result \<Rightarrow> bool" where
  "settled r \<longleftrightarrow> (case r of Inl e \<Rightarrow> e \<noteq> UseAfterFree | Inr w \<Rightarrow> live_ok w)"

lemma settled_simps [simp]: "settled (Inr w) = live_ok w" "settled (Inl e) = (e \<noteq> UseAfterFree)"
  by (simp_all add: settled_def)

lemma settled_bind: "live_ok w \<Longrightarrow> safe w m \<Longrightarrow> (\<And>w'. live_ok w' \<Longrightarrow> settled (f w')) \<Longrightarrow> settled (bindR m f)"
  by (cases m) (auto simp: safe_def)

lemma settled_safe: "live_ok w \<Longrightarrow> safe w m \<Longrightarrow> settled m"
  by (cases m) (auto simp: safe_def)

lemma live_ok_mono:
  "live_ok w \<Longrightarrow> set (kept w') \<subseteq> set (kept w) \<Longrightarrow> wConns w' = wConns w \<Longrightarrow> wNextAddr w' = wNextAddr w \<Longrightarrow> live_ok w'"
  by (auto simp: live_ok_def)

lemma live_ok_reap: "live_ok w \<Longrightarrow> live_ok (reap w)"
proof -
  have "kept (reap w) = kept w" by (simp add: kept_def)
  then show "live_ok w \<Longrightarrow> live_ok (reap w)" by (auto simp: live_ok_def dom_def reap_conns split: if_splits)
qed

lemma live_ok_kept: "live_ok w \<Longrightarrow> c \<in> set (kept w) \<Longrightarrow> c \<in> dom (wConns w)"
  by (auto simp: live_ok_def)

lemma pending_kept: "l < wLoopCount w \<Longrightarrow> t \<in> set (pendingTasks (wLoops w l)) \<Longrightarrow> set (keeps t) \<subseteq> set (kept w)"
  by (force simp: kept_def)

section \<open>The handlers, for callbacks that respect the life time\<close>

text \<open>
  What the library relies on: a callback keeps the invariant, destroys nothing and does not touch
  a destroyed connection.
\<close>

locale careful_user =
  fixes cbs :: "'x callbacks"
  assumes connection_safe: "c \<in> dom (wConns w) \<Longrightarrow> safe w (connectionCallback cbs tid c w)"
    and msg_safe: "c \<in> dom (wConns w) \<Longrightarrow> safe w (msgCallback cbs tid c t w)"
    and complete_safe: "writeCompleteCallback cbs = Some f \<Longrightarrow> c \<in> dom (wConns w) \<Longrightarrow> safe w (f tid c w)"
begin

lemma safe_established:
  "c \<in> dom (wConns w) \<Longrightarrow> safe w (connectEstablished tid cbs c w)"
  unfolding connectEstablished_def by (intro lifetime safe_bind connection_safe) blast+

lemma safe_destroyed:
  "c \<in> dom (wConns w) \<Longrightarrow> safe w (connectDestroyed tid cbs c w)"
  unfolding connectDestroyed_def by (intro lifetime safe_bind connection_safe) blast+

lemma safe_handleClose:
  "c \<in> dom (wConns w) \<Longrightarrow> safe w (handleClose tid cbs c w)"
  unfolding handleClose_def by (intro lifetime safe_bind connection_safe) blast+

lemma safe_closeInLoop:
  "c \<in> dom (wConns w) \<Longrightarrow> safe w (closeInLoop tid cbs c w)"
  unfolding closeInLoop_def by (intro lifetime safe_handleClose) auto

lemma safe_handleRead:
  assumes "c \<in> dom (wConns w)"
  shows "safe w (conn_handleRead tid cbs res t c w)"
proof -
  have "safe w (if b then msgCallback cbs tid c t (putConn c k w)
      else if b' then handleClose tid cbs c (putConn c k w) else Inr (putConn c k w))" for b b' k
    by (rule safe_via [OF safe_put [OF assms]]) (auto intro!: lifetime msg_safe safe_handleClose)
  then show ?thesis using assms unfolding conn_handleRead_def Let_def
    by (intro lifetime safe_other orderly_buffer) (auto split: prod.splits)
qed

lemma safe_handleWrite:
  assumes "c \<in> dom (wConns w)"
  shows "safe w (conn_handleWrite tid cbs res c w)"
proof -
  have put: "safe w1 (if b then bindR (enableWriting tid False c (putConn c k w1)) (\<lambda>w3.
      let w4 = (if b1 then queueTask l (TWriteComplete c) w3 else w3)
      in if b2 then shutdownInLoop tid c w4 else Inr w4) else Inr (putConn c k w1))"
    if "c \<in> dom (wConns w1)" for b b1 b2 k l and w1 :: "'x world"
    by (rule safe_via [OF safe_put [OF that]]) (auto intro!: safe_drained lifetime)
  have em: "safe w (Inr (if p then emit e w else w))" "c \<in> dom (wConns (if p then emit e w else w))" for p e
    using assms by (auto intro: lifetime)
  note step = safe_via [OF em(1) put [OF em(2)]]
  show ?thesis unfolding conn_handleWrite_def Let_def [of "if 0 < _ then _ else _"] Let_def [of "putConn _ _ _"]
    by (intro safe_withConn [OF assms] safe_assertIn safe_if safe_write_result safe_return safe_other orderly_buffer step)
qed

lemma safe_newConnection: "safe w (newConnection tid cbs sockfd peerAddr lres w)"
proof -
  have loc: "orderly (getLocalAddr n a)" "orderly (allocLoop els)" for n a els
    by (simp_all add: getLocalAddr_def allocLoop_def Let_def assertR_def)
  have "safe w (runInLoop tid l (TEstablished (wNextAddr w)) (connectEstablished tid cbs (wNextAddr w))
      (putConn (wNextAddr w) k (putServer s (w\<lparr>wNextAddr := wNextAddr w + 1\<rparr>))))"
    if "srvConns s = AList.update name (wNextAddr w) (srvConns (wServer w))" for l k s name
    by (rule safe_via [OF safe_new [OF that]]) (auto intro!: lifetime safe_established)
  then show ?thesis unfolding newConnection_def Let_def
    by (intro safe_assertIn safe_other loc) (auto split: prod.splits)
qed

lemma safe_acceptAll: "safe w (acceptAll tid cbs peerAddr rs w)"
  by (induction rs arbitrary: peerAddr w)
    (auto simp: case_prod_unfold Let_def intro!: lifetime safe_bind safe_newConnection)

lemma safe_runTask:
  assumes "set (keeps t) \<subseteq> dom (wConns w)" and "set (rawRefs t) \<subseteq> dom (wConns w)"
  shows "safe w (runTask tid cbs t w)"
proof (cases t)
  case (TWriteComplete c)
  then show ?thesis using assms complete_safe
    by (cases "writeCompleteCallback cbs") (auto intro!: lifetime)
qed (use assms in \<open>auto intro!: lifetime safe_established safe_destroyed safe_closeInLoop\<close>)

lemma safe_runTasks:
  assumes "\<forall>t\<in>set ts. set (keeps t) \<subseteq> dom (wConns w) \<and> set (rawRefs t) \<subseteq> dom (wConns w)"
  shows "safe w (runTasks tid cbs ts w)"
  using assms
proof (induction ts arbitrary: w)
  case (Cons t ts)
  have "safe w (runTask tid cbs t w)" using Cons.prems by (intro safe_runTask) simp_all
  moreover have "safe w' (runTasks tid cbs ts w')" if "dom (wConns w) \<subseteq> dom (wConns w')" for w'
    using Cons.prems that by (intro Cons.IH) (meson list.set_intros(2) subset_trans)
  ultimately show ?case by (simp add: runTasks_def safe_bind)
qed (simp add: runTasks_def safe_return)

lemma settled_batch:
  assumes "live_ok w" and "l < wLoopCount w"
    and "\<forall>t\<in>set (pendingTasks (wLoops w l)). set (rawRefs t) \<subseteq> dom (wConns w)"
  shows "settled (doPendingTasks tid cbs l w)"
proof -
  let ?ts = "pendingTasks (wLoops w l)"
  let ?w1 = "(putLoop l ((wLoops w l)\<lparr>pendingTasks := []\<rparr>) w)\<lparr>wBatch := (wBatch w)(l := ?ts)\<rparr>"
  have "set (kept ?w1) \<subseteq> set (kept w)" by (auto simp: kept_def split: if_splits)
  then have w1: "live_ok ?w1" by (rule live_ok_mono [OF assms(1)]) simp_all
  have "\<forall>t\<in>set ?ts. set (keeps t) \<subseteq> dom (wConns w)"
    using assms(1,2) pending_kept live_ok_kept by blast
  then have "safe ?w1 (runTasks tid cbs ?ts ?w1)" using assms(3) by (intro safe_runTasks) simp
  moreover have "live_ok (reap (w'\<lparr>wBatch := (wBatch w')(l := [])\<rparr>))" if "live_ok w'" for w' :: "'x world"
  proof -
    have "set (kept (w'\<lparr>wBatch := (wBatch w')(l := [])\<rparr>)) \<subseteq> set (kept w')" by (auto simp: kept_def split: if_splits)
    then show ?thesis by (intro live_ok_reap, rule live_ok_mono [OF that]) simp_all
  qed
  ultimately show ?thesis using w1
    by (simp add: doPendingTasks_def takeTasks_def settled_bind)
qed

lemma safe_connCall: "c \<in> dom (wConns w) \<Longrightarrow> safe w (connCall tid cbs rres wres c cl w)"
  by (cases "(tid, cbs, rres, wres, c, cl, w)" rule: connCall.cases)
    (simp_all add: safe_handleRead safe_handleWrite safe_return)

lemma settled_event:
  assumes "live_ok w" and "c \<in> dom (wConns w)"
  shows "settled (connEvent tid cbs rres wres t revents c w)"
proof -
  have run: "safe w (runR (connCall tid cbs rres wres c) cls w)" if "c \<in> dom (wConns w)" for cls w
    using that by (induction cls arbitrary: w) (auto intro!: lifetime safe_bind safe_connCall)
  have put: "safe w (runR (connCall tid cbs rres wres c) cls (putConn c k w))" for cls k
    by (rule safe_via [OF safe_put [OF assms(2)]]) (auto intro!: run)
  obtain k where "wConns w c = Some k" using assms(2) by blast
  moreover have "settled (bindR (runR (connCall tid cbs rres wres c) cls (putConn c k1 w)) (\<lambda>w1. Inr (reap w1)))" for cls k1
    by (rule settled_bind [OF assms(1) put]) (simp add: live_ok_reap)
  ultimately show ?thesis by (simp add: connEvent_def withConn_Some Let_def)
qed

end

section \<open>The callbacks of the HTTP server and of the echo server\<close>

lemma safe_pair:
  assumes "safe w (mapR snd m)" and "\<And>x w'. dom (wConns w) \<subseteq> dom (wConns w') \<Longrightarrow> safe w' (f (x, w'))"
  shows "safe w (bindR m f)"
proof (cases m)
  case (Inr y)
  have "safe w (Inr (snd y))" using assms(1) Inr by simp
  then have "safe w (f (fst y, snd y))" by (rule safe_via) (rule assms(2))
  then show ?thesis using Inr by simp
qed (use assms(1) in simp)

lemma orderly_turn: "orderly (decodeTurn ls r b)"
proof -
  have "orderly (parseRequstline r b)"
    by (auto simp: parseRequstline_def case_prod_unfold Let_def intro!: orderly_bind orderly_buffer)
  moreover have "orderly (headerLine line r)" for line
    by (auto simp: headerLine_def substr_def stoi_def Let_def split: option.splits intro!: orderly_bind)
  then have "orderly (parseHeaders r b)"
    by (auto simp: parseHeaders_def case_prod_unfold intro!: orderly_bind orderly_buffer)
  moreover have "orderly (parseContent r b)"
    by (auto simp: parseContent_def Let_def intro!: orderly_bind orderly_buffer)
  ultimately show ?thesis
    by (auto simp: decodeTurn_def Let_def split: CHECK_STATE.splits intro!: orderly_bind)
qed

lemma orderly_decode:
  assumes "tryDecode r b = Some m"
  shows "orderly m"
proof -
  have "decodeLoop LINE_OK r b = Some m" using assms by (simp add: tryDecode_def)
  then show ?thesis
  proof (rule decodeLoop.raw_induct [rotated, where P = "\<lambda>ls r b m. orderly m"])
    fix f ls r b m
    assume IH: "\<And>ls r b m. f ls r b = Some m \<Longrightarrow> orderly m"
      and eq: "(case decodeTurn ls r b of Inl e \<Rightarrow> Some (Inl e)
          | Inr (Done code r1 buf1) \<Rightarrow> Some (Inr (code, r1, buf1)) | Inr (Again ls1 r1 buf1) \<Rightarrow> f ls1 r1 buf1) = Some m"
    show "orderly m" using eq IH orderly_turn [of ls r b] by (auto split: sum.splits decode_next.splits)
  qed
qed

lemma orderly_load: "orderly (loadResponse env rp code req resp)"
  by (auto simp: loadResponse_def loadFile_def Let_def assertR_def split: HTTP_CODE.splits option.splits intro!: orderly_bind)

lemma safe_decode:
  assumes "c \<in> dom (wConns w)"
  shows "safe w (mapR snd (decodeHttpRequest c w))"
proof -
  obtain k where k: "wConns w c = Some k" using assms by blast
  let ?r = "ctxReq (getContext k)"
  show ?thesis
  proof (cases "tryDecode ?r (cInput k)")
    case None
    then show ?thesis using k assms
      by (auto simp: decodeHttpRequest_def withConn_Some Let_def intro!: lifetime)
  next
    case (Some m)
    then show ?thesis using k assms orderly_decode [OF Some]
      by (cases m) (auto simp: decodeHttpRequest_def withConn_Some Let_def case_prod_unfold intro!: lifetime)
  qed
qed

lemma safe_putContext [lifetime]: "c \<in> dom (wConns w) \<Longrightarrow> safe w (putContext c ctx w)"
  by (auto simp: putContext_def intro!: lifetime)

lemma safe_sendResponse: "c \<in> dom (wConns w) \<Longrightarrow> safe w (sendResponse tid resp c w)"
  unfolding sendResponse_def by (rule safe_bind) (auto intro!: lifetime)

lemma safe_onMsg:
  assumes "c \<in> dom (wConns w)"
  shows "safe w (onMsg env rp tid c t w)"
  unfolding onMsg_def
proof (rule safe_pair [OF safe_decode [OF assms]], unfold prod.case)
  fix code and w1 :: http_world
  assume "dom (wConns w) \<subseteq> dom (wConns w1)"
  then have c: "c \<in> dom (wConns w1)" using assms by blast
  have "safe w1 (bindR (putContext c ctx w1) (sendResponse tid resp c))" for ctx resp
    using c by (intro safe_bind safe_putContext safe_sendResponse) blast+
  then have "safe w1 (bindR (loadResponse env rp code1 req resp0) (\<lambda>resp.
      bindR (putContext c (ctx\<lparr>ctxResp := resp\<rparr>) w1) (\<lambda>w2. sendResponse tid resp c w2)))" for code1 req resp0 ctx
    by (intro safe_other [OF orderly_load])
  then show "safe w1 (if code = NO_REQUEST then Inr w1
       else withConn c w1 (\<lambda>k.
         let ctx = getContext k;
             retcode1 = (if code = GET_REQUEST then handleRequest env rp (ctxReq ctx) else code)
         in bindR (loadResponse env rp retcode1 (ctxReq ctx) (ctxResp ctx)) (\<lambda>resp.
            bindR (putContext c (ctx\<lparr>ctxResp := resp\<rparr>) w1) (\<lambda>w2. sendResponse tid resp c w2))))"
    unfolding Let_def by (intro safe_if safe_return safe_withConn [OF c])
qed

lemma safe_finishResponse [lifetime]:
  assumes "c \<in> dom (wConns w)"
  shows "safe w (finishResponse c w)"
proof -
  have em: "safe w (Inr (fold (\<lambda>fd. emit (SysClose fd)) fds w))" for fds and w :: http_world
  proof (induction fds arbitrary: w)
    case (Cons fd fds)
    show ?case using safe_via [OF safe_emit Cons] by simp
  qed (simp add: safe_return)
  have "safe w (bindR (putContext c ctx (fold (\<lambda>fd. emit (SysClose fd)) fds w)) (\<lambda>w2. if b then close c w2 else Inr w2))"
    for ctx fds b
    by (rule safe_via [OF em [where fds = fds]], rule safe_bind) (use assms in \<open>auto intro!: lifetime\<close>)
  then show ?thesis unfolding finishResponse_def Let_def case_prod_unfold by (intro safe_withConn [OF assms])
qed

lemma safe_sendfile:
  assumes "c \<in> dom (wConns w)"
  shows "safe w (mapR snd (sendfile tid fd res c w))"
proof -
  obtain k where "wConns w c = Some k" using assms by blast
  then show ?thesis
    by (auto simp: sendfile_def withConn_Some assertIn_def assertInLoopThread_def assertR_def intro!: lifetime)
qed

lemma safe_onWriteComplete:
  assumes "c \<in> dom (wConns w)"
  shows "safe w (onWriteComplete env tid c w)"
proof -
  have run: "safe w0 (bindR (sendfile tid fd res c w0) (\<lambda>(ret, w1). if 0 < ret then send tid [] c w1 else finishResponse c w1))"
    if "c \<in> dom (wConns w0)" for fd res and w0 :: http_world
    by (rule safe_pair [OF safe_sendfile [OF that]]) (use that in \<open>auto intro!: lifetime\<close>)
  have "safe w (if b then finishResponse c (putConn c k w) else if b' then
      bindR (sendfile tid fd (res (putConn c k w)) c (putConn c k w)) (\<lambda>(ret, w1). if 0 < ret then send tid [] c w1 else finishResponse c w1)
      else Inr (putConn c k w))" for b b' k fd res
    by (rule safe_via [OF safe_put [OF assms]]) (auto intro!: lifetime run)
  then show ?thesis unfolding onWriteComplete_def Let_def by (intro safe_withConn [OF assms])
qed

interpretation http_life: careful_user "httpCallbacks env rp" for env rp
  by unfold_locales
    (auto simp: httpCallbacks_def onState_def intro!: safe_return safe_onMsg safe_onWriteComplete)

lemma safe_echo_onMsg:
  assumes "c \<in> dom (wConns w)"
  shows "safe w (echo_onMsg tid c t w)"
proof -
  have "safe w (send tid msg c (putConn c k w))" for msg k
    by (rule safe_via [OF safe_put [OF assms]]) (auto intro!: lifetime)
  then show ?thesis unfolding echo_onMsg_def Let_def case_prod_unfold by (intro safe_withConn [OF assms])
qed

interpretation echo_life: careful_user echoCbs
  by unfold_locales (auto simp: echoCbs_def echo_onState_def intro!: safe_return safe_echo_onMsg)

section \<open>The operations as steps\<close>

text \<open>
  What can happen to the connections of a server: the acceptor becomes readable, events are
  reported for a connection, a loop runs its tasks, a thread of the user calls one of the
  functions through a handle, copies a handle or drops one.
\<close>

datatype life_op =
    Accepts int "(int \<times> sockaddr_in \<times> int \<times> sockaddr_in) list"
  | Event int readv_result write_result int "32 word" nat
  | Batch int nat
  | UserSend int string nat
  | UserShutdown int nat
  | UserClose nat
  | UserCloseNext nat
  | Hold nat
  | Release nat

fun life_step :: "'x callbacks \<Rightarrow> life_op \<Rightarrow> 'x world \<Rightarrow> 'x world result" where
  "life_step cbs (Accepts tid rs) w = acceptor_handleRead tid cbs rs w"
| "life_step cbs (Event tid rres wres t revents c) w = connEvent tid cbs rres wres t revents c w"
| "life_step cbs (Batch tid l) w = doPendingTasks tid cbs l w"
| "life_step cbs (UserSend tid msg c) w = send tid msg c w"
| "life_step cbs (UserShutdown tid c) w = shutdown tid c w"
| "life_step cbs (UserClose c) w = close c w"
| "life_step cbs (UserCloseNext c) w = closeInNextLoop c w"
| "life_step cbs (Hold c) w = Inr (w\<lparr>wHeld := c # wHeld w\<rparr>)"
| "life_step cbs (Release c) w = Inr (reap (w\<lparr>wHeld := remove1 c (wHeld w)\<rparr>))"

text \<open>
  When a step is possible: a user acts through a handle and copies handles that exist, events are
  reported for live connections, and the plain pointers in the tasks of a batch are not dangling.
\<close>

fun life_pre :: "life_op \<Rightarrow> 'x world \<Rightarrow> bool" where
  "life_pre (Accepts tid rs) w = True"
| "life_pre (Event tid rres wres t revents c) w = (wConns w c \<noteq> None)"
| "life_pre (Batch tid l) w =
     (l < wLoopCount w
      \<and> list_all (\<lambda>t. list_all (\<lambda>c. wConns w c \<noteq> None) (rawRefs t)) (pendingTasks (wLoops w l)))"
| "life_pre (UserSend tid msg c) w = (c \<in> set (wHeld w))"
| "life_pre (UserShutdown tid c) w = (c \<in> set (wHeld w))"
| "life_pre (UserClose c) w = (c \<in> set (wHeld w))"
| "life_pre (UserCloseNext c) w = (c \<in> set (wHeld w))"
| "life_pre (Hold c) w = (c \<in> set (kept w))"
| "life_pre (Release c) w = True"

fun life_run_pre :: "'x callbacks \<Rightarrow> life_op list \<Rightarrow> 'x world \<Rightarrow> bool" where
  "life_run_pre cbs [] w = True"
| "life_run_pre cbs (x # xs) w =
     (life_pre x w \<and> (case life_step cbs x w of Inl _ \<Rightarrow> True | Inr w1 \<Rightarrow> life_run_pre cbs xs w1))"

lemma held_kept: "set (wHeld w) \<subseteq> set (kept w)"
  by (auto simp: kept_def)

lemma kept_holding: "set (kept (w\<lparr>wHeld := hs\<rparr>)) \<subseteq> set hs \<union> set (kept w)"
  by (auto simp: kept_def)

lemma live_ok_hold:
  assumes "live_ok w" and "set hs \<subseteq> set (kept w)"
  shows "live_ok (w\<lparr>wHeld := hs\<rparr>)"
  by (rule live_ok_mono [OF assms(1)]) (use kept_holding [of hs w] assms(2) in auto)

context careful_user
begin

lemma settled_step:
  assumes "live_ok w" and "life_pre x w"
  shows "settled (life_step cbs x w)"
proof -
  have held: "c \<in> dom (wConns w)" if "c \<in> set (wHeld w)" for c
    using live_ok_kept [OF assms(1)] held_kept [of w] that by blast
  show ?thesis
  proof (cases x)
    case (Accepts tid rs)
    then show ?thesis
      by (auto simp: acceptor_handleRead_def intro!: settled_safe [OF assms(1)] safe_assertIn safe_acceptAll)
  next
    case (Event tid rres wres t revents c)
    then show ?thesis using assms by (auto intro!: settled_event)
  next
    case (Batch tid l)
    then show ?thesis using assms by (auto simp: list_all_iff intro!: settled_batch)
  next
    case (Hold c)
    then have "set (c # wHeld w) \<subseteq> set (kept w)" using assms(2) held_kept [of w] by simp
    with Hold show ?thesis by (simp add: live_ok_hold [OF assms(1)] del: set_simps)
  next
    case (Release c)
    then show ?thesis using set_remove1_subset [of c "wHeld w"] held_kept [of w]
      by (simp add: live_ok_reap live_ok_hold [OF assms(1)])
  qed (use assms(2) held in \<open>auto intro!: settled_safe [OF assms(1)] lifetime\<close>)
qed

lemma settled_run: "live_ok w \<Longrightarrow> life_run_pre cbs xs w \<Longrightarrow> settled (runR (life_step cbs) xs w)"
proof (induction xs arbitrary: w)
  case (Cons x xs)
  from settled_step [OF Cons.prems(1), of x] Cons.prems(2) have "settled (life_step cbs x w)" by simp
  with Cons show ?case by (cases "life_step cbs x w") simp_all
qed simp

end

section \<open>Properties\<close>

text \<open>
  C9: the life time of connections under the HTTP server. Along every sequence of accepted sockets,
  events, batches of tasks and calls through handles, whatever has a shared pointer in the map,
  in a handle or in a task stays alive, and no operation accesses a destroyed connection as long
  as events are reported for live connections and the plain pointers in the queues are valid when
  a batch starts: nothing is destroyed while a batch or an event handler runs.
\<close>

theorem connection_lifetime:
  assumes "live_ok w" and "life_run_pre (httpCallbacks env rp) xs w"
  shows "runR (life_step (httpCallbacks env rp)) xs w \<noteq> Inl UseAfterFree
    \<and> (\<forall>w'. runR (life_step (httpCallbacks env rp)) xs w = Inr w' \<longrightarrow>
         set (kept w') \<subseteq> dom (wConns w') \<and> dom (wConns w') \<subseteq> {..<wNextAddr w'})"
  using http_life.settled_run [OF assms] by (auto simp: settled_def live_ok_def split: sum.splits)

text \<open>The same for the echo server.\<close>

lemma echo_lifetime:
  assumes "live_ok w" and "life_run_pre echoCbs xs w"
  shows "runR (life_step echoCbs) xs w \<noteq> Inl UseAfterFree"
  using echo_life.settled_run [OF assms] by auto

text \<open>The connection that has just been accepted is closed through a handle, which is then dropped.\<close>

lemma live_ok_accepted: "live_ok acceptedWorld"
  by (auto simp: live_ok_def kept_def acceptedWorld_def freshServer_def split: if_splits)

lemmas closing_defs = acceptedWorld_def freshServer_def newConn_def kept_def reap_def destroyConn_def
  close_def closeInLoop_def doPendingTasks_def takeTasks_def runTasks_def world_simps queueTask_def perform_queue
  pushTask_def wakeup_def putLoop_def isInLoopThread_def upt_rec_numeral

theorem connection_lifetime_witness:
  "\<exists>w'. runR (life_step (httpCallbacks bigFile ''/srv'')) [Hold 1, UserClose 1, Batch 1 0, Release 1] acceptedWorld = Inr w'
     \<and> set (kept w') \<subseteq> dom (wConns w')"
proof -
  let ?ops = "[Hold 1, UserClose 1, Batch 1 0, Release 1]"
  let ?cbs = "httpCallbacks bigFile ''/srv''"
  have "life_run_pre ?cbs ?ops acceptedWorld" by (simp add: closing_defs)
  moreover have "\<exists>w'. runR (life_step ?cbs) ?ops acceptedWorld = Inr w'" by (simp add: closing_defs)
  ultimately show ?thesis using connection_lifetime [OF live_ok_accepted] by blast
qed

end
