(* ===== verification/Connection_Protocol.thy ===== *)
theory Connection_Protocol
  imports Connection_Lifetime
begin

text \<open>
  The protocol by which server, loops and connections keep track of each other, stripped of
  bytes, sockets, names and the order of queues: which objects exist, which of them the map of
  the server holds, which tasks are queued or being run, which channels a poller knows and which
  events are still to be handled. The steps are those of \<^verbatim>\<open>EventLoop::loop\<close> on any number of
  loops, interleaved between tasks and event handlers. The invariant says that every reference,
  shared or plain, is to an object that exists, and that every object is owned and has the task or
  the registration its state calls for; \<open>Server_Safety\<close> shows that the server refines the protocol.
\<close>

section \<open>States\<close>

text \<open>
  Per loop: the queue, the rest of the batch being run, the batch (whose tasks keep their
  references until it ends), the events still to be handled, whether \<^verbatim>\<open>poll\<close> has returned in the
  current turn, and the connections registered with the poller. \<open>skHome\<close> is the loop of the server,
  the only one that runs the tasks \<open>homeTask\<close>; the tasks that register a loop's own channels are for
  that loop (\<open>ownLoop\<close>).
\<close>

fun homeTask :: "task \<Rightarrow> bool" where
  "homeTask (TRemoveConnection c) = True"
| "homeTask TListen = True"
| "homeTask TAcceptorAdd = True"
| "homeTask TAcceptorUpdate = True"
| "homeTask _ = False"

fun ownLoop :: "task \<Rightarrow> nat option" where
  "ownLoop (TOwnAdd l x) = Some l"
| "ownLoop (TOwnUpdate l x) = Some l"
| "ownLoop _ = None"

record skel =
  skHome :: nat
  skMap :: "nat set"
  skObj :: "nat \<rightharpoonup> stateE \<times> nat"
  skPend :: "nat \<Rightarrow> task set"
  skTodo :: "nat \<Rightarrow> task set"
  skBatch :: "nat \<Rightarrow> task set"
  skAct :: "nat \<Rightarrow> nat set"
  skPolled :: "nat \<Rightarrow> bool"
  skReg :: "nat \<Rightarrow> nat set"

definition skQueue :: "nat \<Rightarrow> task \<Rightarrow> skel \<Rightarrow> skel" where
  "skQueue l t s = s\<lparr>skPend := (skPend s)(l := insert t (skPend s l))\<rparr>"

text \<open>What the reference counts keep alive.\<close>

definition skStrong :: "skel \<Rightarrow> nat set" where
  "skStrong s = skMap s \<union> {c. \<exists>l t. (t \<in> skPend s l \<or> t \<in> skBatch s l) \<and> c \<in> set (keeps t)}"

text \<open>Kept beyond the end of the current batch of the connection's loop \<open>l\<close>.\<close>

definition anchored :: "nat \<Rightarrow> nat \<Rightarrow> skel \<Rightarrow> bool" where
  "anchored c l s \<longleftrightarrow> c \<in> skMap s \<or> TDestroyed c \<in> skPend s l"

definition skAt :: "nat \<Rightarrow> nat \<Rightarrow> skel \<Rightarrow> bool" where
  "skAt c l s \<longleftrightarrow> (\<exists>st. skObj s c = Some (st, l))"

text \<open>The batch of loop \<open>l\<close> gives up its references.\<close>

definition skDrop :: "nat \<Rightarrow> skel \<Rightarrow> skel" where
  "skDrop l s = s\<lparr>skBatch := (skBatch s)(l := {})\<rparr>"

text \<open>What a task has achieved when it is left behind; \<open>TDestroyed\<close> has a step of its own.\<close>

fun skDone :: "task \<Rightarrow> skel \<Rightarrow> bool" where
  "skDone (TDestroyed c) s = False"
| "skDone (TEstablished c) s = (\<forall>l. skObj s c \<noteq> Some (kConnecting, l))"
| "skDone (TRemoveConnection c) s = (c \<notin> skMap s)"
| "skDone t s = True"

section \<open>Steps\<close>

inductive skel_step :: "skel \<Rightarrow> skel \<Rightarrow> bool" where
  take_batch: "skPolled s l \<Longrightarrow> skAct s l = {}
    \<Longrightarrow> skel_step s (s\<lparr>skTodo := (skTodo s)(l := skPend s l), skBatch := (skBatch s)(l := skPend s l),
          skPend := (skPend s)(l := {}), skPolled := (skPolled s)(l := False)\<rparr>)"
| end_batch: "skTodo s l = {}
    \<Longrightarrow> skel_step s ((skDrop l s)\<lparr>skObj := skObj s |` skStrong (skDrop l s)\<rparr>)"
| poll: "\<not> skPolled s l \<Longrightarrow> skTodo s l = {} \<Longrightarrow> skBatch s l = {} \<Longrightarrow> cs \<subseteq> skReg s l
    \<Longrightarrow> skel_step s (s\<lparr>skAct := (skAct s)(l := cs), skPolled := (skPolled s)(l := True)\<rparr>)"
| next_task: "T \<subseteq> skTodo s l \<Longrightarrow> (\<And>t. t \<in> skTodo s l \<Longrightarrow> t \<notin> T \<Longrightarrow> skDone t s)
    \<Longrightarrow> skel_step s (s\<lparr>skTodo := (skTodo s)(l := T)\<rparr>)"
| next_event: "skel_step s (s\<lparr>skAct := (skAct s)(l := skAct s l - {c})\<rparr>)"
| queue_plain: "keeps t = [] \<Longrightarrow> rawRefs t = [] \<Longrightarrow> (homeTask t \<Longrightarrow> l = skHome s)
    \<Longrightarrow> (\<And>m. ownLoop t = Some m \<Longrightarrow> l = m) \<Longrightarrow> skel_step s (skQueue l t s)"
| queue_close: "skAt c l s \<Longrightarrow> anchored c l s \<Longrightarrow> skel_step s (skQueue l (TClose c) s)"
| queue_written: "skObj s c = Some (st, l) \<Longrightarrow> st \<noteq> kDisconnected \<Longrightarrow> skPolled s l \<Longrightarrow> c \<notin> skAct s l
    \<Longrightarrow> skel_step s (skQueue l (TWriteComplete c) s)"
| create_ask: "skObj s c = None
    \<Longrightarrow> skel_step s (skQueue l (TEstablished c)
          (s\<lparr>skObj := (skObj s)(c \<mapsto> (kConnecting, l)), skMap := insert c (skMap s)\<rparr>))"
| create_here: "skObj s c = None
    \<Longrightarrow> skel_step s (s\<lparr>skObj := (skObj s)(c \<mapsto> (kConnected, l)), skMap := insert c (skMap s),
          skReg := (skReg s)(l := insert c (skReg s l))\<rparr>)"
| establish: "skObj s c = Some (kConnecting, l)
    \<Longrightarrow> skel_step s (s\<lparr>skObj := (skObj s)(c \<mapsto> (kConnected, l)), skReg := (skReg s)(l := insert c (skReg s l))\<rparr>)"
| close_ask: "skObj s c = Some (st, l) \<Longrightarrow> TWriteComplete c \<notin> skPend s l
    \<Longrightarrow> skel_step s (skQueue (skHome s) (TRemoveConnection c) (s\<lparr>skObj := (skObj s)(c \<mapsto> (kDisconnected, l))\<rparr>))"
| close_here: "skObj s c = Some (st, l) \<Longrightarrow> TWriteComplete c \<notin> skPend s l
    \<Longrightarrow> skel_step s (skQueue l (TDestroyed c)
          (s\<lparr>skObj := (skObj s)(c \<mapsto> (kDisconnected, l)), skMap := skMap s - {c}\<rparr>))"
| remove: "skObj s c = Some (kDisconnected, l)
    \<Longrightarrow> skel_step s (skQueue l (TDestroyed c) (s\<lparr>skMap := skMap s - {c}\<rparr>))"
| destroy: "TDestroyed c \<in> skTodo s l \<Longrightarrow> T \<subseteq> skTodo s l
    \<Longrightarrow> (\<And>t. t \<in> skTodo s l \<Longrightarrow> t \<noteq> TDestroyed c \<Longrightarrow> t \<in> T)
    \<Longrightarrow> skel_step s (s\<lparr>skTodo := (skTodo s)(l := T), skReg := (skReg s)(l := skReg s l - {c})\<rparr>)"

section \<open>Invariant\<close>

text \<open>Everything that is kept exists; what the map has given up is disconnected.\<close>

definition sk_objects :: "skel \<Rightarrow> bool" where
  "sk_objects s \<longleftrightarrow> skStrong s \<subseteq> dom (skObj s) \<and> (\<forall>l. skTodo s l \<subseteq> skBatch s l)
     \<and> (\<forall>c st l. skObj s c = Some (st, l) \<longrightarrow> c \<notin> skMap s \<longrightarrow> st = kDisconnected)"

text \<open>The tasks that close and destroy.\<close>

definition sk_closing :: "skel \<Rightarrow> bool" where
  "sk_closing s \<longleftrightarrow>
       (\<forall>l c. TDestroyed c \<in> skPend s l \<union> skTodo s l \<longrightarrow> skObj s c = Some (kDisconnected, l))
     \<and> (\<forall>l c. TRemoveConnection c \<in> skPend s l \<union> skTodo s l \<longrightarrow> (\<exists>m. skObj s c = Some (kDisconnected, m)))
     \<and> (\<forall>l c t. t \<in> skPend s l \<union> skTodo s l \<longrightarrow> c \<in> set (rawRefs t) \<longrightarrow> t = TClose c)"

text \<open>Tasks wait on the loop that may run them.\<close>

definition sk_places :: "skel \<Rightarrow> bool" where
  "sk_places s \<longleftrightarrow>
       (\<forall>l c. TEstablished c \<in> skPend s l \<union> skTodo s l \<longrightarrow> skAt c l s)
     \<and> (\<forall>l t. t \<in> skPend s l \<union> skTodo s l \<longrightarrow> homeTask t \<longrightarrow> l = skHome s)
     \<and> (\<forall>l t m. t \<in> skPend s l \<union> skTodo s l \<longrightarrow> ownLoop t = Some m \<longrightarrow> l = m)"

text \<open>The plain pointers: \<open>TClose\<close> in the queues, events, registrations.\<close>

definition sk_plain :: "skel \<Rightarrow> bool" where
  "sk_plain s \<longleftrightarrow>
       (\<forall>l c. TClose c \<in> skPend s l \<longrightarrow> skAt c l s \<and> anchored c l s)
     \<and> (\<forall>l c. TClose c \<in> skTodo s l \<longrightarrow> skAt c l s \<and> (anchored c l s \<or> TDestroyed c \<in> skBatch s l))
     \<and> (\<forall>l c. c \<in> skAct s l \<longrightarrow> skAt c l s \<and> anchored c l s)
     \<and> (\<forall>l c. c \<in> skReg s l \<longrightarrow> skAt c l s \<and> (anchored c l s \<or> TDestroyed c \<in> skTodo s l))"

text \<open>Write-complete tasks are queued by event handlers only and precede the closing of their connection.\<close>

definition sk_written :: "skel \<Rightarrow> bool" where
  "sk_written s \<longleftrightarrow>
       (\<forall>l c. TWriteComplete c \<in> skPend s l \<longrightarrow>
          (\<exists>st. skObj s c = Some (st, l) \<and> st \<noteq> kDisconnected) \<and> skPolled s l \<and> c \<notin> skAct s l)
     \<and> (\<forall>l c. TWriteComplete c \<in> skTodo s l \<longrightarrow> skAt c l s \<and> anchored c l s)
     \<and> (\<forall>l. skPolled s l \<longrightarrow> skTodo s l = {} \<and> skBatch s l = {}) \<and> (\<forall>l. \<not> skPolled s l \<longrightarrow> skAct s l = {})"

text \<open>
  Nothing is forgotten: every object is kept by someone, a connection that is not established yet or
  that is closed but still in the map has the task that will see to it, and an open one is known to
  the poller of its loop.
\<close>

definition sk_exact :: "skel \<Rightarrow> bool" where
  "sk_exact s \<longleftrightarrow> dom (skObj s) \<subseteq> skStrong s
     \<and> (\<forall>c l. skObj s c = Some (kConnecting, l) \<longrightarrow> TEstablished c \<in> skPend s l \<union> skTodo s l)
     \<and> (\<forall>c l. skObj s c = Some (kDisconnected, l) \<longrightarrow> c \<in> skMap s
          \<longrightarrow> TRemoveConnection c \<in> skPend s (skHome s) \<union> skTodo s (skHome s))
     \<and> (\<forall>c st l. skObj s c = Some (st, l) \<longrightarrow> st = kConnected \<or> st = kDisconnecting \<longrightarrow> c \<in> skReg s l)"

definition sk_inv :: "skel \<Rightarrow> bool" where
  "sk_inv s \<longleftrightarrow> sk_objects s \<and> sk_closing s \<and> sk_places s \<and> sk_plain s \<and> sk_written s \<and> sk_exact s"

lemma skQueue_simps [simp]:
  "skHome (skQueue l t s) = skHome s" "skMap (skQueue l t s) = skMap s" "skObj (skQueue l t s) = skObj s" "skTodo (skQueue l t s) = skTodo s"
  "skBatch (skQueue l t s) = skBatch s" "skAct (skQueue l t s) = skAct s" "skPolled (skQueue l t s) = skPolled s"
  "skReg (skQueue l t s) = skReg s" "skPend (skQueue l t s) = (skPend s)(l := insert t (skPend s l))"
  by (simp_all add: skQueue_def)

lemma skDrop_simps [simp]:
  "skHome (skDrop l s) = skHome s" "skMap (skDrop l s) = skMap s" "skObj (skDrop l s) = skObj s" "skTodo (skDrop l s) = skTodo s"
  "skPend (skDrop l s) = skPend s" "skAct (skDrop l s) = skAct s" "skPolled (skDrop l s) = skPolled s"
  "skReg (skDrop l s) = skReg s" "skBatch (skDrop l s) = (skBatch s)(l := {})"
  by (simp_all add: skDrop_def)

lemma sk_objectsI:
  assumes "\<And>c. c \<in> skMap s \<Longrightarrow> c \<in> dom (skObj s)"
    and "\<And>l t c. t \<in> skPend s l \<Longrightarrow> c \<in> set (keeps t) \<Longrightarrow> c \<in> dom (skObj s)"
    and "\<And>l t c. t \<in> skBatch s l \<Longrightarrow> c \<in> set (keeps t) \<Longrightarrow> c \<in> dom (skObj s)"
    and "\<And>l t. t \<in> skTodo s l \<Longrightarrow> t \<in> skBatch s l"
    and "\<And>c st l. skObj s c = Some (st, l) \<Longrightarrow> c \<notin> skMap s \<Longrightarrow> st = kDisconnected"
  shows "sk_objects s"
  using assms unfolding sk_objects_def skStrong_def by blast

lemma sk_objectsD:
  assumes "sk_inv s"
  shows "c \<in> skMap s \<Longrightarrow> c \<in> dom (skObj s)"
    and "t \<in> skPend s l \<Longrightarrow> c \<in> set (keeps t) \<Longrightarrow> c \<in> dom (skObj s)"
    and "t \<in> skBatch s l \<Longrightarrow> c \<in> set (keeps t) \<Longrightarrow> c \<in> dom (skObj s)"
    and "t \<in> skTodo s l \<Longrightarrow> t \<in> skBatch s l"
    and "skObj s c = Some (st, l) \<Longrightarrow> c \<notin> skMap s \<Longrightarrow> st = kDisconnected"
proof -
  have "sk_objects s" using assms by (simp add: sk_inv_def)
  note this [unfolded sk_objects_def skStrong_def]
  then show "c \<in> skMap s \<Longrightarrow> c \<in> dom (skObj s)"
    "t \<in> skPend s l \<Longrightarrow> c \<in> set (keeps t) \<Longrightarrow> c \<in> dom (skObj s)"
    "t \<in> skBatch s l \<Longrightarrow> c \<in> set (keeps t) \<Longrightarrow> c \<in> dom (skObj s)"
    "t \<in> skTodo s l \<Longrightarrow> t \<in> skBatch s l"
    "skObj s c = Some (st, l) \<Longrightarrow> c \<notin> skMap s \<Longrightarrow> st = kDisconnected" by blast+
qed

lemma sk_closingD:
  assumes "sk_inv s"
  shows "TDestroyed c \<in> skPend s l \<Longrightarrow> skObj s c = Some (kDisconnected, l)"
    and "TDestroyed c \<in> skTodo s l \<Longrightarrow> skObj s c = Some (kDisconnected, l)"
    and "TRemoveConnection c \<in> skPend s l \<Longrightarrow> \<exists>m. skObj s c = Some (kDisconnected, m)"
    and "TRemoveConnection c \<in> skTodo s l \<Longrightarrow> \<exists>m. skObj s c = Some (kDisconnected, m)"
    and "t \<in> skPend s l \<Longrightarrow> c \<in> set (rawRefs t) \<Longrightarrow> t = TClose c"
    and "t \<in> skTodo s l \<Longrightarrow> c \<in> set (rawRefs t) \<Longrightarrow> t = TClose c"
  using assms by (simp_all add: sk_inv_def sk_closing_def)

lemma sk_placesD:
  assumes "sk_inv s"
  shows "TEstablished c \<in> skPend s l \<Longrightarrow> \<exists>st. skObj s c = Some (st, l)"
    and "TEstablished c \<in> skTodo s l \<Longrightarrow> \<exists>st. skObj s c = Some (st, l)"
    and "t \<in> skPend s l \<Longrightarrow> homeTask t \<Longrightarrow> l = skHome s"
    and "t \<in> skTodo s l \<Longrightarrow> homeTask t \<Longrightarrow> l = skHome s"
    and "t \<in> skPend s l \<Longrightarrow> ownLoop t = Some m \<Longrightarrow> l = m"
    and "t \<in> skTodo s l \<Longrightarrow> ownLoop t = Some m \<Longrightarrow> l = m"
  using assms by (simp_all add: sk_inv_def sk_places_def skAt_def)

lemma sk_plainD:
  assumes "sk_inv s"
  shows "TClose c \<in> skPend s l \<Longrightarrow> (\<exists>st. skObj s c = Some (st, l)) \<and> (c \<in> skMap s \<or> TDestroyed c \<in> skPend s l)"
    and "TClose c \<in> skTodo s l \<Longrightarrow> (\<exists>st. skObj s c = Some (st, l))
       \<and> (c \<in> skMap s \<or> TDestroyed c \<in> skPend s l \<or> TDestroyed c \<in> skBatch s l)"
    and "c \<in> skAct s l \<Longrightarrow> (\<exists>st. skObj s c = Some (st, l)) \<and> (c \<in> skMap s \<or> TDestroyed c \<in> skPend s l)"
    and "c \<in> skReg s l \<Longrightarrow> (\<exists>st. skObj s c = Some (st, l))
       \<and> (c \<in> skMap s \<or> TDestroyed c \<in> skPend s l \<or> TDestroyed c \<in> skTodo s l)"
  using assms by (simp_all add: sk_inv_def sk_plain_def skAt_def anchored_def)

lemma sk_writtenD:
  assumes "sk_inv s"
  shows "TWriteComplete c \<in> skPend s l \<Longrightarrow>
          (\<exists>st. skObj s c = Some (st, l) \<and> st \<noteq> kDisconnected) \<and> skPolled s l \<and> c \<notin> skAct s l"
    and "TWriteComplete c \<in> skTodo s l \<Longrightarrow>
          (\<exists>st. skObj s c = Some (st, l)) \<and> (c \<in> skMap s \<or> TDestroyed c \<in> skPend s l)"
    and "skPolled s l \<Longrightarrow> skTodo s l = {}" and "\<not> skPolled s l \<Longrightarrow> skAct s l = {}"
    and "skPolled s l \<Longrightarrow> skBatch s l = {}"
  using assms by (simp_all add: sk_inv_def sk_written_def skAt_def anchored_def)

lemmas sk_dest = sk_objectsD [rotated] sk_closingD [rotated] sk_placesD(1,2) [rotated] sk_plainD [rotated] sk_writtenD [rotated]

text \<open>What is still kept after a batch has ended.\<close>

lemma drop_keeps:
  assumes "sk_inv s" and "skTodo s l = {}"
  shows "c \<in> skMap s \<Longrightarrow> c \<in> skStrong (skDrop l s)"
    and "t \<in> skPend s m \<Longrightarrow> c \<in> set (keeps t) \<Longrightarrow> c \<in> skStrong (skDrop l s)"
    and "t \<in> skTodo s m \<Longrightarrow> c \<in> set (keeps t) \<Longrightarrow> c \<in> skStrong (skDrop l s)"
    and "t \<in> skBatch s m \<Longrightarrow> m \<noteq> l \<Longrightarrow> c \<in> set (keeps t) \<Longrightarrow> c \<in> skStrong (skDrop l s)"
proof -
  have todo: "t \<in> skTodo s m \<Longrightarrow> m \<noteq> l \<and> t \<in> skBatch s m" for t m
    using sk_objectsD(4) [OF assms(1)] assms(2) by blast
  show "c \<in> skMap s \<Longrightarrow> c \<in> skStrong (skDrop l s)"
    "t \<in> skPend s m \<Longrightarrow> c \<in> set (keeps t) \<Longrightarrow> c \<in> skStrong (skDrop l s)"
    "t \<in> skBatch s m \<Longrightarrow> m \<noteq> l \<Longrightarrow> c \<in> set (keeps t) \<Longrightarrow> c \<in> skStrong (skDrop l s)"
    by (auto simp: skStrong_def)
  then show "t \<in> skTodo s m \<Longrightarrow> c \<in> set (keeps t) \<Longrightarrow> c \<in> skStrong (skDrop l s)" using todo by blast
qed

lemma drop_task:
  assumes "sk_inv s" and "skTodo s l = {}" and "t = TEstablished c \<or> t = TDestroyed c \<or> t = TRemoveConnection c \<or> t = TWriteComplete c"
  shows "t \<in> skPend s m \<Longrightarrow> c \<in> skStrong (skDrop l s)" "t \<in> skTodo s m \<Longrightarrow> c \<in> skStrong (skDrop l s)"
    "t \<in> skBatch s m \<Longrightarrow> m \<noteq> l \<Longrightarrow> c \<in> skStrong (skDrop l s)"
  using drop_keeps(2-4) [OF assms(1,2), of t m c] assms(3) by auto

lemma drop_plain:
  assumes "sk_inv s" and "skTodo s l = {}"
  shows "TClose c \<in> skPend s m \<Longrightarrow> c \<in> skStrong (skDrop l s)" "TClose c \<in> skTodo s m \<Longrightarrow> c \<in> skStrong (skDrop l s)"
    "c \<in> skAct s m \<Longrightarrow> c \<in> skStrong (skDrop l s)" "c \<in> skReg s m \<Longrightarrow> c \<in> skStrong (skDrop l s)"
proof -
  note d = drop_keeps(1) [OF assms] drop_task [OF assms, of "TDestroyed c" c]
  have "TClose c \<in> skTodo s m \<Longrightarrow> m \<noteq> l" using assms(2) by auto
  then show "TClose c \<in> skPend s m \<Longrightarrow> c \<in> skStrong (skDrop l s)" "TClose c \<in> skTodo s m \<Longrightarrow> c \<in> skStrong (skDrop l s)"
    "c \<in> skAct s m \<Longrightarrow> c \<in> skStrong (skDrop l s)" "c \<in> skReg s m \<Longrightarrow> c \<in> skStrong (skDrop l s)"
    using sk_plainD [OF assms(1), of c m] d by blast+
qed

lemmas drop_rules = drop_keeps drop_task(1,2) drop_plain

lemma sk_objects_step: "skel_step s s' \<Longrightarrow> sk_inv s \<Longrightarrow> sk_objects s'"
proof (induction rule: skel_step.induct)
  case (end_batch s l)
  note K = drop_rules [OF end_batch.prems end_batch.hyps]
  note D = sk_objectsD [OF end_batch.prems]
  let ?s = "(skDrop l s)\<lparr>skObj := skObj s |` skStrong (skDrop l s)\<rparr>"
  show ?case
  proof (rule sk_objectsI)
    fix c t m
    show "c \<in> dom (skObj ?s)" if "c \<in> skMap ?s" using that D(1) K(1) by simp
    show "c \<in> dom (skObj ?s)" if "t \<in> skPend ?s m" "c \<in> set (keeps t)" using that D(2) [of t m c] K(2) [of t m c] by simp
    show "c \<in> dom (skObj ?s)" if "t \<in> skBatch ?s m" "c \<in> set (keeps t)"
      using that D(3) [of t m c] K(4) [of t m c] by (simp split: if_splits)
  qed (use D(4,5) end_batch.hyps in \<open>auto simp: restrict_map_def split: if_splits\<close>)
qed (rule sk_objectsI; auto simp: skAt_def anchored_def dest: sk_dest split: if_splits)+


lemma sk_closingI:
  assumes "\<And>l c. TDestroyed c \<in> skPend s l \<Longrightarrow> skObj s c = Some (kDisconnected, l)"
    and "\<And>l c. TDestroyed c \<in> skTodo s l \<Longrightarrow> skObj s c = Some (kDisconnected, l)"
    and "\<And>l c. TRemoveConnection c \<in> skPend s l \<Longrightarrow> \<exists>m. skObj s c = Some (kDisconnected, m)"
    and "\<And>l c. TRemoveConnection c \<in> skTodo s l \<Longrightarrow> \<exists>m. skObj s c = Some (kDisconnected, m)"
    and "\<And>l c t. t \<in> skPend s l \<Longrightarrow> c \<in> set (rawRefs t) \<Longrightarrow> t = TClose c"
    and "\<And>l c t. t \<in> skTodo s l \<Longrightarrow> c \<in> set (rawRefs t) \<Longrightarrow> t = TClose c"
  shows "sk_closing s"
  using assms unfolding sk_closing_def by blast

lemma sk_closing_step: "skel_step s s' \<Longrightarrow> sk_inv s \<Longrightarrow> sk_closing s'"
proof (induction rule: skel_step.induct)
  case (end_batch s l)
  note K = drop_rules [OF end_batch.prems end_batch.hyps]
  show ?case by (rule sk_closingI) (use end_batch in \<open>auto simp: skAt_def anchored_def restrict_map_def dest: sk_dest intro: K split: if_splits\<close>)
qed (rule sk_closingI; auto simp: skAt_def anchored_def dest: sk_dest split: if_splits)+


lemma sk_placesI:
  assumes "\<And>l c. TEstablished c \<in> skPend s l \<Longrightarrow> \<exists>st. skObj s c = Some (st, l)"
    and "\<And>l c. TEstablished c \<in> skTodo s l \<Longrightarrow> \<exists>st. skObj s c = Some (st, l)"
    and "\<And>l t. t \<in> skPend s l \<Longrightarrow> homeTask t \<Longrightarrow> l = skHome s"
    and "\<And>l t. t \<in> skTodo s l \<Longrightarrow> homeTask t \<Longrightarrow> l = skHome s"
    and "\<And>l t m. t \<in> skPend s l \<Longrightarrow> ownLoop t = Some m \<Longrightarrow> l = m"
    and "\<And>l t m. t \<in> skTodo s l \<Longrightarrow> ownLoop t = Some m \<Longrightarrow> l = m"
  shows "sk_places s"
  using assms unfolding sk_places_def skAt_def by blast

lemma sk_places_step: "skel_step s s' \<Longrightarrow> sk_inv s \<Longrightarrow> sk_places s'"
proof (induction rule: skel_step.induct)
  case (end_batch s l)
  note K = drop_rules [OF end_batch.prems end_batch.hyps]
  show ?case by (rule sk_placesI)
      (use end_batch in \<open>auto simp: restrict_map_def dest: sk_dest sk_placesD(3-6) intro: K split: if_splits\<close>)
qed (rule sk_placesI; auto simp: skAt_def anchored_def dest: sk_dest sk_placesD(3-6) split: if_splits)+

lemma sk_plainI:
  assumes "\<And>l c. TClose c \<in> skPend s l \<Longrightarrow> (\<exists>st. skObj s c = Some (st, l)) \<and> (c \<in> skMap s \<or> TDestroyed c \<in> skPend s l)"
    and "\<And>l c. TClose c \<in> skTodo s l \<Longrightarrow> (\<exists>st. skObj s c = Some (st, l))
       \<and> (c \<in> skMap s \<or> TDestroyed c \<in> skPend s l \<or> TDestroyed c \<in> skBatch s l)"
    and "\<And>l c. c \<in> skAct s l \<Longrightarrow> (\<exists>st. skObj s c = Some (st, l)) \<and> (c \<in> skMap s \<or> TDestroyed c \<in> skPend s l)"
    and "\<And>l c. c \<in> skReg s l \<Longrightarrow> (\<exists>st. skObj s c = Some (st, l))
       \<and> (c \<in> skMap s \<or> TDestroyed c \<in> skPend s l \<or> TDestroyed c \<in> skTodo s l)"
  shows "sk_plain s"
  using assms unfolding sk_plain_def skAt_def anchored_def by blast

lemma sk_plain_step: "skel_step s s' \<Longrightarrow> sk_inv s \<Longrightarrow> sk_plain s'"
proof (induction rule: skel_step.induct)
  case (next_task T s l)
  have "TDestroyed c \<in> T" if "TDestroyed c \<in> skTodo s l" for c using next_task.hyps(2) [OF that] by auto
  with next_task.hyps(1) next_task.prems show ?case
    by (intro sk_plainI) (auto simp: anchored_def dest: sk_dest split: if_splits)
next
  case (end_batch s l)
  note K = drop_rules [OF end_batch.prems end_batch.hyps]
  show ?case by (rule sk_plainI) (use end_batch in \<open>auto simp: skAt_def anchored_def restrict_map_def dest: sk_dest intro: K split: if_splits\<close>)
qed (rule sk_plainI; auto simp: skAt_def anchored_def dest: sk_dest split: if_splits)+


lemma sk_writtenI:
  assumes "\<And>l c. TWriteComplete c \<in> skPend s l \<Longrightarrow>
          (\<exists>st. skObj s c = Some (st, l) \<and> st \<noteq> kDisconnected) \<and> skPolled s l \<and> c \<notin> skAct s l"
    and "\<And>l c. TWriteComplete c \<in> skTodo s l \<Longrightarrow>
          (\<exists>st. skObj s c = Some (st, l)) \<and> (c \<in> skMap s \<or> TDestroyed c \<in> skPend s l)"
    and "\<And>l. skPolled s l \<Longrightarrow> skTodo s l = {}" and "\<And>l. \<not> skPolled s l \<Longrightarrow> skAct s l = {}"
    and "\<And>l. skPolled s l \<Longrightarrow> skBatch s l = {}"
  shows "sk_written s"
  using assms unfolding sk_written_def skAt_def anchored_def by blast

lemma sk_written_step: "skel_step s s' \<Longrightarrow> sk_inv s \<Longrightarrow> sk_written s'"
proof (induction rule: skel_step.induct)
  case (close_ask s c st l)
  have "TWriteComplete c \<notin> skPend s m" for m
    using sk_writtenD(1) [OF close_ask.prems, of c m] close_ask.hyps by auto
  with close_ask show ?case by (intro sk_writtenI) (auto dest: sk_dest split: if_splits)
next
  case (close_here s c st l)
  have "TWriteComplete c \<notin> skPend s m" for m
    using sk_writtenD(1) [OF close_here.prems, of c m] close_here.hyps by auto
  with close_here show ?case by (intro sk_writtenI) (auto dest: sk_dest split: if_splits)
next
  case (end_batch s l)
  note K = drop_rules [OF end_batch.prems end_batch.hyps]
  show ?case by (rule sk_writtenI) (use end_batch in \<open>auto simp: skAt_def anchored_def restrict_map_def dest: sk_dest intro: K split: if_splits\<close>)
qed (rule sk_writtenI; auto simp: skAt_def anchored_def dest: sk_dest split: if_splits)+

lemma sk_exactI:
  assumes "\<And>c. c \<in> dom (skObj s) \<Longrightarrow> c \<in> skStrong s"
    and "\<And>c l. skObj s c = Some (kConnecting, l) \<Longrightarrow> TEstablished c \<in> skPend s l \<or> TEstablished c \<in> skTodo s l"
    and "\<And>c l. skObj s c = Some (kDisconnected, l) \<Longrightarrow> c \<in> skMap s
       \<Longrightarrow> TRemoveConnection c \<in> skPend s (skHome s) \<or> TRemoveConnection c \<in> skTodo s (skHome s)"
    and "\<And>c st l. skObj s c = Some (st, l) \<Longrightarrow> st = kConnected \<or> st = kDisconnecting \<Longrightarrow> c \<in> skReg s l"
  shows "sk_exact s"
  unfolding sk_exact_def using assms by blast

lemma sk_exactD:
  assumes "sk_inv s"
  shows "skObj s c = Some x \<Longrightarrow> c \<in> skStrong s"
    and "skObj s c = Some (kConnecting, l) \<Longrightarrow> TEstablished c \<in> skPend s l \<or> TEstablished c \<in> skTodo s l"
    and "skObj s c = Some (kDisconnected, l) \<Longrightarrow> c \<in> skMap s
       \<Longrightarrow> TRemoveConnection c \<in> skPend s (skHome s) \<or> TRemoveConnection c \<in> skTodo s (skHome s)"
    and "skObj s c = Some (st, l) \<Longrightarrow> st = kConnected \<or> st = kDisconnecting \<Longrightarrow> c \<in> skReg s l"
  using assms unfolding sk_inv_def sk_exact_def by blast+

lemma strong_mono:
  assumes "skMap s \<subseteq> skMap s'" and "\<And>l. skPend s l \<subseteq> skPend s' l" and "\<And>l. skBatch s l \<subseteq> skBatch s' l"
  shows "c \<in> skStrong s \<Longrightarrow> c \<in> skStrong s'"
  using assms unfolding skStrong_def by blast

lemma strong_unlink:
  "d \<in> skStrong s \<Longrightarrow> d \<in> skStrong (skQueue l (TDestroyed c) (s\<lparr>skObj := ob, skMap := skMap s - {c}\<rparr>))"
  "d \<in> skStrong s \<Longrightarrow> d \<in> skStrong (skQueue l (TDestroyed c) (s\<lparr>skMap := skMap s - {c}\<rparr>))"
  by (cases "d = c"; force simp: skStrong_def)+

lemma sk_kept_step: "skel_step s s' \<Longrightarrow> sk_inv s \<Longrightarrow> c \<in> dom (skObj s') \<Longrightarrow> c \<in> skStrong s'"
proof (induction rule: skel_step.induct)
  case (take_batch s l)
  then have "c \<in> skStrong s" "skBatch s l = {}" by (auto dest: sk_exactD(1) sk_writtenD(5))
  then show ?case by (auto simp: skStrong_def split: if_splits)
next
  case (end_batch s l)
  then have "c \<in> skStrong (skDrop l s)" by (auto simp: restrict_map_def split: if_splits)
  then show ?case by (simp add: skStrong_def)
next
  case (create_ask s d l)
  then have "c = d \<or> c \<in> skStrong s" by (auto dest: sk_exactD(1) split: if_splits)
  then show ?case by (auto simp: skStrong_def split: if_splits)
next
  case (create_here s d l)
  then have "c = d \<or> c \<in> skStrong s" by (auto dest: sk_exactD(1) split: if_splits)
  then show ?case by (auto simp: skStrong_def)
next
  case (remove s d l)
  then show ?case by (intro strong_unlink) (auto dest: sk_exactD(1))
next
  case (close_here s d st l)
  then show ?case by (intro strong_unlink) (auto dest: sk_exactD(1) split: if_splits)
qed (rule strong_mono [rotated -1], auto dest: sk_exactD(1) split: if_splits)+

lemma sk_exact_step:
  assumes "skel_step s s'" and "sk_inv s"
  shows "sk_exact s'"
proof (rule sk_exactI)
  fix c l st
  show "c \<in> skStrong s'" if "c \<in> dom (skObj s')" by (rule sk_kept_step [OF assms that])
  show "TEstablished c \<in> skPend s' l \<or> TEstablished c \<in> skTodo s' l" if "skObj s' c = Some (kConnecting, l)"
    using assms that sk_exactD(2) [OF assms(2), of c l]
  proof (cases rule: skel_step.cases)
    case (next_task T m)
    with that have "TEstablished c \<in> T" if "TEstablished c \<in> skTodo s m"
      using next_task(3) [OF that] by fastforce
    then show ?thesis using next_task that sk_exactD(2) [OF assms(2), of c l] by auto
  qed (auto simp: restrict_map_def dest: sk_dest split: if_splits)
  show "TRemoveConnection c \<in> skPend s' (skHome s') \<or> TRemoveConnection c \<in> skTodo s' (skHome s')"
    if "skObj s' c = Some (kDisconnected, l)" "c \<in> skMap s'"
    using assms that sk_exactD(3) [OF assms(2), of c l]
  proof (cases rule: skel_step.cases)
    case (next_task T m)
    with that have "TRemoveConnection c \<in> T" if "TRemoveConnection c \<in> skTodo s m"
      using next_task(3) [OF that] by fastforce
    then show ?thesis using next_task that sk_exactD(3) [OF assms(2), of c l] by auto
  qed (auto simp: restrict_map_def dest: sk_dest split: if_splits)
  show "c \<in> skReg s' l" if "skObj s' c = Some (st, l)" "st = kConnected \<or> st = kDisconnecting"
    using assms that sk_exactD(4) [OF assms(2), of c st l]
    by (cases rule: skel_step.cases) (auto simp: restrict_map_def dest: sk_dest split: if_splits)
qed

lemma sk_inv_step: "sk_inv s \<Longrightarrow> skel_step s s' \<Longrightarrow> sk_inv s'"
  using sk_objects_step sk_closing_step sk_places_step sk_plain_step sk_written_step sk_exact_step by (simp add: sk_inv_def)

lemma sk_inv_steps: "skel_step\<^sup>*\<^sup>* s s' \<Longrightarrow> sk_inv s \<Longrightarrow> sk_inv s'"
  by (induction rule: rtranclp_induct) (auto intro: sk_inv_step)

lemma skel_steps_home: "skel_step\<^sup>*\<^sup>* s s' \<Longrightarrow> skHome s' = skHome s"
  by (induction rule: rtranclp_induct) (auto elim!: skel_step.cases)

text \<open>Whatever a task of the batch or an event refers to exists.\<close>

lemma sk_task_live:
  assumes "sk_inv s" and "t \<in> skTodo s l" and "c \<in> set (keeps t) \<union> set (rawRefs t)"
  shows "skObj s c \<noteq> None"
proof (cases "c \<in> set (keeps t)")
  case True
  then show ?thesis using sk_objectsD(3,4) [OF assms(1)] assms(2) by blast
next
  case False
  then have "t = TClose c" using sk_closingD(6) [OF assms(1,2)] assms(3) by simp
  then show ?thesis using sk_plainD(2) [OF assms(1), of c l] assms(2) by auto
qed

lemma sk_event_live: "sk_inv s \<Longrightarrow> c \<in> skAct s l \<Longrightarrow> \<exists>st. skObj s c = Some (st, l)"
  using sk_plainD(3) by blast

end
