(* ===== verification/Connection_Effects.thy ===== *)
theory Connection_Effects
  imports Connection_Lifetime
begin

text \<open>
  What the handlers of a connection change, as far as the life time of connections depends on it.
  \<open>touch\<close> is the effect of most operations: the connection changes, keeps its identity and its
  state, and queues tasks on its loop. The callbacks of the HTTP and of the echo server only touch
  their connection and queue nothing but its closing (\<open>tame_user\<close>). The handlers that open and
  close a connection have effects of their own.
\<close>

section \<open>What an operation on one connection changes\<close>

text \<open>Apart from connections, queues, traces and interest sets, nothing.\<close>

definition calm :: "'x world \<Rightarrow> 'x world \<Rightarrow> bool" where
  "calm w w' \<longleftrightarrow> wServer w' = wServer w \<and> wHeld w' = wHeld w \<and> wBatch w' = wBatch w
     \<and> wNextAddr w' = wNextAddr w \<and> wLoopCount w' = wLoopCount w \<and> wOwn w' = wOwn w
     \<and> (\<forall>l. ep_registered (wPollers w' l) = ep_registered (wPollers w l))
     \<and> (\<forall>l. loopTid (wLoops w' l) = loopTid (wLoops w l) \<and> stopLooping (wLoops w' l) = stopLooping (wLoops w l))"

text \<open>The identity of a connection, and that a disconnected one watches nothing.\<close>

definition same_conn :: "'x conn \<Rightarrow> 'x conn \<Rightarrow> bool" where
  "same_conn k k' \<longleftrightarrow> cName k' = cName k \<and> cSock k' = cSock k \<and> cLoop k' = cLoop k
     \<and> chFd (cChannel k') = chFd (cChannel k) \<and> chId (cChannel k') = chId (cChannel k)
     \<and> chLoop (cChannel k') = chLoop (cChannel k)
     \<and> readCallback (cChannel k') = readCallback (cChannel k) \<and> writeCallback (cChannel k') = writeCallback (cChannel k)
     \<and> errorCallback (cChannel k') = errorCallback (cChannel k) \<and> closeCallback (cChannel k') = closeCallback (cChannel k)"

definition still :: "'x conn \<Rightarrow> bool" where
  "still k \<longleftrightarrow> (cState k = kDisconnected \<longrightarrow> isNoneEvent (cChannel k))"

text \<open>Connection \<open>c\<close> does its work and queues \<open>ts\<close> on its loop.\<close>

definition touch :: "nat \<Rightarrow> task list \<Rightarrow> 'x world \<Rightarrow> 'x world \<Rightarrow> bool" where
  "touch c ts w w' \<longleftrightarrow> calm w w' \<and> (\<exists>k k'. wConns w c = Some k \<and> wConns w' = (wConns w)(c \<mapsto> k')
     \<and> same_conn k k' \<and> cState k' = cState k \<and> (still k \<longrightarrow> still k')
     \<and> (\<forall>l. pendingTasks (wLoops w' l) = pendingTasks (wLoops w l) @ (if l = cLoop k then ts else [])))"

lemma calm_refl [simp]: "calm w w"
  by (simp add: calm_def)

lemma calm_trans: "calm w w1 \<Longrightarrow> calm w1 w2 \<Longrightarrow> calm w w2"
  by (simp add: calm_def)

lemma touchI:
  assumes "calm w w'" and "wConns w c = Some k" and "wConns w' = (wConns w)(c \<mapsto> k')" and "same_conn k k'"
    and "cState k' = cState k" and "still k \<Longrightarrow> still k'"
    and "\<And>l. pendingTasks (wLoops w' l) = pendingTasks (wLoops w l) @ (if l = cLoop k then ts else [])"
  shows "touch c ts w w'"
  using assms unfolding touch_def by blast

lemma touchE:
  assumes "touch c ts w w'" and "wConns w c = Some k"
  obtains k' where "calm w w'" "wConns w' = (wConns w)(c \<mapsto> k')" "same_conn k k'" "cState k' = cState k"
    "still k \<longrightarrow> still k'"
    "\<forall>l. pendingTasks (wLoops w' l) = pendingTasks (wLoops w l) @ (if l = cLoop k then ts else [])"
  using assms unfolding touch_def by auto

lemma touch_refl: "wConns w c = Some k \<Longrightarrow> touch c [] w w"
  by (rule touchI [where k' = k]) (auto simp: same_conn_def fun_upd_idem)

lemma touch_trans:
  assumes "touch c ts w w1" and "touch c ts' w1 w2"
  shows "touch c (ts @ ts') w w2"
proof -
  obtain k where k: "wConns w c = Some k" using assms(1) by (auto simp: touch_def)
  obtain k1 where 1: "calm w w1" "wConns w1 = (wConns w)(c \<mapsto> k1)" "same_conn k k1" "cState k1 = cState k"
    "still k \<longrightarrow> still k1"
    "\<forall>l. pendingTasks (wLoops w1 l) = pendingTasks (wLoops w l) @ (if l = cLoop k then ts else [])"
    by (rule touchE [OF assms(1) k])
  have k1: "wConns w1 c = Some k1" using 1(2) by simp
  obtain k2 where 2: "calm w1 w2" "wConns w2 = (wConns w1)(c \<mapsto> k2)" "same_conn k1 k2" "cState k2 = cState k1"
    "still k1 \<longrightarrow> still k2"
    "\<forall>l. pendingTasks (wLoops w2 l) = pendingTasks (wLoops w1 l) @ (if l = cLoop k1 then ts' else [])"
    by (rule touchE [OF assms(2) k1])
  show ?thesis
    by (rule touchI [OF calm_trans [OF 1(1) 2(1)] k, of k2]) (use 1 2 in \<open>simp_all add: same_conn_def\<close>)
qed

text \<open>Thread \<open>tid\<close> runs the loop of connection \<open>c\<close>.\<close>

definition mine :: "int \<Rightarrow> nat \<Rightarrow> 'x world \<Rightarrow> bool" where
  "mine tid c w \<longleftrightarrow> (\<exists>k. wConns w c = Some k \<and> isInLoopThread tid (wLoops w (cLoop k)))"

lemma mine_touch:
  assumes "mine tid c w" and "touch c ts w w'"
  shows "mine tid c w'"
proof -
  obtain k where k: "wConns w c = Some k" "isInLoopThread tid (wLoops w (cLoop k))" using assms(1) by (auto simp: mine_def)
  from touchE [OF assms(2) k(1)] show ?thesis
    using k(2) by (metis (no_types, lifting) calm_def fun_upd_same isInLoopThread_def mine_def same_conn_def)
qed

section \<open>Callbacks that only work on their connection\<close>

definition tame :: "nat \<Rightarrow> 'x world \<Rightarrow> 'x world result \<Rightarrow> bool" where
  "tame c w r \<longleftrightarrow>
     (case r of Inl e \<Rightarrow> orderly r | Inr w' \<Rightarrow> \<exists>n. touch c (replicate n (TClose c)) w w')"

lemma tame_return: "mine tid c w \<Longrightarrow> tame c w (Inr w)"
  by (auto simp: tame_def mine_def intro!: exI [of _ 0] touch_refl)

lemma tame_touch: "touch c [] w w' \<Longrightarrow> tame c w (Inr w')"
  by (auto simp: tame_def intro!: exI [of _ 0])

lemma tame_via:
  assumes "touch c [] w w1" and "tame c w1 r"
  shows "tame c w r"
  using assms(2) touch_trans [OF assms(1)] by (fastforce simp: tame_def split: sum.splits)

lemma tame_bind:
  assumes "tame c w m" and "mine tid c w" and "\<And>w'. mine tid c w' \<Longrightarrow> tame c w' (f w')"
  shows "tame c w (bindR m f)"
proof (cases m)
  case (Inr w')
  then obtain n where n: "touch c (replicate n (TClose c)) w w'" using assms(1) by (auto simp: tame_def)
  with assms(2,3) have "tame c w' (f w')" by (blast intro: mine_touch)
  then show ?thesis using Inr touch_trans [OF n]
    by (auto simp: tame_def split: sum.splits) (metis replicate_add)
qed (use assms(1) in \<open>simp add: tame_def\<close>)

lemma tame_other: "orderly m \<Longrightarrow> (\<And>x. tame c w (f x)) \<Longrightarrow> tame c w (bindR m f)"
  by (cases m) (simp_all add: tame_def)

lemma tame_fault: "orderly (Inl e) \<Longrightarrow> tame c w (Inl e)"
  by (simp add: tame_def)

lemma tame_withConn:
  "mine tid c w \<Longrightarrow> (\<And>k. wConns w c = Some k \<Longrightarrow> tame c w (f k)) \<Longrightarrow> tame c w (withConn c w f)"
  by (auto simp: mine_def withConn_def)

lemma tame_if: "(b \<Longrightarrow> tame c w m) \<Longrightarrow> (\<not> b \<Longrightarrow> tame c w m') \<Longrightarrow> tame c w (if b then m else m')"
  by simp

lemma tame_assertR: "(b \<Longrightarrow> tame c w m) \<Longrightarrow> tame c w (assertR b m)"
  by (simp add: assertR_def tame_def)

lemma tame_assertIn: "isInLoopThread tid (wLoops w' l) \<Longrightarrow> tame c w m \<Longrightarrow> tame c w (assertIn tid l w' m)"
  by (simp add: assertIn_yes)

lemma mine_here: "mine tid c w \<Longrightarrow> wConns w c = Some k \<Longrightarrow> isInLoopThread tid (wLoops w (cLoop k))"
  by (simp add: mine_def)

lemma tame_runInLoop: "mine tid c w \<Longrightarrow> wConns w c = Some k \<Longrightarrow> tame c w (cb w) \<Longrightarrow> tame c w (runInLoop tid (cLoop k) t cb w)"
  by (simp add: mine_def runInLoop_def)

lemmas tame_rules = tame_return tame_withConn tame_if tame_assertR tame_assertIn tame_runInLoop mine_here

subsection \<open>Primitive changes\<close>

lemma touch_put:
  assumes "wConns w c = Some k" and "same_conn k k'" and "cState k' = cState k" and "still k \<Longrightarrow> still k'"
  shows "touch c [] w (putConn c k' w)"
  by (rule touchI [OF _ assms(1) _ assms(2-4)]) (auto simp: calm_def)

lemma touch_emit: "wConns w c = Some k \<Longrightarrow> touch c [] w (emit e w)"
  by (rule touchI [where k' = k]) (auto simp: calm_def same_conn_def fun_upd_idem)

lemma touch_pollers:
  "wConns w c = Some k \<Longrightarrow> ep_registered p = ep_registered (wPollers w l) \<Longrightarrow> touch c [] w (w\<lparr>wPollers := (wPollers w)(l := p)\<rparr>)"
  by (rule touchI [where k' = k]) (auto simp: calm_def same_conn_def fun_upd_idem)

lemma touch_queue: "wConns w c = Some k \<Longrightarrow> touch c [t] w (queueTask (cLoop k) t w)"
  by (rule touchI [where k' = k])
    (auto simp: calm_def same_conn_def fun_upd_idem queueTask_def perform_queue pushTask_def wakeup_def)

lemma ep_update_keeps: "ep_step (UpdateChannel ch) p = Inr p' \<Longrightarrow> ep_registered p' = ep_registered p"
  by (auto simp: ep_updateChannel_def ep_registered_def ep_update_def assertR_def fun_eq_iff split: option.splits if_splits)

lemma tame_pollerOp:
  assumes "wConns w c = Some k" and "isInLoopThread tid (wLoops w l)"
  shows "tame c w (pollerOp tid l (UpdateChannel ch) w)"
proof -
  have "tame c w (bindR (ep_step (UpdateChannel ch) (wPollers w l)) (\<lambda>p. Inr (w\<lparr>wPollers := (wPollers w)(l := p)\<rparr>)))"
    using orderly_poller [of "UpdateChannel ch" "wPollers w l"] ep_update_keeps [of ch "wPollers w l"]
    by (cases "ep_step (UpdateChannel ch) (wPollers w l)")
      (auto simp: orderly_def intro: tame_fault tame_touch touch_pollers [OF assms(1)])
  then show ?thesis unfolding pollerOp_def by (rule tame_assertIn [OF assms(2)])
qed

lemma tame_update: "mine tid c w \<Longrightarrow> tame c w (loopUpdateChannel tid c w)"
  unfolding loopUpdateChannel_def connPollerOp_def by (intro tame_rules tame_pollerOp) assumption+

lemma tame_interest:
  assumes "mine tid c w" and "wConns w c = Some k" and "same_conn k (k\<lparr>cChannel := f (cChannel k)\<rparr>)"
    and "still k \<Longrightarrow> still (k\<lparr>cChannel := f (cChannel k)\<rparr>)"
  shows "tame c w (changeInterest tid f c w)"
proof -
  have t: "touch c [] w (putConn c (k\<lparr>cChannel := f (cChannel k)\<rparr>) w)"
    by (rule touch_put [OF assms(2,3)]) (use assms(4) in simp_all)
  show ?thesis unfolding changeInterest_def withConn_Some [OF assms(2)]
    by (rule tame_via [OF t tame_update [OF mine_touch [OF assms(1) t]]])
qed

lemma tame_enableWriting:
  assumes "mine tid c w" and "wConns w c = Some k" and "cState k \<noteq> kDisconnected"
  shows "tame c w (enableWriting tid e c w)"
  unfolding enableWriting_def using assms
  by (intro tame_interest) (auto simp: same_conn_def writingEvents_def still_def)

lemma tame_sendInLoop:
  assumes "mine tid c w"
  shows "tame c w (sendInLoop tid msg c w)"
  unfolding sendInLoop_def
proof (intro tame_withConn [OF assms] tame_assertIn tame_if tame_other orderly_buffer)
  fix k b
  assume k: "wConns w c = Some k" "cState k = kConnected"
  have t: "touch c [] w (putConn c (k\<lparr>cOutput := b\<rparr>) w)"
    by (rule touch_put [OF k(1)]) (use k(2) in \<open>simp_all add: same_conn_def still_def\<close>)
  have "tame c (putConn c (k\<lparr>cOutput := b\<rparr>) w) (enableWriting tid True c (putConn c (k\<lparr>cOutput := b\<rparr>) w))"
    by (rule tame_enableWriting [OF mine_touch [OF assms t], of "k\<lparr>cOutput := b\<rparr>"]) (use k(2) in simp_all)
  with t show "tame c w (let w1 = putConn c (k\<lparr>cOutput := b\<rparr>) w
      in if \<not> isWriting (cChannel k) then enableWriting tid True c w1 else Inr w1)"
    by (simp add: Let_def tame_via tame_touch)
qed (rule mine_here [OF assms], assumption, rule tame_return [OF assms])

lemma tame_send: "mine tid c w \<Longrightarrow> tame c w (send tid msg c w)"
  unfolding send_def by (intro tame_rules tame_sendInLoop) assumption+

lemma tame_close: "mine tid c w \<Longrightarrow> tame c w (close c w)"
  by (auto simp: close_def mine_def withConn_Some tame_def intro!: exI [of _ "Suc 0"] touch_queue)

section \<open>The callbacks of the servers\<close>

text \<open>
  The contract of the callbacks: on the thread of the connection's loop they work on their
  connection only, and all they queue is its closing.
\<close>

locale tame_user = quiet_user cbs for cbs :: "'x callbacks" +
  assumes msg_tame: "mine tid c w \<Longrightarrow> tame c w (msgCallback cbs tid c t w)"
    and complete_tame: "writeCompleteCallback cbs = Some f \<Longrightarrow> mine tid c w \<Longrightarrow> tame c w (f tid c w)"

lemma tame_echo_onMsg:
  assumes "mine tid c w"
  shows "tame c w (echo_onMsg tid c t w)"
  unfolding echo_onMsg_def Let_def case_prod_unfold
proof (intro tame_withConn [OF assms])
  fix k
  assume "wConns w c = Some k"
  then have t: "touch c [] w (putConn c (k\<lparr>cInput := b\<rparr>) w)" for b
    by (rule touch_put) (simp_all add: same_conn_def still_def)
  show "tame c w (send tid (fst (retrieveAsString (cInput k))) c
      (putConn c (k\<lparr>cInput := snd (retrieveAsString (cInput k))\<rparr>) w))"
    by (rule tame_via [OF t tame_send [OF mine_touch [OF assms t]]])
qed

interpretation echo_tame: tame_user echoCbs
  by unfold_locales (auto simp: echoCbs_def intro!: tame_echo_onMsg)

lemma touch_context:
  "wConns w c = Some k \<Longrightarrow> touch c [] w (putConn c (k\<lparr>cContext := ctx\<rparr>) w)"
  "wConns w c = Some k \<Longrightarrow> touch c [] w (putConn c (k\<lparr>cContext := ctx, cInput := b\<rparr>) w)"
  by (rule touch_put; simp add: same_conn_def still_def)+

lemma tame_putContext: "mine tid c w \<Longrightarrow> tame c w (putContext c ctx w)"
  unfolding putContext_def by (intro tame_withConn) (auto intro: tame_touch touch_context)

lemma tame_sendResponse: "mine tid c w \<Longrightarrow> tame c w (sendResponse tid resp c w)"
  unfolding sendResponse_def by (rule tame_bind [OF tame_send _ tame_send])

text \<open>Results that carry a value beside the world.\<close>

lemma tame_pair:
  assumes "tame c w (mapR snd m)" and "mine tid c w" and "\<And>x w'. mine tid c w' \<Longrightarrow> tame c w' (f (x, w'))"
  shows "tame c w (bindR m f)"
proof (cases m)
  case (Inr y)
  have "tame c w (bindR (Inr (snd y)) (\<lambda>w'. f (fst y, w')))"
    by (rule tame_bind [OF _ assms(2) assms(3)]) (use assms(1) Inr in simp)
  then show ?thesis using Inr by simp
qed (use assms(1) in simp)

lemma tame_decode:
  assumes "mine tid c w"
  shows "tame c w (mapR snd (decodeHttpRequest c w))"
proof -
  obtain k where k: "wConns w c = Some k" using assms by (auto simp: mine_def)
  show ?thesis
  proof (cases "tryDecode (ctxReq (getContext k)) (cInput k)")
    case None
    then show ?thesis using k
      by (auto simp: decodeHttpRequest_def withConn_Some Let_def intro: tame_touch touch_context tame_fault)
  next
    case (Some m)
    then show ?thesis using k orderly_decode [OF Some]
      by (cases m) (auto simp: decodeHttpRequest_def withConn_Some Let_def case_prod_unfold
          intro: tame_touch touch_context tame_fault)
  qed
qed

lemma tame_onMsg:
  assumes "mine tid c w"
  shows "tame c w (onMsg env rp tid c t w)"
  unfolding onMsg_def
proof (rule tame_pair [OF tame_decode [OF assms] assms], unfold prod.case)
  fix code and w1 :: http_world
  assume m: "mine tid c w1"
  have "tame c w1 (bindR (putContext c ctx w1) (sendResponse tid resp c))" for ctx resp
    by (rule tame_bind [OF tame_putContext [OF m] m tame_sendResponse])
  then have "tame c w1 (bindR (loadResponse env rp code1 req resp0) (\<lambda>resp.
      bindR (putContext c (ctx\<lparr>ctxResp := resp\<rparr>) w1) (\<lambda>w2. sendResponse tid resp c w2)))" for code1 req resp0 ctx
    by (intro tame_other [OF orderly_load])
  then show "tame c w1 (if code = NO_REQUEST then Inr w1
       else withConn c w1 (\<lambda>k.
         let ctx = getContext k;
             retcode1 = (if code = GET_REQUEST then handleRequest env rp (ctxReq ctx) else code)
         in bindR (loadResponse env rp retcode1 (ctxReq ctx) (ctxResp ctx)) (\<lambda>resp.
            bindR (putContext c (ctx\<lparr>ctxResp := resp\<rparr>) w1) (\<lambda>w2. sendResponse tid resp c w2))))"
    unfolding Let_def by (intro tame_if tame_return [OF m] tame_withConn [OF m])
qed

lemma touch_closes: "wConns w c = Some k \<Longrightarrow> touch c [] w (fold (\<lambda>fd. emit (SysClose fd)) fds w)"
proof (induction fds arbitrary: w)
  case (Cons fd fds)
  have "touch c [] (emit (SysClose fd) w) (fold (\<lambda>fd. emit (SysClose fd)) fds (emit (SysClose fd) w))"
    by (rule Cons.IH) (use Cons.prems in simp)
  then show ?case using touch_trans [OF touch_emit [OF Cons.prems]] by fastforce
qed (simp add: touch_refl)

lemma tame_finishResponse:
  assumes "mine tid c w"
  shows "tame c w (finishResponse c w)"
proof -
  have "tame c w (bindR (putContext c ctx (fold (\<lambda>fd. emit (SysClose fd)) fds w)) (\<lambda>w2. if b then close c w2 else Inr w2))"
    if "wConns w c = Some k" for k ctx fds b
  proof -
    note t = touch_closes [OF that, of fds]
    note m = mine_touch [OF assms t]
    show ?thesis by (rule tame_via [OF t tame_bind [OF tame_putContext [OF m] m]])
        (auto intro: tame_close tame_return)
  qed
  then show ?thesis unfolding finishResponse_def Let_def case_prod_unfold by (intro tame_withConn [OF assms])
qed

lemma tame_sendfile:
  assumes "mine tid c w"
  shows "tame c w (mapR snd (sendfile tid fd res c w))"
proof -
  obtain k where "wConns w c = Some k" using assms by (auto simp: mine_def)
  then show ?thesis using assms
    by (auto simp: mine_def sendfile_def withConn_Some assertIn_yes assertR_def
        intro: tame_fault tame_touch touch_emit touch_refl)
qed

lemma tame_onWriteComplete:
  assumes "mine tid c w"
  shows "tame c w (onWriteComplete env tid c w)"
proof -
  have run: "tame c w0 (bindR (sendfile tid fd res c w0) (\<lambda>(ret, w1). if 0 < ret then send tid [] c w1 else finishResponse c w1))"
    if "mine tid c w0" for fd res and w0 :: http_world
    by (rule tame_pair [OF tame_sendfile [OF that] that]) (auto intro: tame_send tame_finishResponse)
  have "tame c w (if b then finishResponse c (putConn c (k\<lparr>cContext := ctx\<rparr>) w) else if b' then
      bindR (sendfile tid fd (res (putConn c (k\<lparr>cContext := ctx\<rparr>) w)) c (putConn c (k\<lparr>cContext := ctx\<rparr>) w))
        (\<lambda>(ret, w1). if 0 < ret then send tid [] c w1 else finishResponse c w1)
      else Inr (putConn c (k\<lparr>cContext := ctx\<rparr>) w))" if "wConns w c = Some k" for b b' k fd res ctx
  proof -
    note t = touch_context(1) [OF that, of ctx]
    note m = mine_touch [OF assms t]
    show ?thesis by (rule tame_via [OF t]) (auto intro: tame_finishResponse [OF m] run [OF m] tame_return [OF m])
  qed
  then show ?thesis unfolding onWriteComplete_def Let_def by (intro tame_withConn [OF assms])
qed

interpretation http_tame: tame_user "httpCallbacks env rp" for env rp
  by unfold_locales (auto simp: httpCallbacks_def intro!: tame_onMsg tame_onWriteComplete)

section \<open>The other handlers\<close>

text \<open>A result is an orderly fault or satisfies a predicate.\<close>

definition outcome :: "('a \<Rightarrow> bool) \<Rightarrow> 'a result \<Rightarrow> bool" where
  "outcome P r \<longleftrightarrow> (case r of Inl e \<Rightarrow> orderly r | Inr x \<Rightarrow> P x)"

lemma outcome_simps [simp]: "outcome P (Inr x) = P x" "outcome P (Inl e) = (e \<noteq> UseAfterFree \<and> e \<noteq> Aborted)"
  by (simp_all add: outcome_def)

lemma outcome_bind: "outcome Q m \<Longrightarrow> (\<And>x. Q x \<Longrightarrow> outcome P (f x)) \<Longrightarrow> outcome P (bindR m f)"
  by (cases m) simp_all

lemma bindR_return: "bindR m Inr = m"
  by (cases m) simp_all

lemma outcome_weaken: "outcome Q m \<Longrightarrow> (\<And>x. Q x \<Longrightarrow> P x) \<Longrightarrow> outcome P m"
  by (cases m) simp_all

lemma outcome_assert: "(b \<Longrightarrow> outcome P m) \<Longrightarrow> outcome P (assertR b m)" "isInLoopThread tid (wLoops w l) \<Longrightarrow> outcome P m \<Longrightarrow> outcome P (assertIn tid l w m)"
  by (simp_all add: assertR_def assertIn_yes)

lemma tame_outcome: "tame c w r \<longleftrightarrow> outcome (\<lambda>w'. \<exists>n. touch c (replicate n (TClose c)) w w') r"
  by (simp add: tame_def outcome_def)

lemma outcome_orderly: "orderly m \<Longrightarrow> outcome (\<lambda>x. m = Inr x) m"
  by (cases m) simp_all

text \<open>Changing the interest on the loop's thread.\<close>

definition rewatched :: "nat \<Rightarrow> 'x conn \<Rightarrow> 'x world \<Rightarrow> 'x world \<Rightarrow> bool" where
  "rewatched c k w w' \<longleftrightarrow> (\<exists>p. w' = (putConn c k w)\<lparr>wPollers := (wPollers w)(cLoop k := p)\<rparr>
     \<and> ep_registered p = ep_registered (wPollers w (cLoop k)))"

lemma changeInterest_outcome:
  assumes "wConns w c = Some k" and "isInLoopThread tid (wLoops w (cLoop k))"
  shows "outcome (rewatched c (k\<lparr>cChannel := f (cChannel k)\<rparr>) w) (changeInterest tid f c w)"
proof -
  let ?k = "k\<lparr>cChannel := f (cChannel k)\<rparr>"
  have "outcome (rewatched c ?k w) (bindR (ep_step (UpdateChannel ch) (wPollers w (cLoop k)))
      (\<lambda>p. Inr ((putConn c ?k w)\<lparr>wPollers := (wPollers w)(cLoop k := p)\<rparr>)))" for ch
    by (rule outcome_bind [OF outcome_orderly [OF orderly_poller]])
      (auto simp: rewatched_def simp del: ep_step.simps dest: ep_update_keeps)
  then show ?thesis using assms
    by (auto simp: changeInterest_def loopUpdateChannel_def connPollerOp_def pollerOp_def world_simps intro!: outcome_assert)
qed

text \<open>Closing: the connection is disconnected and watches nothing, then it is unlinked, or its loop asks for it.\<close>

definition shut :: "nat \<Rightarrow> 'x conn \<Rightarrow> 'x world \<Rightarrow> 'x world \<Rightarrow> bool" where
  "shut c k1 w w1 \<longleftrightarrow> calm w w1 \<and> (\<forall>l. pendingTasks (wLoops w1 l) = pendingTasks (wLoops w l))
     \<and> wConns w1 = (wConns w)(c \<mapsto> k1) \<and> (\<exists>k. wConns w c = Some k \<and> same_conn k k1)
     \<and> cState k1 = kDisconnected \<and> isNoneEvent (cChannel k1)"

definition unlinked :: "nat \<Rightarrow> 'x conn \<Rightarrow> 'x world \<Rightarrow> 'x world" where
  "unlinked c k w = queueTask (cLoop k) (TDestroyed c)
     (putServer ((wServer w)\<lparr>srvConns := filter (\<lambda>e. fst e \<noteq> cName k) (srvConns (wServer w))\<rparr>) w)"

lemma removeInLoop_outcome:
  "wConns w c = Some k \<Longrightarrow> isInLoopThread tid (wLoops w (srvLoop (wServer w))) \<Longrightarrow> outcome (\<lambda>w'. w' = unlinked c k w) (removeConnectionInLoop tid c w)"
  by (simp add: removeConnectionInLoop_def withConn_Some unlinked_def Let_def outcome_assert)

lemma remove_outcome:
  "wConns w c = Some k \<Longrightarrow> outcome (\<lambda>w'. w' = unlinked c k w
     \<or> w' = queueTask (srvLoop (wServer w)) (TRemoveConnection c) w) (removeConnection tid c w)"
  using removeInLoop_outcome [of w c k tid] by (auto simp: removeConnection_def runInLoop_def elim: outcome_weaken)

context quiet_user
begin

lemma close_outcome:
  assumes "mine tid c w"
  shows "outcome (\<lambda>w'. \<exists>k1 w1. shut c k1 w w1
      \<and> (w' = unlinked c k1 w1 \<or> w' = queueTask (srvLoop (wServer w)) (TRemoveConnection c) w1)) (handleClose tid cbs c w)"
proof -
  obtain k where k: "wConns w c = Some k" "isInLoopThread tid (wLoops w (cLoop k))"
    using assms by (auto simp: mine_def)
  let ?k1 = "k\<lparr>cState := kDisconnected\<rparr>" and ?k2 = "k\<lparr>cState := kDisconnected, cChannel := noEvents (cChannel k)\<rparr>"
  have "outcome (rewatched c ?k2 (putConn c ?k1 w)) (disableAll tid c (putConn c ?k1 w))"
    unfolding disableAll_def using changeInterest_outcome [of "putConn c ?k1 w" c ?k1 tid noEvents] k(2) by simp
  moreover have "outcome (\<lambda>w'. \<exists>k1 w1. shut c k1 w w1
      \<and> (w' = unlinked c k1 w1 \<or> w' = queueTask (srvLoop (wServer w)) (TRemoveConnection c) w1)) (removeConnection tid c w2)"
    if "rewatched c ?k2 (putConn c ?k1 w) w2" for w2
  proof -
    have s: "shut c ?k2 w w2" "wConns w2 c = Some ?k2" "wServer w2 = wServer w"
      using that k(1) by (auto simp: rewatched_def shut_def calm_def same_conn_def noEvents_def isNoneEvent_def)
    show ?thesis by (rule outcome_weaken [OF remove_outcome [OF s(2)]]) (use s in auto)
  qed
  ultimately show ?thesis using k
    by (auto simp: handleClose_def setState_def world_simps quiet intro!: outcome_assert elim: outcome_bind)
qed

end

lemma rewatched_touch:
  assumes "wConns w c = Some k" and "same_conn k k'" and "cState k' = cState k" and "still k \<Longrightarrow> still k'"
    and "rewatched c k' w w'"
  shows "touch c [] w w'"
  using assms(5) by (intro touchI [OF _ assms(1) _ assms(2-4)]) (auto simp: rewatched_def calm_def)

text \<open>Writing: at most the task for the write-complete callback is queued, and not after the closing.\<close>

definition wrote :: "nat \<Rightarrow> 'x world \<Rightarrow> 'x world \<Rightarrow> bool" where
  "wrote c w w' \<longleftrightarrow> touch c [] w w'
     \<or> (touch c [TWriteComplete c] w w' \<and> (\<exists>k. wConns w c = Some k \<and> cState k \<noteq> kDisconnected))"

lemma still_writing: "still k \<Longrightarrow> isWriting (cChannel k) \<Longrightarrow> cState k \<noteq> kDisconnected"
  by (auto simp: still_def isNoneEvent_def isWriting_def kNoneEvent_def)

lemma write_outcome:
  assumes "wConns w c = Some k" and "isInLoopThread tid (wLoops w (cLoop k))" and "still k"
  shows "outcome (wrote c w) (conn_handleWrite tid cbs res c w)"
proof (cases "isWriting (cChannel k)")
  case True
  note st = still_writing [OF assms(3) True]
  have self: "wrote c w w" using touch_refl [OF assms(1)] by (simp add: wrote_def)
  have fin: "outcome (wrote c w) (if readableBytes b = 0
      then bindR (enableWriting tid False c (putConn c (k\<lparr>cOutput := b\<rparr>) w1)) (\<lambda>w3.
           let w4 = (if writeCompleteCallback cbs \<noteq> None then queueTask (cLoop k) (TWriteComplete c) w3 else w3)
           in if cState k = kDisconnecting then shutdownInLoop tid c w4 else Inr w4)
      else Inr (putConn c (k\<lparr>cOutput := b\<rparr>) w1))"
    if t1: "touch c [] w w1" and w1: "wConns w1 c = Some k" "isInLoopThread tid (wLoops w1 (cLoop k))" for w1 b
  proof -
    let ?k1 = "k\<lparr>cOutput := b\<rparr>"
    let ?k2 = "?k1\<lparr>cChannel := writingEvents False (cChannel k)\<rparr>"
    have "touch c [] w1 (putConn c ?k1 w1)" by (rule touch_put [OF w1(1)]) (simp_all add: same_conn_def still_def)
    from touch_trans [OF t1 this] have t2: "touch c [] w (putConn c ?k1 w1)" by simp
    have "outcome (rewatched c ?k2 (putConn c ?k1 w1)) (enableWriting tid False c (putConn c ?k1 w1))"
      using changeInterest_outcome [of "putConn c ?k1 w1" c ?k1 tid] w1(2) by (simp add: enableWriting_def)
    moreover have "outcome (wrote c w) (let w4 = (if q then queueTask (cLoop k) (TWriteComplete c) w3 else w3)
           in if cState k = kDisconnecting then shutdownInLoop tid c w4 else Inr w4)"
      if re: "rewatched c ?k2 (putConn c ?k1 w1) w3" for w3 q
    proof -
      have "touch c [] (putConn c ?k1 w1) w3"
        by (rule rewatched_touch [of "putConn c ?k1 w1" c ?k1, OF _ _ _ _ re]) (use st in \<open>auto simp: same_conn_def still_def writingEvents_def\<close>)
      from touch_trans [OF t2 this] have t3: "touch c [] w w3" by simp
      have w3: "wConns w3 c = Some ?k2" "isInLoopThread tid (wLoops w3 (cLoop k))"
        using re w1(2) by (auto simp: rewatched_def)
      have t4: "touch c [TWriteComplete c] w (queueTask (cLoop k) (TWriteComplete c) w3)"
        using touch_trans [OF t3 touch_queue [OF w3(1)]] by simp
      have sh: "cState k = kDisconnecting \<Longrightarrow> shutdownInLoop tid c w4 = Inr w4"
        if "wConns w4 c = Some ?k2" "isInLoopThread tid (wLoops w4 (cLoop k))" for w4 :: "'a world"
        using that by (simp add: shutdownInLoop_def world_simps)
      show ?thesis using t3 t4 st assms(1) w3 sh [of w3] sh [of "queueTask (cLoop k) (TWriteComplete c) w3"]
        by (auto simp: wrote_def Let_def)
    qed
    ultimately show ?thesis using t2 by (auto simp: wrote_def elim: outcome_bind)
  qed
  have em: "touch c [] w (if p then emit e w else w)" "wConns (if p then emit e w else w) c = Some k"
    "isInLoopThread tid (wLoops (if p then emit e w else w) (cLoop k))" for p e
    using assms(1,2) touch_refl [OF assms(1)] touch_emit [OF assms(1)] by simp_all
  show ?thesis
  proof (cases "if 0 < readableBytes (cOutput k) then res else Wrote 0")
    case (WriteError e)
    then show ?thesis using True self assms(1,2) by (simp add: conn_handleWrite_def world_simps)
  next
    case (Wrote n)
    have "conn_handleWrite tid cbs res c w = bindR (retrieve n (cOutput k)) (\<lambda>b.
        let w2 = putConn c (k\<lparr>cOutput := b\<rparr>)
          (if 0 < readableBytes (cOutput k) then emit (SysWrite (chFd (cChannel k)) (readString (cOutput k) n)) w else w)
        in if readableBytes b = 0
           then bindR (enableWriting tid False c w2) (\<lambda>w3.
                let w4 = (if writeCompleteCallback cbs \<noteq> None then queueTask (cLoop k) (TWriteComplete c) w3 else w3)
                in if cState k = kDisconnecting then shutdownInLoop tid c w4 else Inr w4)
           else Inr w2)"
      using True Wrote assms(1,2) by (simp add: conn_handleWrite_def world_simps Let_def)
    also have "outcome (wrote c w) \<dots>"
      unfolding Let_def [of "putConn _ _ _"] by (rule outcome_bind [OF outcome_orderly [OF orderly_buffer(1)] fin [OF em]])
    finally show ?thesis .
  qed
next
  case False
  then show ?thesis using assms touch_refl [OF assms(1)]
    by (simp add: conn_handleWrite_def world_simps wrote_def)
qed

text \<open>Establishing registers the channel, destroying removes it; a disconnected connection runs no callback.\<close>

definition enrolled :: "nat \<Rightarrow> 'x conn \<Rightarrow> 'x world \<Rightarrow> 'x world \<Rightarrow> bool" where
  "enrolled c k w w' \<longleftrightarrow> (\<exists>p. w' = (putConn c (k\<lparr>cState := kConnected, cChannel := readingEvents True (cChannel k)\<rparr>) w)
        \<lparr>wPollers := (wPollers w)(cLoop k := p)\<rparr>
     \<and> cState k = kConnecting \<and> ep_registered (wPollers w (cLoop k)) (chFd (cChannel k)) = None
     \<and> ep_registered p = (ep_registered (wPollers w (cLoop k)))(chFd (cChannel k) \<mapsto> chId (cChannel k)))"

lemma ep_add_registered:
  "ep_step (AddChannel ch) p = Inr p' \<Longrightarrow> ep_registered p (chFd ch) = None
     \<and> ep_registered p' = (ep_registered p)(chFd ch \<mapsto> chId ch)"
  by (auto simp: ep_addChannel_def ep_updateChannel_def ep_registered_def ep_update_def assertR_def fun_eq_iff
      split: option.splits if_splits)

lemma ep_delete_registered:
  "ep_step (RemoveChannel ch) p = Inr p' \<Longrightarrow> ep_registered p (chFd ch) = Some (chId ch)
     \<and> ep_registered p' = (ep_registered p)(chFd ch := None)"
  by (auto simp: ep_removeChannel_def ep_registered_def ep_update_def assertR_def fun_eq_iff Let_def
      split: option.splits if_splits)

context quiet_user
begin

lemma established_outcome:
  assumes "wConns w c = Some k" and "isInLoopThread tid (wLoops w (cLoop k))"
  shows "outcome (enrolled c k w) (connectEstablished tid cbs c w)"
proof -
  let ?l = "cLoop k" and ?k1 = "k\<lparr>cState := kConnected\<rparr>"
  let ?w1 = "putConn c ?k1 w" and ?k2 = "k\<lparr>cState := kConnected, cChannel := readingEvents True (cChannel k)\<rparr>"
  have add: "outcome (\<lambda>w2. \<exists>p. w2 = ?w1\<lparr>wPollers := (wPollers w)(?l := p)\<rparr>
      \<and> ep_step (AddChannel (cChannel k)) (wPollers w ?l) = Inr p) (loopAddChannel tid c ?w1)"
    using assms(2)
    by (auto simp: loopAddChannel_def connPollerOp_def pollerOp_def world_simps
        intro!: outcome_assert outcome_bind [OF outcome_orderly [OF orderly_poller]] simp del: ep_step.simps)
  have "outcome (enrolled c k w) (enableReading tid True c (?w1\<lparr>wPollers := (wPollers w)(?l := p)\<rparr>))"
    if "ep_step (AddChannel (cChannel k)) (wPollers w ?l) = Inr p" "cState k = kConnecting" for p
  proof -
    let ?w2 = "?w1\<lparr>wPollers := (wPollers w)(?l := p)\<rparr>"
    have "outcome (rewatched c ?k2 ?w2) (enableReading tid True c ?w2)"
      using changeInterest_outcome [of ?w2 c ?k1 tid] assms(2) by (simp add: enableReading_def)
    then show ?thesis
      by (rule outcome_weaken) (use that ep_add_registered [OF that(1)] in \<open>auto simp: rewatched_def enrolled_def putConn_def\<close>)
  qed
  then show ?thesis using assms
    by (auto simp: connectEstablished_def setState_def world_simps quiet bindR_return intro!: outcome_assert outcome_bind [OF add])
qed

end

definition retired :: "nat \<Rightarrow> 'x conn \<Rightarrow> 'x world \<Rightarrow> 'x world \<Rightarrow> bool" where
  "retired c k w w' \<longleftrightarrow> (\<exists>p. w' = w\<lparr>wPollers := (wPollers w)(cLoop k := p)\<rparr>
     \<and> ep_registered (wPollers w (cLoop k)) (chFd (cChannel k)) = Some (chId (cChannel k))
     \<and> ep_registered p = (ep_registered (wPollers w (cLoop k)))(chFd (cChannel k) := None))"

lemma destroyed_outcome:
  assumes "wConns w c = Some k" and "isInLoopThread tid (wLoops w (cLoop k))" and "cState k = kDisconnected"
  shows "outcome (retired c k w) (connectDestroyed tid cbs c w)"
proof -
  have "outcome (retired c k w) (bindR (ep_step (RemoveChannel (cChannel k)) (wPollers w (cLoop k)))
      (\<lambda>p. Inr (w\<lparr>wPollers := (wPollers w)(cLoop k := p)\<rparr>)))"
    by (rule outcome_bind [OF outcome_orderly [OF orderly_poller]], unfold outcome_simps retired_def)
      (blast dest: ep_delete_registered)
  then show ?thesis using assms
    by (auto simp: connectDestroyed_def loopRemoveChannel_def connPollerOp_def pollerOp_def world_simps
        simp del: ep_step.simps intro!: outcome_assert)
qed

section \<open>What the contract excludes\<close>

text \<open>The batch in which a connection asks for its closing in the next one and is destroyed.\<close>

lemma queue_close_batch:
  assumes "conn_attached tid c k w" and "cState k = kDisconnected" and "isNoneEvent (cChannel k)"
    and "pendingTasks (wLoops w (cLoop k)) = [TQueueClose c, TDestroyed c]" and "c < wNextAddr w"
    and "c \<notin> snd ` set (srvConns (wServer w))" and "c \<notin> set (wHeld w)"
    and "\<forall>m. m \<noteq> cLoop k \<longrightarrow> c \<notin> set (concat (map keeps (pendingTasks (wLoops w m) @ wBatch w m)))"
  obtains w' where "doPendingTasks tid cbs (cLoop k) w = Inr w'" "wConns w' c = None"
    "pendingTasks (wLoops w' (cLoop k)) = [TClose c]"
proof -
  let ?l = "cLoop k" and ?ts = "[TQueueClose c, TDestroyed c]"
  let ?w1 = "(putLoop ?l ((wLoops w ?l)\<lparr>pendingTasks := []\<rparr>) w)\<lparr>wBatch := (wBatch w)(?l := ?ts)\<rparr>"
  let ?w2 = "queueTask ?l (TClose c) ?w1"
  have "conn_attached tid c k ?w1" using assms(1) by (auto simp: conn_attached_def isInLoopThread_def split: if_splits)
  then have at: "conn_attached tid c k ?w2" by simp
  obtain p where p: "connectDestroyed tid cbs c ?w2 = Inr (?w2\<lparr>wPollers := (wPollers ?w2)(?l := p)\<rparr>)"
    using destroyed_after_close [OF at assms(2,3), of cbs] by metis
  let ?w3 = "?w2\<lparr>wPollers := (wPollers ?w2)(?l := p), wBatch := (wBatch w)(?l := [])\<rparr>"
  have "doPendingTasks tid cbs ?l w = Inr (reap ?w3)"
    using p assms(4) conn_attachedD(1) [OF assms(1)]
    by (simp add: doPendingTasks_def takeTasks_def runTasks_def queueClose_def withConn_Some)
  moreover have "c \<notin> set (kept ?w3)" using assms(6-8) by (auto simp: kept_def)
  then have "wConns (reap ?w3) c = None" using assms(5) by (simp add: reap_conns)
  ultimately show thesis by (rule that) simp
qed

text \<open>
  C36: \<open>closeInNextLoop\<close> is not safe against a peer that closes. When it is called for an open
  connection that only the server's map keeps, and the peer closes the connection in the same
  turn of the loop, the next batch queues the closing with a plain pointer and destroys the
  connection, and the batch after it runs into the destroyed object.
\<close>

theorem close_in_next_loop_faults:
  assumes "\<forall>tid c w. connectionCallback cbs tid c w = Inr w"
    and "conn_attached tid c k w" and "cState k = kConnected \<or> cState k = kDisconnecting"
    and "sole_owner c k w" and "pendingTasks (wLoops w (cLoop k)) = []"
  shows "\<exists>w1 w2 w3. closeInNextLoop c w = Inr w1 \<and> handleClose tid cbs c w1 = Inr w2
    \<and> doPendingTasks tid cbs (cLoop k) w2 = Inr w3 \<and> doPendingTasks tid cbs (cLoop k) w3 = Inl UseAfterFree"
proof -
  have q: "quiet_user cbs" using assms(1) by (simp add: quiet_user_def)
  let ?w1 = "queueTask (cLoop k) (TQueueClose c) w"
  have c1: "closeInNextLoop c w = Inr ?w1" using conn_attachedD(1) [OF assms(2)] by (simp add: closeInNextLoop_def withConn_Some)
  have at: "conn_attached tid c k ?w1" using assms(2) by simp
  note own = assms(4) [unfolded sole_owner_def]
  have srv: "srvLoop (wServer ?w1) = cLoop k" "map_of (srvConns (wServer ?w1)) (cName k) \<noteq> None"
    using own weak_map_of_SomeI [of "cName k" c] by auto
  obtain w2 k2 where w2: "handleClose tid cbs c ?w1 = Inr w2" "conn_attached tid c k2 w2" "cState k2 = kDisconnected"
    "isNoneEvent (cChannel k2)" "cLoop k2 = cLoop k"
    "srvConns (wServer w2) = filter (\<lambda>e. fst e \<noteq> cName k) (srvConns (wServer w))"
    "\<And>l. pendingTasks (wLoops w2 l) = pendingTasks (wLoops ?w1 l) @ (if l = cLoop k then [TDestroyed c] else [])"
    "wHeld w2 = wHeld w" "wBatch w2 = wBatch w" "wNextAddr w2 = wNextAddr w"
    using quiet_user.closed [OF q at assms(3) srv] by (metis world_queue)
  obtain w3 where w3: "doPendingTasks tid cbs (cLoop k2) w2 = Inr w3" "wConns w3 c = None"
    "pendingTasks (wLoops w3 (cLoop k2)) = [TClose c]"
    by (rule queue_close_batch [OF w2(2-4), of cbs]) (use own assms(5) w2(5-) in auto)
  then have "doPendingTasks tid cbs (cLoop k) w3 = Inl UseAfterFree"
    by (simp add: w2(5) doPendingTasks_def takeTasks_def runTasks_def closeInLoop_def withConn_None)
  with c1 w2(1,5) w3(1) show ?thesis by auto
qed

theorem close_in_next_loop_faults_witness:
  "\<exists>w w1 w2 w3. closeInNextLoop 1 (w :: unit world) = Inr w1 \<and> handleClose 1 quietCbs 1 w1 = Inr w2
     \<and> doPendingTasks 1 quietCbs 0 w2 = Inr w3 \<and> doPendingTasks 1 quietCbs 0 w3 = Inl UseAfterFree"
proof -
  obtain w :: "unit world" and k where w: "conn_attached 1 1 k w" "cState k = kConnected" "cSock k = 5"
    "wServer w = wServer (acceptedWorld :: unit world)" "cName k = ''srv#1''" "cLoop k = 0"
    "wLoops w = wLoops (acceptedWorld :: unit world)"
    "wHeld w = []" "wBatch w = (\<lambda>_. [])" "wNextAddr w = 2" "wLoopCount w = 1"
    using established_world by metis
  have "\<forall>tid c w. connectionCallback quietCbs tid c w = Inr w" by (simp add: quietCbs_def)
  from close_in_next_loop_faults [OF this w(1)] w(2-) show ?thesis
    by - (rule exI [of _ w], auto simp: acceptedWorld_def freshServer_def sole_owner_def)
qed

end
