(* ===== verification/Server_System.thy ===== *)
theory Server_System
  imports Connection_Protocol Connection_Effects
begin

text \<open>
  A server with its loops as one system. Every loop runs \<^verbatim>\<open>EventLoop::loop\<close>: it takes the queued
  tasks, runs them one by one, polls, and handles the reported events one by one; the loops
  interleave between these actions. \<open>skelOf\<close> abstracts a state of the system to one of
  \<open>Connection_Protocol\<close>, \<open>world_ok\<close> is the invariant of what the abstraction leaves out, and the
  effects of \<open>Connection_Effects\<close> are shown to be steps of the protocol.
\<close>

section \<open>Model\<close>

record 'x server_sys =
  syWorld :: "'x world"
  syTodo :: "nat \<Rightarrow> task list"
  syActive :: "nat \<Rightarrow> (nat \<times> 32 word) list"
  syPolled :: "nat \<Rightarrow> bool"

text \<open>
  The actions of loop \<open>l\<close>, with what the system calls return: \<open>SPoll\<close> gets the channels that
  \<^verbatim>\<open>epoll_wait(2)\<close> reports, \<open>SEvent\<close> the results of reading, writing and accepting. Address 0 is the
  acceptor, 1 and 2 are the loop's own channels.
\<close>

datatype sys_op =
    SStart nat int
  | STake nat
  | SRun nat
  | SPoll nat "(nat \<times> 32 word) list"
  | SEvent nat readv_result write_result int "(int \<times> sockaddr_in \<times> int \<times> sockaddr_in) list"

text \<open>
  The handlers of a loop's own channels. No function of the library or of the servers adds a timer
  to the loops, so the timer queue is the one that the constructor leaves.
\<close>

fun ownCall :: "int \<Rightarrow> nat \<Rightarrow> loop_cb call \<Rightarrow> 'x world \<Rightarrow> 'x world result" where
  "ownCall tid l (CallAt LoopHandleRead t) w = Inr (putLoop l (loop_handleRead (wLoops w l)) w)"
| "ownCall tid l (CallAt TimerHandleRead t) w =
     bindR (tq_handleRead id (isInLoopThread tid (wLoops w l)) t t (\<lambda>_. []) newTimerQueue) (\<lambda>_. Inr w)"
| "ownCall tid l _ w = Inr w"

definition ownEvent :: "int \<Rightarrow> int \<Rightarrow> 32 word \<Rightarrow> nat \<Rightarrow> own_channel \<Rightarrow> 'x world \<Rightarrow> 'x world result" where
  "ownEvent tid recvTime revents l x w =
     (let ch = setRevents revents (wOwn w l x)
      in runR (ownCall tid l) (handleEvent recvTime ch) (putOwn l x ch w))"

fun sys_step :: "'x callbacks \<Rightarrow> sys_op \<Rightarrow> 'x server_sys \<Rightarrow> 'x server_sys result" where
  "sys_step cbs (SStart l tid) s =
     bindR (startLooping tid (wLoops (syWorld s) l)) (\<lambda>el. Inr (s\<lparr>syWorld := putLoop l el (syWorld s)\<rparr>))"
| "sys_step cbs (STake l) s =
     (let w = syWorld s; (ts, el) = takeTasks (wLoops w l)
      in Inr (s\<lparr>syWorld := (putLoop l el w)\<lparr>wBatch := (wBatch w)(l := ts)\<rparr>,
                syTodo := (syTodo s)(l := ts), syPolled := (syPolled s)(l := False)\<rparr>))"
| "sys_step cbs (SRun l) s =
     (case syTodo s l of
        [] \<Rightarrow> Inr s
      | t # ts \<Rightarrow> bindR (runTask (loopTid (wLoops (syWorld s) l)) cbs t (syWorld s))
                    (\<lambda>w. Inr (s\<lparr>syWorld := w, syTodo := (syTodo s)(l := ts)\<rparr>)))"
| "sys_step cbs (SPoll l evs) s =
     (let w = syWorld s
      in Inr (s\<lparr>syWorld := reap (w\<lparr>wBatch := (wBatch w)(l := [])\<rparr>),
                syActive := (syActive s)(l := evs), syPolled := (syPolled s)(l := True)\<rparr>))"
| "sys_step cbs (SEvent l rres wres t rs) s =
     (case syActive s l of
        [] \<Rightarrow> Inr s
      | (c, revents) # evs \<Rightarrow>
          (let w = syWorld s; tid = loopTid (wLoops w l)
           in bindR (if c = 0 then acceptor_handleRead tid cbs rs w
                     else if c = ownId WakeupChannel then ownEvent tid t revents l WakeupChannel w
                     else if c = ownId TimerChannel then ownEvent tid t revents l TimerChannel w
                     else connEvent tid cbs rres wres t revents c w)
                (\<lambda>w1. Inr (s\<lparr>syWorld := w1, syActive := (syActive s)(l := evs)\<rparr>))))"

text \<open>
  When an action is possible. \<^verbatim>\<open>epoll_wait(2)\<close> reports every channel at most once and only
  registered ones; connection numbers stay in the range of \<^verbatim>\<open>int\<close>.
\<close>

definition looping :: "nat \<Rightarrow> 'x server_sys \<Rightarrow> bool" where
  "looping l s \<longleftrightarrow> l < wLoopCount (syWorld s) \<and> \<not> stopLooping (wLoops (syWorld s) l)"

text \<open>Nothing is queued and no loop is running tasks: every loop waits for events or handles them.\<close>

definition sys_idle :: "'x server_sys \<Rightarrow> bool" where
  "sys_idle s \<longleftrightarrow> (\<forall>l < wLoopCount (syWorld s). syPolled s l \<and> pendingTasks (wLoops (syWorld s) l) = [])"

fun sys_enabled :: "sys_op \<Rightarrow> 'x server_sys \<Rightarrow> bool" where
  "sys_enabled (SStart l tid) s \<longleftrightarrow> l < wLoopCount (syWorld s) \<and> stopLooping (wLoops (syWorld s) l)"
| "sys_enabled (STake l) s \<longleftrightarrow> looping l s \<and> syPolled s l \<and> syActive s l = []"
| "sys_enabled (SRun l) s \<longleftrightarrow> looping l s \<and> syTodo s l \<noteq> []"
| "sys_enabled (SPoll l evs) s \<longleftrightarrow> looping l s \<and> \<not> syPolled s l \<and> syTodo s l = []
     \<and> distinct (map fst evs) \<and> (\<forall>c \<in> set (map fst evs). \<exists>fd. ep_registered (wPollers (syWorld s) l) fd = Some c)"
| "sys_enabled (SEvent l rres wres t rs) s \<longleftrightarrow> looping l s \<and> syActive s l \<noteq> []
     \<and> srvNextId (wServer (syWorld s)) + int (length rs) \<le> 2 ^ 31"

inductive sys_reach :: "'x callbacks \<Rightarrow> 'x server_sys \<Rightarrow> 'x server_sys \<Rightarrow> bool" for cbs s0 where
  start: "sys_reach cbs s0 s0"
| step: "sys_reach cbs s0 s \<Longrightarrow> sys_enabled x s \<Longrightarrow> sys_step cbs x s = Inr s' \<Longrightarrow> sys_reach cbs s0 s'"

text \<open>
  The callbacks of a \<^verbatim>\<open>TcpServer\<close> are empty until they are set; calling an empty \<^verbatim>\<open>std::function\<close>
  raises an exception, and only the write-complete callback is tested before it is called.
\<close>

definition noCallbacks :: "'x callbacks" where
  "noCallbacks = \<lparr>connectionCallback = (\<lambda>_ _ _. Inl Uncaught), msgCallback = (\<lambda>_ _ _ _. Inl Uncaught),
                  writeCompleteCallback = None\<rparr>"

definition setConnectionCallback :: "(int \<Rightarrow> nat \<Rightarrow> 'x world \<Rightarrow> 'x world result) \<Rightarrow> 'x callbacks \<Rightarrow> 'x callbacks" where
  "setConnectionCallback cb cbs = cbs\<lparr>connectionCallback := cb\<rparr>"

definition setMsgCallback :: "(int \<Rightarrow> nat \<Rightarrow> int \<Rightarrow> 'x world \<Rightarrow> 'x world result) \<Rightarrow> 'x callbacks \<Rightarrow> 'x callbacks" where
  "setMsgCallback cb cbs = cbs\<lparr>msgCallback := cb\<rparr>"

definition setWriteCompleteCallback :: "(int \<Rightarrow> nat \<Rightarrow> 'x world \<Rightarrow> 'x world result) \<Rightarrow> 'x callbacks \<Rightarrow> 'x callbacks" where
  "setWriteCompleteCallback cb cbs = cbs\<lparr>writeCompleteCallback := Some cb\<rparr>"

text \<open>
  The constructor of \<^verbatim>\<open>EventLoop\<close> for loop \<open>l\<close>: \<open>rets\<close> are the results of \<^verbatim>\<open>epoll_create1(2)\<close>,
  \<^verbatim>\<open>eventfd(2)\<close> and \<^verbatim>\<open>timerfd_create(2)\<close>. It watches the two channels of the loop, which no thread runs
  yet, so that the registrations are queued.
\<close>

definition watchLoop :: "int \<Rightarrow> nat \<Rightarrow> own_channel \<Rightarrow> 'x world \<Rightarrow> 'x world result" where
  "watchLoop tid l x w =
     bindR (runInLoop tid l (TOwnAdd l x) (ownOp tid AddChannel l x) w) (\<lambda>w1.
     runInLoop tid l (TOwnUpdate l x) (ownOp tid UpdateChannel l x)
       (putOwn l x (readingEvents True (wOwn w1 l x)) w1))"

definition constructLoop :: "int \<Rightarrow> int \<times> int \<times> int \<Rightarrow> nat \<Rightarrow> 'x world \<Rightarrow> 'x world result" where
  "constructLoop tid rets l w =
     (case rets of (epRet, evRet, tfRet) \<Rightarrow>
        bindR (createEPollPoller epRet) (\<lambda>poller.
        bindR (createEventfd evRet) (\<lambda>wakeupFd.
        let w1 = w\<lparr>wLoops := (wLoops w)(l := newEventLoop), wPollers := (wPollers w)(l := poller)\<rparr>;
            w2 = putOwn l WakeupChannel (setReadCallback LoopHandleRead (newChannel (ownId WakeupChannel) l wakeupFd)) w1;
            w3 = putOwn l TimerChannel
                   (setReadCallback TimerHandleRead (newChannel (ownId TimerChannel) l (createTimerfd tfRet))) w2
        in bindR (watchLoop tid l WakeupChannel w3) (watchLoop tid l TimerChannel))))"

text \<open>
  The programs: \<^verbatim>\<open>main\<close> constructs the loops, \<^verbatim>\<open>EventLoops\<close> itself and then its sub loops, and the server,
  starts the server on the main thread and enters \<^verbatim>\<open>loop()\<close>. No loop runs yet when \<^verbatim>\<open>start()\<close> is called;
  \<^verbatim>\<open>EventLoops::loop\<close> starts one thread for every sub loop (\<open>SStart\<close>). \<open>rets\<close> are the results of
  \<^verbatim>\<open>socket\<close>, \<^verbatim>\<open>setsockopt\<close> and \<^verbatim>\<open>bind\<close>, \<open>lrets l\<close> those of the constructor of loop \<open>l\<close>. \<open>initWorld\<close> is the
  world before anything is constructed; its server is overwritten.
\<close>

definition initWorld :: "nat \<Rightarrow> (effect \<Rightarrow> int) \<Rightarrow> tcp_server \<Rightarrow> 'x world" where
  "initWorld loopNum kern srv =
     \<lparr>wLoopCount = loopNum + 1, wLoops = (\<lambda>_. newEventLoop), wPollers = (\<lambda>_. newEPollPoller),
      wOwn = (\<lambda>l x. newChannel (ownId x) l (-1)), wConns = Map.empty,
      wNextAddr = 3, wServer = srv, wBatch = (\<lambda>_. []), wHeld = [], wTrace = [], wKernel = kern\<rparr>"

definition constructLoops :: "int \<Rightarrow> (nat \<Rightarrow> int \<times> int \<times> int) \<Rightarrow> nat \<Rightarrow> 'x world \<Rightarrow> 'x world result" where
  "constructLoops tid lrets loopNum w = runR (\<lambda>l. constructLoop tid (lrets l) l) [0..<loopNum + 1] w"

definition bootServer :: "int \<Rightarrow> int \<times> int \<times> int \<Rightarrow> (nat \<Rightarrow> int \<times> int \<times> int) \<Rightarrow> (effect \<Rightarrow> int) \<Rightarrow> nat
    \<Rightarrow> sockaddr_in \<Rightarrow> 'x world result" where
  "bootServer tid rets lrets kern loopNum addr =
     (case rets of (sockRet, optRet, bindRet) \<Rightarrow>
        bindR (constructLoops tid lrets loopNum (initWorld loopNum kern (freshServer addr (-1) (newEventLoops loopNum)))) (\<lambda>w.
        bindR (newServer sockRet optRet bindRet addr (newEventLoops loopNum)) (\<lambda>srv.
        start tid (putServer srv w))))"

definition echosvr_main :: "int \<Rightarrow> int \<times> int \<times> int \<Rightarrow> (nat \<Rightarrow> int \<times> int \<times> int) \<Rightarrow> (effect \<Rightarrow> int) \<Rightarrow> string list
    \<Rightarrow> unit world result" where
  "echosvr_main tid rets lrets kern args = bindR (echo_main_addr args) (bootServer tid rets lrets kern 0)"

definition httpsvr_main :: "int \<Rightarrow> int \<times> int \<times> int \<Rightarrow> (nat \<Rightarrow> int \<times> int \<times> int) \<Rightarrow> (effect \<Rightarrow> int) \<Rightarrow> string list
    \<Rightarrow> http_context world result" where
  "httpsvr_main tid rets lrets kern args =
     (if 2 < length args then Inl Aborted
      else let port = (if length args = 2 then atoi (args ! 1) else 9982)
           in bootServer tid rets lrets kern 16 (listenAddr (word_of_int port)))"

definition launched :: "'x world \<Rightarrow> 'x server_sys" where
  "launched w = \<lparr>syWorld = w, syTodo = (\<lambda>_. []), syActive = (\<lambda>_. []), syPolled = (\<lambda>_. True)\<rparr>"

text \<open>The callbacks of the two servers are what their programs set.\<close>

lemma server_callbacks:
  "echoCbs = setMsgCallback echo_onMsg (setConnectionCallback echo_onState noCallbacks)"
  "httpCallbacks env rp = setWriteCompleteCallback (onWriteComplete env)
     (setMsgCallback (onMsg env rp) (setConnectionCallback onState noCallbacks))"
  by (simp_all add: echoCbs_def httpCallbacks_def setMsgCallback_def setConnectionCallback_def
      setWriteCompleteCallback_def noCallbacks_def)

text \<open>A server that is started without a connection callback fails at its first connection.\<close>

lemma unset_callback_uncaught:
  assumes "wConns w c = Some k" and "conn_ok c k" and "cState k = kConnecting"
    and "isInLoopThread tid (wLoops w (cLoop k))" and "ep_inv (wPollers w (cLoop k))"
    and "ep_registered (wPollers w (cLoop k)) (cSock k) = None"
  shows "connectEstablished tid noCallbacks c w = Inl Uncaught"
proof -
  let ?quiet = "noCallbacks\<lparr>connectionCallback := \<lambda>_ _ w. Inr w\<rparr>"
  have q: "quiet_user ?quiet" by unfold_locales simp
  obtain w' where "connectEstablished tid ?quiet c w = Inr w'"
    using quiet_user.established [OF q assms] by metis
  then show ?thesis using assms(1,3,4)
    by (auto simp: connectEstablished_def noCallbacks_def withConn_Some assertIn_yes result_simps)
qed

section \<open>The abstraction\<close>

definition skelOf :: "(nat \<Rightarrow> task list) \<Rightarrow> (nat \<Rightarrow> (nat \<times> 32 word) list) \<Rightarrow> (nat \<Rightarrow> bool) \<Rightarrow> 'x world \<Rightarrow> skel" where
  "skelOf td ac po w =
     \<lparr>skHome = srvLoop (wServer w), skMap = snd ` set (srvConns (wServer w)),
      skObj = (\<lambda>c. map_option (\<lambda>k. (cState k, cLoop k)) (wConns w c)),
      skPend = (\<lambda>l. set (pendingTasks (wLoops w l))),
      skTodo = (\<lambda>l. set (td l)), skBatch = (\<lambda>l. set (wBatch w l)),
      skAct = (\<lambda>l. fst ` set (ac l) - {..2}), skPolled = po,
      skReg = (\<lambda>l. {c. 2 < c \<and> (\<exists>fd. ep_registered (wPollers w l) fd = Some c)})\<rparr>"

definition sysSkel :: "'x server_sys \<Rightarrow> skel" where
  "sysSkel s = skelOf (syTodo s) (syActive s) (syPolled s) (syWorld s)"

text \<open>What the abstraction leaves out: the loops and the server, and the identities of the connections.\<close>

text \<open>The channel with address \<open>c\<close> in the poller of loop \<open>l\<close>, when it is not a connection's, and its descriptor.\<close>

definition hostChannel :: "tcp_server \<Rightarrow> (nat \<Rightarrow> own_channel \<Rightarrow> loop_cb channel) \<Rightarrow> nat \<Rightarrow> nat \<Rightarrow> int \<Rightarrow> bool" where
  "hostChannel srv own l c fd \<longleftrightarrow>
       (c = 0 \<and> l = srvLoop srv \<and> fd = chFd (srvAcceptChannel srv))
     \<or> (c = ownId WakeupChannel \<and> fd = chFd (own l WakeupChannel))
     \<or> (c = ownId TimerChannel \<and> fd = chFd (own l TimerChannel))"

lemma hostChannel_frame [simp]:
  "hostChannel (s\<lparr>srvConns := x\<rparr>) own = hostChannel s own" "hostChannel (s\<lparr>srvNextId := i\<rparr>) own = hostChannel s own"
  "hostChannel (s\<lparr>srvLoops := e\<rparr>) own = hostChannel s own"
  "hostChannel (s\<lparr>srvListening := b\<rparr>) own = hostChannel s own"
  "hostChannel (s\<lparr>srvAcceptChannel := readingEvents b (srvAcceptChannel s)\<rparr>) own = hostChannel s own"
  by (simp_all add: fun_eq_iff hostChannel_def readingEvents_def)

definition hosts_ok :: "'x world \<Rightarrow> bool" where
  "hosts_ok w \<longleftrightarrow> srvLoop (wServer w) < wLoopCount w \<and> elSize (srvLoops (wServer w)) < wLoopCount w
     \<and> (elSize (srvLoops (wServer w)) = 0 \<or> elNext (srvLoops (wServer w)) < elSize (srvLoops (wServer w)))
     \<and> chId (srvAcceptChannel (wServer w)) = 0 \<and> 1 \<le> srvNextId (wServer w) \<and> 2 < wNextAddr w \<and> wHeld w = []
     \<and> (\<forall>l \<ge> wLoopCount w. pendingTasks (wLoops w l) = [] \<and> wBatch w l = [])
     \<and> (\<forall>l x. chId (wOwn w l x) = ownId x)
     \<and> (\<forall>l fd c. ep_registered (wPollers w l) fd = Some c \<longrightarrow> c \<le> 2 \<longrightarrow> hostChannel (wServer w) (wOwn w) l c fd)"

definition conn_wf :: "'x world \<Rightarrow> nat \<Rightarrow> 'x conn \<Rightarrow> bool" where
  "conn_wf w c k \<longleftrightarrow> 2 < c \<and> c < wNextAddr w \<and> cLoop k < wLoopCount w \<and> chFd (cChannel k) = cSock k
     \<and> chId (cChannel k) = c \<and> still k
     \<and> readCallback (cChannel k) = Some ConnHandleRead \<and> writeCallback (cChannel k) = Some ConnHandleWrite
     \<and> errorCallback (cChannel k) = None \<and> closeCallback (cChannel k) = None
     \<and> (\<exists>i. 1 \<le> i \<and> i < srvNextId (wServer w) \<and> cName k = connName (wServer w) i)"

definition conns_ok :: "'x world \<Rightarrow> bool" where
  "conns_ok w \<longleftrightarrow> (\<forall>c k. wConns w c = Some k \<longrightarrow> conn_wf w c k)
     \<and> (\<forall>c d k j. wConns w c = Some k \<longrightarrow> wConns w d = Some j \<longrightarrow> cName j = cName k \<longrightarrow> d = c)
     \<and> (\<forall>n c k. (n, c) \<in> set (srvConns (wServer w)) \<longrightarrow> wConns w c = Some k \<longrightarrow> cName k = n)
     \<and> (\<forall>l fd c k. ep_registered (wPollers w l) fd = Some c \<longrightarrow> 2 < c \<longrightarrow> wConns w c = Some k \<longrightarrow> cSock k = fd)"

definition world_ok :: "'x world \<Rightarrow> bool" where
  "world_ok w \<longleftrightarrow> hosts_ok w \<and> conns_ok w"

lemma skelOf_simps [simp]:
  "skHome (skelOf td ac po w) = srvLoop (wServer w)"
  "skMap (skelOf td ac po w) = snd ` set (srvConns (wServer w))"
  "skObj (skelOf td ac po w) c = map_option (\<lambda>k. (cState k, cLoop k)) (wConns w c)"
  "skPend (skelOf td ac po w) l = set (pendingTasks (wLoops w l))"
  "skTodo (skelOf td ac po w) l = set (td l)" "skBatch (skelOf td ac po w) l = set (wBatch w l)"
  "skAct (skelOf td ac po w) l = fst ` set (ac l) - {..2}" "skPolled (skelOf td ac po w) = po"
  "skReg (skelOf td ac po w) l = {c. 2 < c \<and> (\<exists>fd. ep_registered (wPollers w l) fd = Some c)}"
  by (simp_all add: skelOf_def)

lemma skel_eqI:
  assumes "skHome s = skHome s'" "skMap s = skMap s'" "\<And>c. skObj s c = skObj s' c" "\<And>l. skPend s l = skPend s' l" "\<And>l. skTodo s l = skTodo s' l"
    "\<And>l. skBatch s l = skBatch s' l" "\<And>l. skAct s l = skAct s' l" "\<And>l. skPolled s l = skPolled s' l" "\<And>l. skReg s l = skReg s' l"
  shows "s = (s' :: skel)"
  by (rule skel.equality) (use assms in auto)

lemma queue_skel: "skelOf td ac po (queueTask l t w) = skQueue l t (skelOf td ac po w)"
  by (rule skel_eqI) auto

text \<open>A step of the server: the world stays well-formed and the abstraction makes steps of the protocol.\<close>

definition steady :: "'x world \<Rightarrow> 'x world \<Rightarrow> bool" where
  "steady w w' \<longleftrightarrow> wLoopCount w' = wLoopCount w
     \<and> (\<forall>tid l. isInLoopThread tid (wLoops w' l) = isInLoopThread tid (wLoops w l))"

definition follows :: "(nat \<Rightarrow> task list) \<Rightarrow> (nat \<Rightarrow> (nat \<times> 32 word) list) \<Rightarrow> (nat \<Rightarrow> bool) \<Rightarrow> 'x world \<Rightarrow> 'x world \<Rightarrow> bool" where
  "follows td ac po w w' \<longleftrightarrow> world_ok w' \<and> steady w w'
     \<and> skel_step\<^sup>*\<^sup>* (skelOf td ac po w) (skelOf td ac po w')"

definition fit :: "(nat \<Rightarrow> task list) \<Rightarrow> (nat \<Rightarrow> (nat \<times> 32 word) list) \<Rightarrow> (nat \<Rightarrow> bool) \<Rightarrow> 'x world \<Rightarrow> bool" where
  "fit td ac po w \<longleftrightarrow> world_ok w \<and> sk_inv (skelOf td ac po w)"

lemma follows_fit: "fit td ac po w \<Longrightarrow> follows td ac po w w' \<Longrightarrow> fit td ac po w'"
  by (auto simp: fit_def follows_def intro: sk_inv_steps)

lemma steadyI [simp]: "wLoopCount w' = wLoopCount w \<Longrightarrow> wLoops w' = wLoops w \<Longrightarrow> steady w w'"
  by (simp add: steady_def)

lemma steady_queue [simp]: "steady w (queueTask l t w)"
  by (simp add: steady_def)

lemma steady_trans: "steady w w1 \<Longrightarrow> steady w1 w2 \<Longrightarrow> steady w w2"
  by (simp add: steady_def)

lemma steady_calm: "calm w w' \<Longrightarrow> steady w w'"
  by (simp add: calm_def steady_def isInLoopThread_def)

lemma follows_refl: "world_ok w \<Longrightarrow> follows td ac po w w"
  by (simp add: follows_def)

lemma follows_trans: "follows td ac po w w1 \<Longrightarrow> follows td ac po w1 w2 \<Longrightarrow> follows td ac po w w2"
  by (auto simp: follows_def steady_def)

lemma follows_step: "world_ok w' \<Longrightarrow> steady w w' \<Longrightarrow> skel_step (skelOf td ac po w) (skelOf td ac po w') \<Longrightarrow> follows td ac po w w'"
  by (auto simp: follows_def)

lemma follows_same: "world_ok w' \<Longrightarrow> steady w w' \<Longrightarrow> skelOf td ac po w' = skelOf td ac po w \<Longrightarrow> follows td ac po w w'"
  by (simp add: follows_def)

section \<open>Operations on a connection\<close>

lemma conns_okI:
  assumes "\<And>c k. wConns w c = Some k \<Longrightarrow> conn_wf w c k"
    and "\<And>c d k j. wConns w c = Some k \<Longrightarrow> wConns w d = Some j \<Longrightarrow> cName j = cName k \<Longrightarrow> d = c"
    and "\<And>n c k. (n, c) \<in> set (srvConns (wServer w)) \<Longrightarrow> wConns w c = Some k \<Longrightarrow> cName k = n"
    and "\<And>l fd c k. ep_registered (wPollers w l) fd = Some c \<Longrightarrow> 2 < c \<Longrightarrow> wConns w c = Some k \<Longrightarrow> cSock k = fd"
  shows "conns_ok w"
  unfolding conns_ok_def by (intro conjI allI impI) (fact assms)+

lemma conns_okD:
  assumes "conns_ok w"
  shows "wConns w c = Some k \<Longrightarrow> conn_wf w c k"
    and "wConns w c = Some k \<Longrightarrow> wConns w d = Some j \<Longrightarrow> cName j = cName k \<Longrightarrow> d = c"
    and "(n, c) \<in> set (srvConns (wServer w)) \<Longrightarrow> wConns w c = Some k \<Longrightarrow> cName k = n"
    and "ep_registered (wPollers w l) fd = Some c \<Longrightarrow> 2 < c \<Longrightarrow> wConns w c = Some k \<Longrightarrow> cSock k = fd"
  using assms unfolding conns_ok_def by blast+

text \<open>Connections keep their identity or disappear.\<close>

lemma conns_ok_mono:
  assumes "conns_ok w"
    and old: "\<And>d j. wConns w' d = Some j \<Longrightarrow> \<exists>j0. wConns w d = Some j0 \<and> same_conn j0 j \<and> (still j0 \<longrightarrow> still j)"
    and "set (srvConns (wServer w')) \<subseteq> set (srvConns (wServer w))" and "srvNextId (wServer w') = srvNextId (wServer w)"
    and "srvName (wServer w') = srvName (wServer w)" and "wLoopCount w' = wLoopCount w" and "wNextAddr w' = wNextAddr w"
    and reg: "\<And>l fd d j. ep_registered (wPollers w' l) fd = Some d \<Longrightarrow> wConns w' d = Some j
       \<Longrightarrow> ep_registered (wPollers w l) fd = Some d \<or> cSock j = fd"
  shows "conns_ok w'"
proof (rule conns_okI)
  fix c k
  assume "wConns w' c = Some k"
  then obtain k0 where k0: "wConns w c = Some k0" "same_conn k0 k" "still k0 \<longrightarrow> still k" using old by blast
  then have "conn_wf w c k0" using conns_okD(1) [OF assms(1)] by blast
  then show "conn_wf w' c k" using k0 assms(4-7) by (simp add: conn_wf_def same_conn_def connName_def)
next
  fix c d k j
  assume "wConns w' c = Some k" "wConns w' d = Some j" "cName j = cName k"
  with old obtain k0 j0 where "wConns w c = Some k0" "same_conn k0 k" "wConns w d = Some j0" "same_conn j0 j" by blast
  with \<open>cName j = cName k\<close> show "d = c" using conns_okD(2) [OF assms(1), of c k0 d j0] by (simp add: same_conn_def)
next
  fix n c k
  assume a: "(n, c) \<in> set (srvConns (wServer w'))" "wConns w' c = Some k"
  then obtain k0 where k0: "wConns w c = Some k0" "same_conn k0 k" using old by blast
  have "cName k0 = n" using a(1) assms(3) by (intro conns_okD(3) [OF assms(1) _ k0(1)]) blast
  then show "cName k = n" using k0(2) by (simp add: same_conn_def)
next
  fix l fd c k
  assume a: "ep_registered (wPollers w' l) fd = Some c" "2 < c" "wConns w' c = Some k"
  then obtain k0 where "wConns w c = Some k0" "same_conn k0 k" using old by blast
  then show "cSock k = fd" using reg [OF a(1,3)] conns_okD(4) [OF assms(1) _ a(2), of l fd k0] by (auto simp: same_conn_def)
qed

lemma touch_skel:
  assumes "touch c ts w w'" and "wConns w c = Some k"
  shows "skelOf td ac po w' = (skelOf td ac po w)\<lparr>skPend := (skPend (skelOf td ac po w))
    (cLoop k := skPend (skelOf td ac po w) (cLoop k) \<union> set ts)\<rparr>"
proof -
  obtain k' where "calm w w'" "wConns w' = (wConns w)(c \<mapsto> k')" "same_conn k k'" "cState k' = cState k"
    "still k \<longrightarrow> still k'"
    "\<forall>l. pendingTasks (wLoops w' l) = pendingTasks (wLoops w l) @ (if l = cLoop k then ts else [])"
    by (rule touchE [OF assms])
  then show ?thesis using assms(2) by (intro skel_eqI) (auto simp: calm_def same_conn_def)
qed

lemma world_okD:
  assumes "world_ok w"
  shows "hosts_ok w" "conns_ok w" "wConns w c = Some k \<Longrightarrow> conn_wf w c k"
  using assms by (auto simp: world_ok_def dest: conns_okD(1))

lemma calm_hosts:
  assumes "hosts_ok w" and "calm w w'" and "\<And>l. wLoopCount w \<le> l \<Longrightarrow> pendingTasks (wLoops w' l) = pendingTasks (wLoops w l)"
  shows "hosts_ok w'"
  using assms by (simp add: hosts_ok_def calm_def)

lemma calm_conns:
  assumes "conns_ok w" and "calm w w'" and "wConns w c = Some k" and "wConns w' = (wConns w)(c \<mapsto> k')"
    and "same_conn k k'" and "still k \<longrightarrow> still k'"
  shows "conns_ok w'"
  by (rule conns_ok_mono [OF assms(1)]) (use assms(2-) in \<open>auto simp: calm_def same_conn_def split: if_splits\<close>)

lemma world_ok_touch:
  assumes "touch c ts w w'" and "world_ok w"
  shows "world_ok w'"
proof -
  obtain k where k: "wConns w c = Some k" using assms(1) by (auto simp: touch_def)
  obtain k' where t: "calm w w'" "wConns w' = (wConns w)(c \<mapsto> k')" "same_conn k k'" "cState k' = cState k"
    "still k \<longrightarrow> still k'"
    "\<forall>l. pendingTasks (wLoops w' l) = pendingTasks (wLoops w l) @ (if l = cLoop k then ts else [])"
    by (rule touchE [OF assms(1) k])
  have "cLoop k < wLoopCount w" using world_okD(3) [OF assms(2) k] by (simp add: conn_wf_def)
  then have "hosts_ok w'" by (intro calm_hosts [OF world_okD(1) [OF assms(2)] t(1)]) (use t(6) in auto)
  moreover have "conns_ok w'" by (rule calm_conns [OF world_okD(2) [OF assms(2)] t(1) k t(2,3,5)])
  ultimately show ?thesis by (simp add: world_ok_def)
qed

lemma touch_steady: "touch c ts w w' \<Longrightarrow> steady w w'"
  by (auto simp: touch_def intro: steady_calm)

lemma touch_follows:
  assumes "touch c ts w w'" and "world_ok w" and "wConns w c = Some k"
    and "\<And>t. t \<in> set ts \<Longrightarrow> skel_step (skelOf td ac po w) (skQueue (cLoop k) t (skelOf td ac po w))"
    and "\<And>t. t \<in> set ts \<Longrightarrow> set ts = {t}"
  shows "follows td ac po w w'"
proof (cases ts)
  case Nil
  then show ?thesis using world_ok_touch [OF assms(1,2)] touch_skel [OF assms(1,3)] touch_steady [OF assms(1)]
    by (intro follows_same) (simp_all add: fun_upd_idem)
next
  case (Cons t ts')
  then have "set ts = {t}" by (intro assms(5)) simp
  then have "skelOf td ac po w' = skQueue (cLoop k) t (skelOf td ac po w)"
    using touch_skel [OF assms(1,3), of td ac po] by (simp add: skQueue_def)
  then show ?thesis using assms(4) [of t] Cons world_ok_touch [OF assms(1,2)] touch_steady [OF assms(1)] by (intro follows_step) simp_all
qed

text \<open>What a connection's callbacks queue: closings, of a connection that outlives the batch.\<close>

lemma closes_follow:
  assumes "touch c (replicate n (TClose c)) w w'" and "world_ok w" and "wConns w c = Some k"
    and "anchored c (cLoop k) (skelOf td ac po w)"
  shows "follows td ac po w w'"
proof (rule touch_follows [OF assms(1-3)])
  show "skel_step (skelOf td ac po w) (skQueue (cLoop k) t (skelOf td ac po w))"
    if "t \<in> set (replicate n (TClose c))" for t
    using that assms(3,4) by (auto simp: skAt_def intro!: queue_close)
qed auto

lemma tame_follows:
  assumes "tame c w r" and "world_ok w" and "wConns w c = Some k" and "anchored c (cLoop k) (skelOf td ac po w)"
  shows "outcome (follows td ac po w) r"
  using assms(1) unfolding tame_outcome by (rule outcome_weaken) (use closes_follow [OF _ assms(2-4)] in blast)

lemma wrote_follows:
  assumes "wrote c w w'" and "world_ok w" and "wConns w c = Some k"
    and "po (cLoop k)" and "c \<notin> fst ` set (ac (cLoop k))"
  shows "follows td ac po w w'"
proof -
  have "skel_step (skelOf td ac po w) (skQueue (cLoop k) (TWriteComplete c) (skelOf td ac po w))"
    if "cState k \<noteq> kDisconnected" by (rule queue_written [of _ c "cState k"]) (use that assms(3-5) in auto)
  then show ?thesis using assms(1-3) unfolding wrote_def by (auto intro!: touch_follows)
qed

text \<open>Closing.\<close>

lemma shut_ok:
  assumes "shut c k1 w w1" and "world_ok w"
  shows "world_ok w1" "steady w w1"
    "skelOf td ac po w1 = (skelOf td ac po w)\<lparr>skObj := (skObj (skelOf td ac po w))(c \<mapsto> (kDisconnected, cLoop k1))\<rparr>"
proof -
  obtain k where s: "calm w w1" "\<forall>l. pendingTasks (wLoops w1 l) = pendingTasks (wLoops w l)" "wConns w1 = (wConns w)(c \<mapsto> k1)"
    "wConns w c = Some k" "same_conn k k1" "cState k1 = kDisconnected" "isNoneEvent (cChannel k1)"
    using assms(1) by (auto simp: shut_def)
  show "world_ok w1"
    using calm_hosts [OF world_okD(1) [OF assms(2)] s(1)] s(2,7) calm_conns [OF world_okD(2) [OF assms(2)] s(1,4,3,5)]
    by (simp add: world_ok_def still_def)
  show "steady w w1" using s(1) by (rule steady_calm)
  show "skelOf td ac po w1 = (skelOf td ac po w)\<lparr>skObj := (skObj (skelOf td ac po w))(c \<mapsto> (kDisconnected, cLoop k1))\<rparr>"
    using s by (intro skel_eqI) (auto simp: calm_def same_conn_def)
qed

lemma queue_ok:
  assumes "world_ok w" and "l < wLoopCount w"
  shows "world_ok (queueTask l t w)"
proof -
  have "hosts_ok (queueTask l t w)"
    using world_okD(1) [OF assms(1)] assms(2) by (auto simp: hosts_ok_def queueTask_def perform_queue pushTask_def)
  moreover have "conns_ok (queueTask l t w)"
    by (rule conns_ok_mono [OF world_okD(2) [OF assms(1)]]) (auto simp: same_conn_def)
  ultimately show ?thesis by (simp add: world_ok_def)
qed

lemma queue_follows:
  assumes "world_ok w" and "l < wLoopCount w" and "skel_step (skelOf td ac po w) (skQueue l t (skelOf td ac po w))"
  shows "follows td ac po w (queueTask l t w)"
  by (rule follows_step [OF queue_ok]) (use assms in \<open>simp_all add: queue_skel\<close>)

lemma mapped_live: "sk_inv (skelOf td ac po w) \<Longrightarrow> (n, c) \<in> set (srvConns (wServer w)) \<Longrightarrow> \<exists>k. wConns w c = Some k"
  using sk_objectsD(1) [of "skelOf td ac po w" c] by force

lemma mapped_dom: "sk_inv (skelOf td ac po w) \<Longrightarrow> snd ` set (srvConns (wServer w)) \<subseteq> dom (wConns w)"
  using mapped_live by fastforce

text \<open>The map loses exactly the connection: names are unique among the objects.\<close>

lemma unlinked_ok:
  assumes "world_ok w" and "wConns w c = Some k" and live: "snd ` set (srvConns (wServer w)) \<subseteq> dom (wConns w)"
  shows "world_ok (unlinked c k w)" "steady w (unlinked c k w)"
    "skelOf td ac po (unlinked c k w)
      = skQueue (cLoop k) (TDestroyed c) ((skelOf td ac po w)\<lparr>skMap := skMap (skelOf td ac po w) - {c}\<rparr>)"
proof -
  let ?es = "filter (\<lambda>e. fst e \<noteq> cName k) (srvConns (wServer w))"
  note D = conns_okD [OF world_okD(2) [OF assms(1)]]
  have "hosts_ok (unlinked c k w)" using world_okD(1) [OF assms(1)] D(1) [OF assms(2)]
    by (auto simp: hosts_ok_def unlinked_def queueTask_def perform_queue pushTask_def conn_wf_def)
  moreover have "conns_ok (unlinked c k w)"
    by (rule conns_ok_mono [OF world_okD(2) [OF assms(1)]]) (auto simp: same_conn_def unlinked_def)
  ultimately show "world_ok (unlinked c k w)" by (simp add: world_ok_def)
  show "steady w (unlinked c k w)" by (simp add: unlinked_def steady_def)
  have "snd ` set ?es = snd ` set (srvConns (wServer w)) - {c}"
  proof (intro equalityI subsetI)
    fix d
    assume "d \<in> snd ` set ?es"
    then obtain n where n: "(n, d) \<in> set (srvConns (wServer w))" "n \<noteq> cName k" by auto
    then have "d \<noteq> c" using D(3) [OF n(1), of k] assms(2) by auto
    with n(1) show "d \<in> snd ` set (srvConns (wServer w)) - {c}" by force
  next
    fix d
    assume "d \<in> snd ` set (srvConns (wServer w)) - {c}"
    then obtain n where n: "(n, d) \<in> set (srvConns (wServer w))" "d \<noteq> c" by auto
    obtain j where j: "wConns w d = Some j" using live n(1) by force
    have "n \<noteq> cName k" using D(3) [OF n(1) j] D(2) [OF assms(2) j] n(2) by auto
    with n(1) show "d \<in> snd ` set ?es" by force
  qed
  then show "skelOf td ac po (unlinked c k w)
      = skQueue (cLoop k) (TDestroyed c) ((skelOf td ac po w)\<lparr>skMap := skMap (skelOf td ac po w) - {c}\<rparr>)"
    by (intro skel_eqI) (auto simp: unlinked_def)
qed

lemma unlinked_follows:
  assumes "fit td ac po w" and "wConns w c = Some k" and "cState k = kDisconnected"
  shows "follows td ac po w (unlinked c k w)" "c \<notin> skMap (skelOf td ac po (unlinked c k w))"
proof -
  have ok: "world_ok w" and inv: "sk_inv (skelOf td ac po w)" using assms(1) by (simp_all add: fit_def)
  note u = unlinked_ok [OF ok assms(2) mapped_dom [OF inv]]
  have "skel_step (skelOf td ac po w) (skelOf td ac po (unlinked c k w))"
    using assms(2,3) skel_step.remove [of "skelOf td ac po w" c "cLoop k"] by (simp add: u(3))
  with u(1,2) show "follows td ac po w (unlinked c k w)" by (rule follows_step)
  show "c \<notin> skMap (skelOf td ac po (unlinked c k w))" unfolding u(3) by simp
qed

lemma registered_host: "{c. 2 < c \<and> (\<exists>fd. (m(x \<mapsto> d)) fd = Some c)} = {c. 2 < c \<and> (\<exists>fd. m fd = Some c)}"
  if "m x = None" and "d \<le> 2" for m :: "int \<rightharpoonup> nat"
  using that by (auto split: if_splits) (metis option.distinct(1))

lemma registered_upd: "{c. 2 < c \<and> (\<exists>fd. (m(x \<mapsto> d)) fd = Some c)} = {c. 2 < c \<and> (\<exists>fd. m fd = Some c)} \<union> ({d} - {..2})"
  if "m x = None" for m :: "int \<rightharpoonup> nat"
  using that by (auto split: if_splits) (metis option.distinct(1))+

lemma registered_del: "{c. 2 < c \<and> (\<exists>fd. (m(x := None)) fd = Some c)} = {c. 2 < c \<and> (\<exists>fd. m fd = Some c)} - {d}"
  if "m x = Some d" and "\<And>fd. m fd = Some d \<Longrightarrow> fd = x" for m :: "int \<rightharpoonup> nat"
proof (intro equalityI subsetI)
  fix c
  assume "c \<in> {c. 2 < c \<and> (\<exists>fd. (m(x := None)) fd = Some c)}"
  then obtain fd where "2 < c" "m fd = Some c" "fd \<noteq> x" by (auto split: if_splits)
  with that(2) show "c \<in> {c. 2 < c \<and> (\<exists>fd. m fd = Some c)} - {d}" by auto
next
  fix c
  assume "c \<in> {c. 2 < c \<and> (\<exists>fd. m fd = Some c)} - {d}"
  then obtain fd where "2 < c" "m fd = Some c" "c \<noteq> d" by auto
  with that(1) have "(m(x := None)) fd = Some c" by auto
  with \<open>2 < c\<close> show "c \<in> {c. 2 < c \<and> (\<exists>fd. (m(x := None)) fd = Some c)}" by blast
qed

lemma enrolled_ok:
  assumes "enrolled c k w w'" and "world_ok w" and "wConns w c = Some k"
  shows "world_ok w'" "steady w w'" "cState k = kConnecting"
    "skelOf td ac po w' = (skelOf td ac po w)\<lparr>skObj := (skObj (skelOf td ac po w))(c \<mapsto> (kConnected, cLoop k)),
      skReg := (skReg (skelOf td ac po w))(cLoop k := insert c (skReg (skelOf td ac po w) (cLoop k)))\<rparr>"
proof -
  let ?k = "k\<lparr>cState := kConnected, cChannel := readingEvents True (cChannel k)\<rparr>"
  obtain p where p: "w' = (putConn c ?k w)\<lparr>wPollers := (wPollers w)(cLoop k := p)\<rparr>" "cState k = kConnecting"
    "ep_registered (wPollers w (cLoop k)) (chFd (cChannel k)) = None"
    "ep_registered p = (ep_registered (wPollers w (cLoop k)))(chFd (cChannel k) \<mapsto> chId (cChannel k))"
    using assms(1) by (auto simp: enrolled_def)
  have wf: "conn_wf w c k" by (rule world_okD(3) [OF assms(2,3)])
  then have id: "chFd (cChannel k) = cSock k" "chId (cChannel k) = c" "2 < c" by (simp_all add: conn_wf_def)
  have "hosts_ok w'" using world_okD(1) [OF assms(2)] id(2,3) p(4) by (auto simp: hosts_ok_def p(1) split: if_splits)
  moreover have "conns_ok w'"
    by (rule conns_ok_mono [OF world_okD(2) [OF assms(2)]])
      (use assms(3) p(4) id in \<open>auto simp: p(1) same_conn_def still_def readingEvents_def split: if_splits\<close>)
  ultimately show "world_ok w'" by (simp add: world_ok_def)
  show "steady w w'" by (simp add: p(1))
  show "cState k = kConnecting" by (rule p(2))
  show "skelOf td ac po w' = (skelOf td ac po w)\<lparr>skObj := (skObj (skelOf td ac po w))(c \<mapsto> (kConnected, cLoop k)),
      skReg := (skReg (skelOf td ac po w))(cLoop k := insert c (skReg (skelOf td ac po w) (cLoop k)))\<rparr>"
    using registered_upd [of "ep_registered (wPollers w (cLoop k))" "chFd (cChannel k)" c] p(3,4) id
    by (intro skel_eqI) (auto simp: p(1))
qed

lemma enrolled_follows:
  assumes "enrolled c k w w'" and "world_ok w" and "wConns w c = Some k"
  shows "follows td ac po w w'" "skObj (skelOf td ac po w') c = Some (kConnected, cLoop k)"
proof -
  note e = enrolled_ok [OF assms]
  have "skel_step (skelOf td ac po w) (skelOf td ac po w')" unfolding e(4) by (rule establish) (use assms(3) e(3) in simp)
  with e(1,2) show "follows td ac po w w'" by (rule follows_step)
  show "skObj (skelOf td ac po w') c = Some (kConnected, cLoop k)" unfolding e(4) by simp
qed

text \<open>Destroying is a step together with the end of its task.\<close>

lemma retired_follows:
  assumes "retired c k w w'" and "world_ok w" and "wConns w c = Some k" and "td (cLoop k) = TDestroyed c # ts"
  shows "world_ok w' \<and> skel_step (skelOf td ac po w) (skelOf (td(cLoop k := ts)) ac po w')"
proof
  obtain p where p: "w' = w\<lparr>wPollers := (wPollers w)(cLoop k := p)\<rparr>"
    "ep_registered (wPollers w (cLoop k)) (chFd (cChannel k)) = Some (chId (cChannel k))"
    "ep_registered p = (ep_registered (wPollers w (cLoop k)))(chFd (cChannel k) := None)"
    using assms(1) by (auto simp: retired_def)
  have wf: "conn_wf w c k" by (rule world_okD(3) [OF assms(2,3)])
  then have id: "chFd (cChannel k) = cSock k" "chId (cChannel k) = c" "2 < c" by (simp_all add: conn_wf_def)
  have "hosts_ok w'" using world_okD(1) [OF assms(2)] p(3) by (auto simp: hosts_ok_def p(1) split: if_splits)
  moreover have "conns_ok w'"
    by (rule conns_ok_mono [OF world_okD(2) [OF assms(2)]]) (use p(3) in \<open>auto simp: p(1) same_conn_def split: if_splits\<close>)
  ultimately show "world_ok w'" by (simp add: world_ok_def)
  have only: "fd = cSock k" if "ep_registered (wPollers w (cLoop k)) fd = Some c" for fd
    using conns_okD(4) [OF world_okD(2) [OF assms(2)] that id(3) assms(3)] by simp
  have "skelOf (td(cLoop k := ts)) ac po w' = (skelOf td ac po w)\<lparr>skTodo := (skTodo (skelOf td ac po w))(cLoop k := set ts),
      skReg := (skReg (skelOf td ac po w))(cLoop k := skReg (skelOf td ac po w) (cLoop k) - {c})\<rparr>"
    using registered_del [OF _ only] p(2,3) id(1,2) by (intro skel_eqI) (simp_all add: p(1))
  moreover have "skel_step (skelOf td ac po w) \<dots>" by (rule destroy) (use assms(4) in auto)
  ultimately show "skel_step (skelOf td ac po w) (skelOf (td(cLoop k := ts)) ac po w')" by simp
qed

text \<open>The end of a batch or of a handler: objects nobody keeps are destroyed.\<close>

lemma strong_kept:
  assumes "hosts_ok w"
  shows "set (kept w) = skStrong (skelOf td ac po w)"
proof (intro equalityI subsetI)
  fix c
  assume "c \<in> skStrong (skelOf td ac po w)"
  then consider "c \<in> snd ` set (srvConns (wServer w))"
    | l t where "t \<in> set (pendingTasks (wLoops w l) @ wBatch w l)" "c \<in> set (keeps t)" by (auto simp: skStrong_def)
  then show "c \<in> set (kept w)"
  proof cases
    case 2
    then have "l < wLoopCount w" using assms by (cases "l < wLoopCount w") (auto simp: hosts_ok_def)
    then have "c \<in> set (concat (map (\<lambda>l. concat (map keeps (pendingTasks (wLoops w l) @ wBatch w l))) [0..<wLoopCount w]))"
      using 2 by fastforce
    then show ?thesis by (simp add: kept_def)
  qed (simp add: kept_def)
next
  fix c
  assume "c \<in> set (kept w)"
  moreover have "wHeld w = []" using assms by (simp add: hosts_ok_def)
  ultimately show "c \<in> skStrong (skelOf td ac po w)" by (auto simp: kept_def skStrong_def)
qed

lemma reap_ok:
  assumes "world_ok w"
  shows "world_ok (reap w)"
    "skelOf td ac po (reap w) = (skelOf td ac po w)\<lparr>skObj := skObj (skelOf td ac po w) |` skStrong (skelOf td ac po w)\<rparr>"
proof -
  have "hosts_ok (reap w)" using world_okD(1) [OF assms] by (simp add: hosts_ok_def)
  moreover have "conns_ok (reap w)"
    by (rule conns_ok_mono [OF world_okD(2) [OF assms]]) (auto simp: same_conn_def reap_conns split: if_splits)
  ultimately show "world_ok (reap w)" by (simp add: world_ok_def)
  have "wConns (reap w) c = (wConns w |` skStrong (skelOf td ac po w)) c" for c
    using world_okD(3) [OF assms, of c] strong_kept [OF world_okD(1) [OF assms], of td ac po]
    by (cases "wConns w c") (auto simp: reap_conns restrict_map_def conn_wf_def)
  then show "skelOf td ac po (reap w) = (skelOf td ac po w)\<lparr>skObj := skObj (skelOf td ac po w) |` skStrong (skelOf td ac po w)\<rparr>"
    by (intro skel_eqI) (auto simp: restrict_map_def)
qed

text \<open>Between two batches nothing is to be destroyed: every object has an owner.\<close>

lemma reap_follows:
  assumes "fit td ac po w"
  shows "follows td ac po w (reap w)"
proof (rule follows_same)
  have ok: "world_ok w" and inv: "sk_inv (skelOf td ac po w)" using assms by (simp_all add: fit_def)
  show "world_ok (reap w)" by (rule reap_ok(1) [OF ok])
  have "(skObj (skelOf td ac po w) |` skStrong (skelOf td ac po w)) c = skObj (skelOf td ac po w) c" for c
    using sk_exactD(1) [OF inv, of c] by (cases "skObj (skelOf td ac po w) c") (auto simp: restrict_map_def)
  then show "skelOf td ac po (reap w) = skelOf td ac po w" unfolding reap_ok(2) [OF ok] by (intro skel_eqI) simp_all
qed simp

end
