(* ===== verification/Server_Safety.thy ===== *)
theory Server_Safety
  imports Server_System
begin

text \<open>
  The server refines the connection protocol: accepting, every handler and every task make steps of
  the protocol (\<open>follows\<close>), for callbacks that meet the contract \<open>tame_user\<close>. So every reachable
  state of the system satisfies the protocol's invariant: no action touches a destroyed connection,
  every handler runs on the thread of its loop, and no connection is leaked.
\<close>

section \<open>Accepting\<close>

text \<open>The channels of the acceptor and of the loops have addresses that the abstraction ignores.\<close>

lemma host_pollers:
  assumes "world_ok w" and "d \<le> 2" and "hostChannel (wServer w) (wOwn w) l d fd"
    and "ep_registered p = ep_registered (wPollers w l)
      \<or> (ep_registered (wPollers w l) fd = None \<and> ep_registered p = (ep_registered (wPollers w l))(fd \<mapsto> d))"
  shows "follows td ac po w (w\<lparr>wPollers := (wPollers w)(l := p)\<rparr>)"
proof (rule follows_same)
  let ?w = "w\<lparr>wPollers := (wPollers w)(l := p)\<rparr>"
  have "hosts_ok ?w" using world_okD(1) [OF assms(1)] assms(3,4) by (auto simp: hosts_ok_def split: if_splits)
  moreover have "conns_ok ?w"
  proof (rule conns_ok_mono [OF world_okD(2) [OF assms(1)]])
    fix m x e j
    assume a: "ep_registered (wPollers ?w m) x = Some e" "wConns ?w e = Some j"
    have "2 < e" using world_okD(3) [OF assms(1), of e j] a(2) by (simp add: conn_wf_def)
    then show "ep_registered (wPollers w m) x = Some e \<or> cSock j = x" using a(1) assms(2,4) by (auto split: if_splits)
  qed (auto simp: same_conn_def)
  ultimately show "world_ok ?w" by (simp add: world_ok_def)
  show "skelOf td ac po ?w = skelOf td ac po w"
    using assms(4) registered_host [of "ep_registered (wPollers w l)" fd d, OF _ assms(2)]
    by (intro skel_eqI) (elim disjE; simp)+
qed simp

lemma host_op_follows:
  assumes "world_ok w" and "mk = AddChannel \<or> mk = UpdateChannel" and "isInLoopThread tid (wLoops w l)"
    and "chId ch \<le> 2" and "hostChannel (wServer w) (wOwn w) l (chId ch) (chFd ch)"
  shows "outcome (follows td ac po w) (pollerOp tid l (mk ch) w)"
proof -
  have "follows td ac po w (w\<lparr>wPollers := (wPollers w)(l := p)\<rparr>)" if "ep_step (mk ch) (wPollers w l) = Inr p" for p
    using assms(2) that ep_add_registered [of ch "wPollers w l" p] ep_update_keeps [of ch "wPollers w l" p]
    by (intro host_pollers [OF assms(1,4,5)]) (auto simp del: ep_step.simps)
  then show ?thesis unfolding pollerOp_def
    by (intro outcome_assert assms(3) outcome_bind [OF outcome_orderly [OF orderly_poller]]) simp
qed

lemma acceptorOp_follows:
  assumes "world_ok w" and "mk = AddChannel \<or> mk = UpdateChannel" and "isInLoopThread tid (wLoops w (srvLoop (wServer w)))"
  shows "outcome (follows td ac po w) (acceptorOp tid mk w)"
  unfolding acceptorOp_def
  by (rule host_op_follows [OF assms]) (use world_okD(1) [OF assms(1)] in \<open>simp_all add: hosts_ok_def hostChannel_def\<close>)

lemma ownOp_follows:
  assumes "world_ok w" and "mk = AddChannel \<or> mk = UpdateChannel" and "isInLoopThread tid (wLoops w l)"
  shows "outcome (follows td ac po w) (ownOp tid mk l x w)"
proof -
  have id: "chId (wOwn w l x) = ownId x" using world_okD(1) [OF assms(1)] by (simp add: hosts_ok_def)
  then have "hostChannel (wServer w) (wOwn w) l (chId (wOwn w l x)) (chFd (wOwn w l x))"
    by (cases x) (simp_all add: hostChannel_def)
  moreover have "chId (wOwn w l x) \<le> 2" unfolding id by (cases x) simp_all
  ultimately show ?thesis unfolding ownOp_def by (intro host_op_follows [OF assms])
qed

lemma server_flags_follow:
  assumes "world_ok w" and "s = (wServer w)\<lparr>srvListening := b\<rparr> \<or> s = (wServer w)\<lparr>srvAcceptChannel := readingEvents e (srvAcceptChannel (wServer w))\<rparr>"
  shows "follows td ac po w (putServer s w)"
proof (rule follows_same)
  have "chId (readingEvents e ch) = chId ch" for ch :: "conn_cb channel" by (simp add: readingEvents_def)
  then have "hosts_ok (putServer s w)" using world_okD(1) [OF assms(1)] assms(2) by (elim disjE; simp add: hosts_ok_def)
  moreover have "conns_ok (putServer s w)"
    by (rule conns_ok_mono [OF world_okD(2) [OF assms(1)]]) (use assms(2) in \<open>auto simp: same_conn_def\<close>)
  ultimately show "world_ok (putServer s w)" by (simp add: world_ok_def)
qed (use assms(2) in \<open>auto intro: skel_eqI\<close>)

lemma emit_follows: "world_ok w \<Longrightarrow> follows td ac po w (emit e w)"
proof (rule follows_same)
  assume "world_ok w"
  moreover from this have "conns_ok (emit e w)"
    by (intro conns_ok_mono [OF world_okD(2)]) (auto simp: same_conn_def)
  ultimately show "world_ok (emit e w)" by (simp add: world_ok_def hosts_ok_def)
qed (simp_all add: skelOf_def)

lemma outcome_follows_bind:
  assumes "outcome (follows td ac po w) m" and "\<And>w1. follows td ac po w w1 \<Longrightarrow> outcome (follows td ac po w1) (f w1)"
  shows "outcome (follows td ac po w) (bindR m f)"
  by (rule outcome_bind [OF assms(1)]) (blast intro: outcome_weaken [OF assms(2)] follows_trans)

lemma follows_via: "follows td ac po w w1 \<Longrightarrow> outcome (follows td ac po w1) m \<Longrightarrow> outcome (follows td ac po w) m"
  by (blast intro: outcome_weaken follows_trans)

lemma followsD:
  assumes "follows td ac po w w'"
  shows "world_ok w'" "wLoopCount w' = wLoopCount w" "srvLoop (wServer w') = srvLoop (wServer w)"
    "isInLoopThread tid (wLoops w' l) = isInLoopThread tid (wLoops w l)"
  using assms skel_steps_home [of "skelOf td ac po w" "skelOf td ac po w'"] by (simp_all add: follows_def steady_def)

lemma plain_follows:
  assumes "world_ok w" and "keeps t = []" and "rawRefs t = []" and "l = srvLoop (wServer w)" and "ownLoop t = None"
    and "isInLoopThread tid (wLoops w l) \<Longrightarrow> outcome (follows td ac po w) (f w)"
  shows "outcome (follows td ac po w) (runInLoop tid l t f w)"
  using assms world_okD(1) [OF assms(1)] by (auto simp: runInLoop_def hosts_ok_def intro!: queue_follows queue_plain)

lemma listen_follows:
  assumes "world_ok w"
  shows "outcome (follows td ac po w) (listen tid w)"
proof -
  let ?l = "srvLoop (wServer w)"
  define w0 where "w0 = putServer ((wServer w)\<lparr>srvListening := True\<rparr>) w"
  have w0: "follows td ac po w w0" unfolding w0_def by (rule server_flags_follow [OF assms]) blast
  have op: "outcome (follows td ac po w1) (runInLoop tid ?l t (acceptorOp tid mk) w1)"
    if "world_ok w1" "srvLoop (wServer w1) = ?l" "t = TAcceptorAdd \<or> t = TAcceptorUpdate" "mk = AddChannel \<or> mk = UpdateChannel"
    for t mk and w1 :: "'a world"
    using that by (intro plain_follows acceptorOp_follows) auto
  have "outcome (follows td ac po w1) (bindR (runInLoop tid ?l TAcceptorAdd (acceptorOp tid AddChannel) w1) (\<lambda>w2.
      runInLoop tid ?l TAcceptorUpdate (acceptorOp tid UpdateChannel)
        (putServer ((wServer w2)\<lparr>srvAcceptChannel := readingEvents True (srvAcceptChannel (wServer w2))\<rparr>) w2)))"
    if f: "follows td ac po w w1" for w1
  proof (rule outcome_follows_bind [OF op])
    fix w2 :: "'a world"
    assume f2: "follows td ac po w1 w2"
    let ?w3 = "putServer ((wServer w2)\<lparr>srvAcceptChannel := readingEvents True (srvAcceptChannel (wServer w2))\<rparr>) w2"
    have f3: "follows td ac po w2 ?w3" by (rule server_flags_follow [OF followsD(1) [OF f2]]) blast
    show "outcome (follows td ac po w2) (runInLoop tid ?l TAcceptorUpdate (acceptorOp tid UpdateChannel) ?w3)"
      by (rule follows_via [OF f3 op]) (use followsD(1,3) [OF f3] followsD(3) [OF f] followsD(3) [OF f2] in simp_all)
  qed (use followsD(1,3) [OF f] in simp_all)
  moreover have "outcome (follows td ac po w) (kernelCall listenSock (SysListen (srvAcceptFd (wServer w0))) w0)"
    using follows_trans [OF w0 emit_follows [OF followsD(1) [OF w0]]] by (simp add: kernelCall_def listenSock_def assertR_def)
  ultimately show ?thesis unfolding listen_def Let_def w0_def [symmetric] by (rule outcome_follows_bind [rotated])
qed

text \<open>A new connection.\<close>

definition created :: "nat \<Rightarrow> event_loops \<Rightarrow> int \<Rightarrow> sockaddr_in \<Rightarrow> sockaddr_in \<Rightarrow> 'x world \<Rightarrow> 'x world" where
  "created l els fd la pa w =
     (let s = wServer w; c = wNextAddr w; name = connName s (srvNextId s)
      in putConn c (newConn c l name fd la pa)
           (putServer (s\<lparr>srvNextId := srvNextId s + 1, srvLoops := els, srvConns := srvConns s @ [(name, c)]\<rparr>)
             (w\<lparr>wNextAddr := c + 1\<rparr>)))"

lemma allocLoop_bound:
  assumes "allocLoop e = Inr (l, els)" and "elSize e < n"
  shows "l < n" "elSize els = elSize e" "elSize els = 0 \<or> elNext els < elSize els"
  using assms by (auto simp: allocLoop_def split: if_splits)

text \<open>The next name and the next address are not in use.\<close>

lemma fresh_addr: "world_ok w \<Longrightarrow> wConns w (wNextAddr w) = None"
  using world_okD(3) [of w "wNextAddr w"] by (cases "wConns w (wNextAddr w)") (auto simp: conn_wf_def)

lemma fresh_name:
  assumes "world_ok w" and "wConns w c = Some k"
  shows "cName k \<noteq> connName (wServer w) (srvNextId (wServer w))"
proof
  assume "cName k = connName (wServer w) (srvNextId (wServer w))"
  moreover obtain i where "1 \<le> i" "i < srvNextId (wServer w)" "cName k = connName (wServer w) i"
    using world_okD(3) [OF assms] by (auto simp: conn_wf_def)
  ultimately show False
    using showInt_inj [of "srvNextId (wServer w)" i] world_okD(1) [OF assms(1)] by (simp add: connName_def hosts_ok_def)
qed

lemma created_conns:
  assumes "fit td ac po w" and "l < wLoopCount w"
  shows "conns_ok (created l els fd la pa w)"
proof (rule conns_okI)
  let ?w = "created l els fd la pa w" and ?s = "wServer w"
  let ?n = "connName ?s (srvNextId ?s)"
  have ok: "world_ok w" and inv: "sk_inv (skelOf td ac po w)" using assms(1) by (simp_all add: fit_def)
  note D = conns_okD [OF world_okD(2) [OF ok]]
  have h: "1 \<le> srvNextId ?s" "2 < wNextAddr w" using world_okD(1) [OF ok] by (simp_all add: hosts_ok_def)
  note none = fresh_addr [OF ok]
  have conns: "wConns ?w = (wConns w)(wNextAddr w \<mapsto> newConn (wNextAddr w) l ?n fd la pa)"
    and serv: "wServer ?w = ?s\<lparr>srvNextId := srvNextId ?s + 1, srvLoops := els, srvConns := srvConns ?s @ [(?n, wNextAddr w)]\<rparr>"
    by (simp_all add: created_def Let_def)
  note fresh = fresh_name [OF ok]
  show "conn_wf ?w c k" if "wConns ?w c = Some k" for c k
  proof (cases "c = wNextAddr w")
    case True
    with that show ?thesis using assms(2) h
      by (auto simp: conns conn_wf_def newConn_def newChannel_def setReadCallback_def setWriteCallback_def still_def
          connName_def serv created_def Let_def intro!: exI [of _ "srvNextId ?s"])
  next
    case False
    with that have "conn_wf w c k" using D(1) by (simp add: conns)
    then show ?thesis by (auto simp: conn_wf_def connName_def serv created_def Let_def)
  qed
  show "d = c" if "wConns ?w c = Some k" "wConns ?w d = Some j" "cName j = cName k" for c d k j
    using that D(2) [of c k d j] fresh [of c k] fresh [of d j] by (auto simp: conns newConn_def split: if_splits)
  show "cName k = n" if "(n, c) \<in> set (srvConns (wServer ?w))" "wConns ?w c = Some k" for n c k
    using that D(3) [of n c k] mapped_live [OF inv, of n c] none by (auto simp: conns serv newConn_def split: if_splits)
  show "cSock k = x" if "ep_registered (wPollers ?w m) x = Some c" "2 < c" "wConns ?w c = Some k" for m x c k
  proof -
    have reg: "ep_registered (wPollers w m) x = Some c" using that(1) by (simp add: created_def Let_def)
    then have "wConns w c \<noteq> None" using sk_plainD(4) [OF inv, of c m] that(2) by auto
    then show ?thesis using D(4) [OF reg that(2)] that(3) none by (auto simp: conns split: if_splits)
  qed
qed

lemma created_ok:
  assumes "fit td ac po w" and "allocLoop (srvLoops (wServer w)) = Inr (l, els)"
  shows "world_ok (created l els fd la pa w)" "steady w (created l els fd la pa w)"
    "skelOf td ac po (created l els fd la pa w)
      = (skelOf td ac po w)\<lparr>skObj := (skObj (skelOf td ac po w))(wNextAddr w \<mapsto> (kConnecting, l)),
          skMap := insert (wNextAddr w) (skMap (skelOf td ac po w))\<rparr>"
proof -
  let ?w = "created l els fd la pa w"
  have ok: "world_ok w" using assms(1) by (simp add: fit_def)
  have sz: "elSize (srvLoops (wServer w)) < wLoopCount w" using world_okD(1) [OF ok] by (simp add: hosts_ok_def)
  note al = allocLoop_bound [OF assms(2) sz]
  have "hosts_ok ?w" using world_okD(1) [OF ok] al(2,3) by (simp add: hosts_ok_def created_def Let_def)
  with created_conns [OF assms(1) al(1)] show "world_ok ?w" by (simp add: world_ok_def)
  show "steady w ?w" by (simp add: created_def Let_def)
  show "skelOf td ac po ?w = (skelOf td ac po w)\<lparr>skObj := (skObj (skelOf td ac po w))(wNextAddr w \<mapsto> (kConnecting, l)),
      skMap := insert (wNextAddr w) (skMap (skelOf td ac po w))\<rparr>"
    by (rule skel_eqI) (auto simp: created_def Let_def newConn_def)
qed

text \<open>A connection comes into being together with what will establish it.\<close>

lemma created_follows:
  fixes fd :: int and la pa :: sockaddr_in
  assumes "fit td ac po w" and "allocLoop (srvLoops (wServer w)) = Inr (l, els)"
  defines "w1 \<equiv> created l els fd la pa w" and "c \<equiv> wNextAddr w"
  shows "follows td ac po w (queueTask l (TEstablished c) w1)"
    and "enrolled c k w1 w2 \<Longrightarrow> wConns w1 c = Some k \<Longrightarrow> follows td ac po w w2"
proof -
  note cr = created_ok [OF assms(1,2), of fd la pa, folded w1_def c_def]
  have ok: "world_ok w" using assms(1) by (simp add: fit_def)
  have l: "l < wLoopCount w1" using allocLoop_bound(1) [OF assms(2), of "wLoopCount w"] world_okD(1) [OF ok] cr(2)
    by (simp add: hosts_ok_def steady_def)
  have st: "steady w (queueTask l (TEstablished c) w1)" using cr(2) by (simp add: steady_def)
  have "skel_step (skelOf td ac po w) (skelOf td ac po (queueTask l (TEstablished c) w1))"
    unfolding queue_skel cr(3) by (rule create_ask) (simp add: fresh_addr [OF ok] c_def)
  then show "follows td ac po w (queueTask l (TEstablished c) w1)" by (rule follows_step [OF queue_ok [OF cr(1) l] st])
  assume e: "enrolled c k w1 w2" and k: "wConns w1 c = Some k"
  note en = enrolled_ok [OF e cr(1) k]
  have "cLoop k = l" using k by (auto simp: w1_def c_def created_def Let_def newConn_def)
  then have "skelOf td ac po w2 = (skelOf td ac po w)\<lparr>skObj := (skObj (skelOf td ac po w))(c \<mapsto> (kConnected, l)),
      skMap := insert c (skMap (skelOf td ac po w)), skReg := (skReg (skelOf td ac po w))(l := insert c (skReg (skelOf td ac po w) l))\<rparr>"
    unfolding en(4) cr(3) by simp
  moreover have "skel_step (skelOf td ac po w) \<dots>" by (rule create_here) (simp add: fresh_addr [OF ok] c_def)
  ultimately have "skel_step (skelOf td ac po w) (skelOf td ac po w2)" by simp
  then show "follows td ac po w w2" by (rule follows_step [OF en(1) steady_trans [OF cr(2) en(2)]])
qed

lemma conn_calls:
  assumes "conn_wf w c k"
  obtains b b' where "handleEvent t (setRevents re (cChannel k))
    = (if b then [CallAt ConnHandleRead t] else []) @ (if b' then [Call ConnHandleWrite] else [])"
  by (rule that [of "re AND (POLLIN OR POLLPRI OR POLLRDHUP) \<noteq> 0" "re AND POLLOUT \<noteq> 0"])
    (use assms in \<open>simp add: conn_wf_def handleEvent_def setRevents_def callIf_def Let_def\<close>)

context tame_user
begin

lemma newConnection_follows:
  assumes "fit td ac po w" and "srvNextId (wServer w) < 2 ^ 31" and "isInLoopThread tid (wLoops w (srvLoop (wServer w)))"
  shows "outcome (\<lambda>w'. follows td ac po w w' \<and> srvNextId (wServer w') = srvNextId (wServer w) + 1)
    (newConnection tid cbs fd peer lres w)"
proof -
  let ?s = "wServer w" and ?c = "wNextAddr w"
  let ?n = "connName ?s (srvNextId ?s)"
  let ?P = "\<lambda>w'. follows td ac po w w' \<and> srvNextId (wServer w') = srvNextId ?s + 1"
  have ok: "world_ok w" and inv: "sk_inv (skelOf td ac po w)" using assms(1) by (simp_all add: fit_def)
  have pos: "0 \<le> srvNextId ?s" using world_okD(1) [OF ok] by (simp add: hosts_ok_def)
  have name: "srvName ?s @ snprintf 32 (''#'' @ showInt (srvNextId ?s)) = ?n" by (rule connName_take [OF pos assms(2)])
  have "?n \<notin> fst ` set (srvConns ?s)"
  proof
    assume "?n \<in> fst ` set (srvConns ?s)"
    then obtain c where c: "(?n, c) \<in> set (srvConns ?s)" by auto
    obtain k where k: "wConns w c = Some k" using mapped_live [OF inv c] by blast
    show False using conns_okD(3) [OF world_okD(2) [OF ok] c k] fresh_name [OF ok k] by simp
  qed
  note new = AList_update_new [OF this]
  have run: "outcome ?P (runInLoop tid l (TEstablished ?c) (connectEstablished tid cbs ?c) (created l els fd la pa w))"
    if al: "allocLoop (srvLoops ?s) = Inr (l, els)" for l els la pa
  proof -
    let ?w = "created l els fd la pa w"
    note f = created_follows [OF assms(1) al, where fd = fd and la = la and pa = pa]
    have k: "wConns ?w ?c = Some (newConn ?c l ?n fd la pa)" by (simp add: created_def Let_def)
    have id: "srvNextId (wServer ?w) = srvNextId ?s + 1" by (simp add: created_def Let_def)
    have q: "?P (queueTask l (TEstablished ?c) ?w)" using f(1) id by simp
    have "outcome ?P (connectEstablished tid cbs ?c ?w)" if "isInLoopThread tid (wLoops ?w l)"
      using established_outcome [OF k, of tid] that established_server [of tid ?c ?w] id f(2) [OF _ k]
      by (cases "connectEstablished tid cbs ?c ?w") (auto simp: newConn_def)
    with q show ?thesis by (simp add: runInLoop_def)
  qed
  have "outcome ?P (bindR (allocLoop (srvLoops ?s)) (\<lambda>(l, els).
      runInLoop tid l (TEstablished ?c) (connectEstablished tid cbs ?c) (created l els fd la peer w)))" for la
    by (rule outcome_bind [OF outcome_orderly]) (auto intro: run simp: allocLoop_def)
  then have "outcome ?P (bindR (getLocalAddr (fst lres) (snd lres)) (\<lambda>la. bindR (allocLoop (srvLoops ?s)) (\<lambda>(l, els).
      runInLoop tid l (TEstablished ?c) (connectEstablished tid cbs ?c) (created l els fd la peer w))))"
    by (rule outcome_bind [OF outcome_orderly, rotated]) (simp add: getLocalAddr_def assertR_def)
  then show ?thesis unfolding newConnection_def Let_def name new
    by (intro outcome_assert assms(3)) (simp add: created_def Let_def)
qed

lemma acceptAll_follows:
  "fit td ac po w \<Longrightarrow> srvNextId (wServer w) + int (length rs) \<le> 2 ^ 31
     \<Longrightarrow> isInLoopThread tid (wLoops w (srvLoop (wServer w)))
     \<Longrightarrow> outcome (follows td ac po w) (acceptAll tid cbs peer rs w)"
proof (induction rs arbitrary: peer w)
  case Nil
  then show ?case by (simp add: follows_refl fit_def)
next
  case (Cons r rs)
  obtain ret paddr lres where r: "r = (ret, paddr, lres)" by (cases r)
  have "outcome (follows td ac po w) (bindR (newConnection tid cbs fd p lres w) (acceptAll tid cbs p rs))" for fd p
  proof (rule outcome_bind [OF newConnection_follows [OF Cons.prems(1)]])
    fix w1 :: "'x world"
    assume w1: "follows td ac po w w1 \<and> srvNextId (wServer w1) = srvNextId (wServer w) + 1"
    then have "outcome (follows td ac po w1) (acceptAll tid cbs p rs w1)"
      using Cons.prems by (intro Cons.IH) (auto intro: follows_fit simp: followsD(3,4))
    with w1 show "outcome (follows td ac po w) (acceptAll tid cbs p rs w1)" by (blast intro: follows_via)
  qed (use Cons.prems(2,3) in simp_all)
  then show ?case using Cons.prems(1) by (auto simp: r Let_def case_prod_unfold fit_def intro: follows_refl)
qed

lemma acceptor_follows:
  assumes "fit td ac po w" and "srvNextId (wServer w) + int (length rs) \<le> 2 ^ 31"
    and "isInLoopThread tid (wLoops w (srvLoop (wServer w)))"
  shows "outcome (follows td ac po w) (acceptor_handleRead tid cbs rs w)"
  unfolding acceptor_handleRead_def by (intro outcome_assert acceptAll_follows assms)

text \<open>Closing, on the thread of the connection's loop and with no write-complete task queued.\<close>

lemma close_follows:
  assumes "fit td ac po w" and "wConns w c = Some k" and "TWriteComplete c \<notin> set (pendingTasks (wLoops w (cLoop k)))"
    and "isInLoopThread tid (wLoops w (cLoop k))"
  shows "outcome (\<lambda>w'. follows td ac po w w' \<and> (\<exists>k'. wConns w' c = Some k' \<and> cLoop k' = cLoop k)) (handleClose tid cbs c w)"
proof -
  from assms(2,4) have "mine tid c w" by (auto simp: mine_def)
  from close_outcome [OF this] show ?thesis
  proof (rule outcome_weaken, elim exE conjE)
    fix w' w1 :: "'x world" and k1
    assume sh: "shut c k1 w w1"
      and w': "w' = unlinked c k1 w1 \<or> w' = queueTask (srvLoop (wServer w)) (TRemoveConnection c) w1"
    have s: "wConns w1 c = Some k1" "cState k1 = kDisconnected" "cLoop k1 = cLoop k" "calm w w1"
      using sh assms(2) by (auto simp: shut_def same_conn_def)
    have ok: "world_ok w" and inv: "sk_inv (skelOf td ac po w)" using assms(1) by (simp_all add: fit_def)
    note sk = shut_ok [OF sh ok]
    have home: "srvLoop (wServer w) < wLoopCount w1" using world_okD(1) [OF sk(1)] s(4) by (simp add: hosts_ok_def calm_def)
    have "snd ` set (srvConns (wServer w1)) \<subseteq> dom (wConns w1)" using mapped_dom [OF inv] sh by (auto simp: shut_def calm_def)
    note un = unlinked_ok [OF sk(1) s(1) this]
    have obj: "skObj (skelOf td ac po w) c = Some (cState k, cLoop k)" and wc: "TWriteComplete c \<notin> skPend (skelOf td ac po w) (cLoop k)"
      using assms(2,3) by simp_all
    have "follows td ac po w (queueTask (srvLoop (wServer w)) (TRemoveConnection c) w1)"
      by (rule follows_step [OF queue_ok [OF sk(1) home]])
        (use close_ask [OF obj wc] sk(2) in \<open>simp_all add: queue_skel sk(3) s(3) steady_def\<close>)
    moreover have "follows td ac po w (unlinked c k1 w1)"
      by (rule follows_step [OF un(1) steady_trans [OF sk(2) un(2)]])
        (use close_here [OF obj wc] in \<open>simp add: un(3) sk(3) s(3)\<close>)
    ultimately have "follows td ac po w w'" using w' by blast
    then show "follows td ac po w w' \<and> (\<exists>k'. wConns w' c = Some k' \<and> cLoop k' = cLoop k)"
      using w' s(1,3) by (auto simp: unlinked_def)
  qed
qed

lemma read_follows:
  assumes "fit td ac po w" and "wConns w c = Some k" and "isInLoopThread tid (wLoops w (cLoop k))"
    and "TWriteComplete c \<notin> set (pendingTasks (wLoops w (cLoop k)))" and "anchored c (cLoop k) (skelOf td ac po w)"
  shows "outcome (\<lambda>w'. follows td ac po w w' \<and> (\<exists>k'. wConns w' c = Some k' \<and> cLoop k' = cLoop k)) (conn_handleRead tid cbs res t c w)"
proof -
  let ?P = "\<lambda>w w'. follows td ac po w w' \<and> (\<exists>k'. wConns w' c = Some k' \<and> cLoop k' = cLoop k)"
  have ok: "world_ok w" using assms(1) by (simp add: fit_def)
  have "outcome (?P w) (if 0 < n then msgCallback cbs tid c t (putConn c (k\<lparr>cInput := b\<rparr>) w)
      else if n = 0 then handleClose tid cbs c (putConn c (k\<lparr>cInput := b\<rparr>) w) else Inr (putConn c (k\<lparr>cInput := b\<rparr>) w))"
    for n :: int and b
  proof -
    let ?k = "k\<lparr>cInput := b\<rparr>"
    let ?w = "putConn c ?k w"
    have t: "touch c [] w ?w" by (rule touch_put [OF assms(2)]) (simp_all add: same_conn_def still_def)
    have f: "follows td ac po w ?w" by (rule touch_follows [OF t ok assms(2)]) simp_all
    have an: "anchored c (cLoop ?k) (skelOf td ac po ?w)" using assms(5) by (simp add: anchored_def)
    have m: "mine tid c ?w" using assms(2,3) by (simp add: mine_def)
    have msg: "outcome (?P ?w) (msgCallback cbs tid c t ?w)"
      using msg_tame [OF m, of t] unfolding tame_outcome
    proof (rule outcome_weaken)
      fix w'
      assume "\<exists>n. touch c (replicate n (TClose c)) ?w w'"
      then obtain n where n: "touch c (replicate n (TClose c)) ?w w'" by blast
      have "follows td ac po ?w w'" by (rule closes_follow [OF n followsD(1) [OF f] _ an]) simp
      moreover obtain k' where "wConns w' = (wConns ?w)(c \<mapsto> k')" "same_conn ?k k'" using n by (auto simp: touch_def)
      ultimately show "?P ?w w'" by (simp add: same_conn_def)
    qed
    have "outcome (?P ?w) (handleClose tid cbs c ?w)"
      using close_follows [OF follows_fit [OF assms(1) f], of c ?k tid] assms(3,4) by simp
    with msg f show ?thesis by (auto elim!: outcome_weaken intro: follows_trans)
  qed
  then have "outcome (?P w) (bindR (readFd res (cInput k)) (\<lambda>(n, err, b). if 0 < n then msgCallback cbs tid c t (putConn c (k\<lparr>cInput := b\<rparr>) w)
      else if n = 0 then handleClose tid cbs c (putConn c (k\<lparr>cInput := b\<rparr>) w) else Inr (putConn c (k\<lparr>cInput := b\<rparr>) w)))"
    by (intro outcome_bind [OF outcome_orderly [OF orderly_buffer(3)]]) (simp add: case_prod_unfold)
  then show ?thesis using assms(2) by (simp add: conn_handleRead_def withConn_Some Let_def)
qed

lemma write_follows:
  assumes "world_ok w" and "wConns w c = Some k" and "po (cLoop k)" and "c \<notin> fst ` set (ac (cLoop k))"
    and "isInLoopThread tid (wLoops w (cLoop k))"
  shows "outcome (follows td ac po w) (conn_handleWrite tid cbs res c w)"
proof -
  have "still k" using world_okD(3) [OF assms(1,2)] by (simp add: conn_wf_def)
  moreover have "follows td ac po w w'" if "wrote c w w'" for w'
    by (rule wrote_follows [OF that assms(1,2)]) (fact assms)+
  ultimately show ?thesis using write_outcome [OF assms(2,5)] by (blast intro: outcome_weaken)
qed

text \<open>Reading before writing, then the end of the handler.\<close>

lemma calls_follow:
  assumes "fit td ac po w" and "wConns w c = Some k" and "isInLoopThread tid (wLoops w (cLoop k))"
    and "TWriteComplete c \<notin> set (pendingTasks (wLoops w (cLoop k)))" and "anchored c (cLoop k) (skelOf td ac po w)"
    and "po (cLoop k)" and "c \<notin> fst ` set (ac (cLoop k))"
  shows "outcome (follows td ac po w) (bindR (if b then conn_handleRead tid cbs rres t c w else Inr w)
      (\<lambda>w1. bindR (if b' then conn_handleWrite tid cbs wres c w1 else Inr w1) (\<lambda>w2. Inr (reap w2))))"
proof (rule outcome_bind)
  let ?P = "\<lambda>w'. follows td ac po w w' \<and> (\<exists>k'. wConns w' c = Some k' \<and> cLoop k' = cLoop k)"
  show "outcome ?P (if b then conn_handleRead tid cbs rres t c w else Inr w)"
    using read_follows [OF assms(1-5)] assms(1,2) by (simp add: follows_refl fit_def)
  fix w1 :: "'x world"
  assume "?P w1"
  then obtain k1 where f1: "follows td ac po w w1" and k1: "wConns w1 c = Some k1" "cLoop k1 = cLoop k" by blast
  have "outcome (follows td ac po w1) (conn_handleWrite tid cbs wres c w1)"
    by (rule write_follows [OF followsD(1) [OF f1] k1(1)]) (use k1(2) assms(3,6,7) followsD(4) [OF f1] in simp_all)
  then have "outcome (follows td ac po w1) (if b' then conn_handleWrite tid cbs wres c w1 else Inr w1)"
    using follows_refl [OF followsD(1) [OF f1]] by simp
  then have "outcome (follows td ac po w1) (bindR (if b' then conn_handleWrite tid cbs wres c w1 else Inr w1) (\<lambda>w2. Inr (reap w2)))"
    by (rule outcome_follows_bind) (use follows_fit [OF follows_fit [OF assms(1) f1]] in \<open>simp add: reap_follows\<close>)
  with f1 show "outcome (follows td ac po w) (bindR (if b' then conn_handleWrite tid cbs wres c w1 else Inr w1) (\<lambda>w2. Inr (reap w2)))"
    by (rule follows_via)
qed

lemma event_follows:
  assumes "fit td ac po w" and "ac l = (c, re) # evs" and "2 < c" and "distinct (map fst (ac l))"
    and "\<not> stopLooping (wLoops w l)"
  shows "outcome (\<lambda>w'. world_ok w' \<and> steady w w'
      \<and> skel_step\<^sup>*\<^sup>* (skelOf td ac po w) (skelOf td (ac(l := evs)) po w'))
    (connEvent (loopTid (wLoops w l)) cbs rres wres t re c w)"
proof -
  let ?ac = "ac(l := evs)" and ?tid = "loopTid (wLoops w l)"
  have ok: "world_ok w" and inv: "sk_inv (skelOf td ac po w)" using assms(1) by (simp_all add: fit_def)
  have act: "c \<in> skAct (skelOf td ac po w) l" using assms(2,3) by simp
  obtain k where k: "wConns w c = Some k" "cLoop k = l" using sk_event_live [OF inv act] by auto
  have an: "anchored c l (skelOf td ac po w)" using sk_plainD(3) [OF inv act] by (simp add: anchored_def)
  have "skPolled (skelOf td ac po w) l" using sk_writtenD(4) [OF inv, of l] act by blast
  then have po: "po l" by simp
  have wc: "TWriteComplete c \<notin> set (pendingTasks (wLoops w l))" using sk_writtenD(1) [OF inv, of c l] act by auto
  have "skelOf td ?ac po w = (skelOf td ac po w)\<lparr>skAct := (skAct (skelOf td ac po w))(l := skAct (skelOf td ac po w) l - {c})\<rparr>"
    using assms(2,4) by (intro skel_eqI) auto
  then have ev: "skel_step (skelOf td ac po w) (skelOf td ?ac po w)" using next_event [of "skelOf td ac po w" l c] by simp
  then have fit: "fit td ?ac po w" using ok sk_inv_step [OF inv] by (simp add: fit_def)
  let ?k = "k\<lparr>cChannel := setRevents re (cChannel k)\<rparr>"
  let ?w = "putConn c ?k w"
  have "touch c [] w ?w" by (rule touch_put [OF k(1)]) (simp_all add: same_conn_def still_def setRevents_def isNoneEvent_def)
  then have f: "follows td ?ac po w ?w" by (rule touch_follows [OF _ ok k(1)]) simp_all
  obtain b b' where calls: "handleEvent t (setRevents re (cChannel k))
      = (if b then [CallAt ConnHandleRead t] else []) @ (if b' then [Call ConnHandleWrite] else [])"
    by (rule conn_calls [OF world_okD(3) [OF ok k(1)]])
  have "outcome (follows td ?ac po ?w) (bindR (if b then conn_handleRead ?tid cbs rres t c ?w else Inr ?w)
      (\<lambda>w1. bindR (if b' then conn_handleWrite ?tid cbs wres c w1 else Inr w1) (\<lambda>w2. Inr (reap w2))))"
    by (rule calls_follow [OF follows_fit [OF fit f], where k = ?k])
      (use assms(2,4,5) k wc an po in \<open>auto simp: anchored_def isInLoopThread_def\<close>)
  from follows_via [OF f this] have "outcome (follows td ?ac po w) (connEvent ?tid cbs rres wres t re c w)"
    using k(1) by (cases b; cases b') (simp_all add: connEvent_def withConn_Some calls bindR_return bindR_assoc)
  then show ?thesis by (rule outcome_weaken) (use ev in \<open>auto simp: follows_def\<close>)
qed

text \<open>A task of the batch.\<close>

lemma pop_task:
  assumes "td l = t # ts" and "skDone t (skelOf td ac po w)"
  shows "skel_step (skelOf td ac po w) (skelOf (td(l := ts)) ac po w)"
proof -
  have "skelOf (td(l := ts)) ac po w = (skelOf td ac po w)\<lparr>skTodo := (skTodo (skelOf td ac po w))(l := set ts)\<rparr>"
    by (rule skel_eqI) auto
  moreover have "skel_step (skelOf td ac po w) \<dots>" by (rule next_task) (use assms in auto)
  ultimately show ?thesis by simp
qed

lemma destroy_follows:
  assumes "fit td ac po w" and "td l = TDestroyed c # ts" and "\<not> stopLooping (wLoops w l)"
  shows "outcome (\<lambda>w'. world_ok w' \<and> skel_step\<^sup>*\<^sup>* (skelOf td ac po w) (skelOf (td(l := ts)) ac po w'))
    (connectDestroyed (loopTid (wLoops w l)) cbs c w)"
proof -
  have ok: "world_ok w" and inv: "sk_inv (skelOf td ac po w)" using assms(1) by (simp_all add: fit_def)
  obtain k where k: "wConns w c = Some k" "cState k = kDisconnected" "cLoop k = l"
    using sk_closingD(2) [OF inv, of c l] assms(2) by auto
  have "outcome (retired c k w) (connectDestroyed (loopTid (wLoops w l)) cbs c w)"
    by (rule destroyed_outcome [OF k(1) _ k(2)]) (use assms(3) k(3) in \<open>simp add: isInLoopThread_def\<close>)
  then show ?thesis
    by (rule outcome_weaken) (use retired_follows [OF _ ok k(1), of _ td ts ac po] assms(2) k(3) in auto)
qed

lemma live_task_follows:
  assumes "fit td ac po w" and "t \<in> set (td l)" and "\<And>c. t \<noteq> TDestroyed c" and "\<not> stopLooping (wLoops w l)"
  shows "outcome (\<lambda>w'. follows td ac po w w' \<and> skDone t (skelOf td ac po w')) (runTask (loopTid (wLoops w l)) cbs t w)"
proof -
  let ?tid = "loopTid (wLoops w l)" and ?s = "skelOf td ac po w"
  have ok: "world_ok w" and inv: "sk_inv ?s" using assms(1) by (simp_all add: fit_def)
  have todo: "t \<in> skTodo ?s l" using assms(2) by simp
  have here: "isInLoopThread ?tid (wLoops w l)" using assms(4) by (simp add: isInLoopThread_def)
  have raw: "c \<in> set (rawRefs t) \<Longrightarrow> t = TClose c" for c by (rule sk_closingD(6) [OF inv todo])
  have home: "homeTask t \<Longrightarrow> srvLoop (wServer w) = l" using sk_placesD(4) [OF inv todo] by simp
  have own: "ownLoop t = Some m \<Longrightarrow> m = l" for m using sk_placesD(6) [OF inv todo] by simp
  show ?thesis
  proof (cases t)
    case (TEstablished c)
    obtain k where k: "wConns w c = Some k" "cLoop k = l" using sk_placesD(2) [OF inv, of c l] todo TEstablished by auto
    then have "outcome (enrolled c k w) (connectEstablished ?tid cbs c w)" using here by (intro established_outcome) simp_all
    then show ?thesis unfolding TEstablished runTask.simps
    proof (rule outcome_weaken)
      fix w' :: "'x world"
      assume "enrolled c k w w'"
      note e = enrolled_follows [OF this ok k(1), of td ac po]
      show "follows td ac po w w' \<and> skDone (TEstablished c) (skelOf td ac po w')" using e(1) unfolding skDone.simps e(2) by simp
    qed
  next
    case (TRemoveConnection c)
    then obtain k where k: "wConns w c = Some k" "cState k = kDisconnected"
      using sk_closingD(4) [OF inv, of c l] todo by auto
    from removeInLoop_outcome [OF k(1), of ?tid] home here TRemoveConnection
    have "outcome (\<lambda>w'. w' = unlinked c k w) (removeConnectionInLoop ?tid c w)" by simp
    then show ?thesis unfolding TRemoveConnection runTask.simps
      by (rule outcome_weaken) (use unlinked_follows [OF assms(1) k] in simp)
  next
    case (TClose c)
    obtain k where k: "wConns w c = Some k" "cLoop k = l" using sk_plainD(2) [OF inv, of c l] todo TClose by auto
    have "\<not> skPolled ?s l" using sk_writtenD(3) [OF inv, of l] todo by blast
    then have "TWriteComplete c \<notin> set (pendingTasks (wLoops w l))" using sk_writtenD(1) [OF inv, of c l] by auto
    with k here have "outcome (follows td ac po w) (handleClose ?tid cbs c w)"
      by (intro outcome_weaken [OF close_follows [OF assms(1) k(1)]]) auto
    then show ?thesis using k here follows_refl [OF ok] by (simp add: TClose closeInLoop_def world_simps)
  next
    case (TWriteComplete c)
    have w: "(\<exists>st. skObj ?s c = Some (st, l)) \<and> anchored c l ?s"
      using sk_writtenD(2) [OF inv, of c l] todo TWriteComplete by (simp add: anchored_def)
    then obtain k where k: "wConns w c = Some k" "cLoop k = l" by auto
    have m: "mine ?tid c w" using k here by (simp add: mine_def)
    show ?thesis
    proof (cases "writeCompleteCallback cbs")
      case (Some f)
      then show ?thesis using tame_follows [OF complete_tame [OF Some m] ok k(1)] w k(2) by (simp add: TWriteComplete)
    qed (simp add: TWriteComplete)
  qed (use raw assms(3) listen_follows [OF ok] acceptorOp_follows [OF ok] ownOp_follows [OF ok] home own here in auto)
qed

lemma task_follows:
  assumes "fit td ac po w" and "td l = t # ts" and "\<not> stopLooping (wLoops w l)"
  shows "outcome (\<lambda>w'. world_ok w' \<and> skel_step\<^sup>*\<^sup>* (skelOf td ac po w) (skelOf (td(l := ts)) ac po w'))
    (runTask (loopTid (wLoops w l)) cbs t w)"
proof (cases "\<exists>c. t = TDestroyed c")
  case True
  then show ?thesis using destroy_follows [OF assms(1) _ assms(3)] assms(2) by auto
next
  case False
  then have "outcome (\<lambda>w'. follows td ac po w w' \<and> skDone t (skelOf td ac po w')) (runTask (loopTid (wLoops w l)) cbs t w)"
    by (intro live_task_follows [OF assms(1) _ _ assms(3)]) (use assms(2) in auto)
  then show ?thesis
  proof (rule outcome_weaken)
    fix w' :: "'x world"
    assume w': "follows td ac po w w' \<and> skDone t (skelOf td ac po w')"
    then have "skel_step (skelOf td ac po w') (skelOf (td(l := ts)) ac po w')" by (intro pop_task [of td l t] assms(2)) simp
    with w' show "world_ok w' \<and> skel_step\<^sup>*\<^sup>* (skelOf td ac po w) (skelOf (td(l := ts)) ac po w')"
      by (auto simp: follows_def)
  qed
qed

end

section \<open>The loops' own channels\<close>

lemma idle_timers: "\<exists>r. tq_handleRead id True t t' (\<lambda>_. []) newTimerQueue = Inr r"
  by (simp add: tq_handleRead_def newTimerQueue_def getExpired_def reset_timers_def Let_def)

lemma ownCall_follows:
  assumes "world_ok w" and "isInLoopThread tid (wLoops w l)"
  shows "outcome (follows td ac po w) (ownCall tid l cl w)"
proof (cases "(tid, l, cl, w)" rule: ownCall.cases)
  case (1 tid' l' t w')
  let ?w = "putLoop l (loop_handleRead (wLoops w l)) w"
  have "conns_ok ?w" by (rule conns_ok_mono [OF world_okD(2) [OF assms(1)]]) (auto simp: same_conn_def)
  then have "world_ok ?w" using world_okD(1) [OF assms(1)] by (simp add: world_ok_def hosts_ok_def loop_handleRead_def)
  moreover have "skelOf td ac po ?w = skelOf td ac po w" by (rule skel_eqI) (auto simp: loop_handleRead_def)
  ultimately have "follows td ac po w ?w"
    by (intro follows_same) (simp_all add: steady_def isInLoopThread_def loop_handleRead_def)
  with 1 show ?thesis by simp
next
  case (2 tid' l' t w')
  then show ?thesis using assms idle_timers [of t t] follows_refl [OF assms(1)] by auto
qed (use follows_refl [OF assms(1)] in auto)

lemma ownEvent_follows:
  assumes "world_ok w" and "isInLoopThread tid (wLoops w l)"
  shows "outcome (follows td ac po w) (ownEvent tid t re l x w)"
proof -
  have run: "outcome (follows td ac po w') (runR (ownCall tid l) cls w')"
    if "world_ok w'" "isInLoopThread tid (wLoops w' l)" for cls and w' :: "'a world"
    using that
  proof (induction cls arbitrary: w')
    case (Cons cl cls)
    show ?case unfolding runR.simps
    proof (rule outcome_follows_bind [OF ownCall_follows [OF Cons.prems]])
      fix w1 :: "'a world"
      assume "follows td ac po w' w1"
      note f = followsD(1,4) [OF this]
      show "outcome (follows td ac po w1) (runR (ownCall tid l) cls w1)" by (rule Cons.IH) (use f Cons.prems in simp_all)
    qed
  qed (simp add: follows_refl)
  let ?ch = "setRevents re (wOwn w l x)"
  let ?w = "putOwn l x ?ch w"
  have "conns_ok ?w" by (rule conns_ok_mono [OF world_okD(2) [OF assms(1)]]) (auto simp: same_conn_def)
  moreover have "hostChannel (wServer w) (wOwn ?w) = hostChannel (wServer w) (wOwn w)"
    by (auto simp: fun_eq_iff hostChannel_def setRevents_def)
  then have "hosts_ok ?w" using world_okD(1) [OF assms(1)] by (simp add: hosts_ok_def setRevents_def)
  ultimately have ok: "world_ok ?w" by (simp add: world_ok_def)
  then have "follows td ac po w ?w" by (rule follows_same) (simp_all add: skelOf_def)
  then show ?thesis unfolding ownEvent_def Let_def by (rule follows_via) (rule run [OF ok], use assms(2) in simp)
qed

section \<open>The system\<close>

definition events_ok :: "'x server_sys \<Rightarrow> bool" where
  "events_ok s \<longleftrightarrow> (\<forall>l. distinct (map fst (syActive s l)))
     \<and> (\<forall>l. 0 \<in> fst ` set (syActive s l) \<longrightarrow> l = srvLoop (wServer (syWorld s)))"

definition sys_inv :: "'x server_sys \<Rightarrow> bool" where
  "sys_inv s \<longleftrightarrow> fit (syTodo s) (syActive s) (syPolled s) (syWorld s) \<and> events_ok s"

text \<open>An action keeps the invariant and is a run of the protocol.\<close>

definition advance :: "'x server_sys \<Rightarrow> 'x server_sys \<Rightarrow> bool" where
  "advance s s' \<longleftrightarrow> world_ok (syWorld s') \<and> skel_step\<^sup>*\<^sup>* (sysSkel s) (sysSkel s')
     \<and> events_ok s'"

lemma advance_inv: "sys_inv s \<Longrightarrow> advance s s' \<Longrightarrow> sys_inv s'"
  by (auto simp: sys_inv_def advance_def fit_def sysSkel_def intro: sk_inv_steps)

lemma advanceI:
  assumes "world_ok (syWorld s')" and "skel_step\<^sup>*\<^sup>* (sysSkel s) (sysSkel s')"
    and "\<And>l. distinct (map fst (syActive s' l))"
    and "\<And>l. 0 \<in> fst ` set (syActive s' l) \<Longrightarrow> l = srvLoop (wServer (syWorld s))"
  shows "advance s s'"
  unfolding advance_def events_ok_def using assms skel_steps_home [OF assms(2)] by (simp add: sysSkel_def)

lemma advance_same:
  assumes "sys_inv s" and "world_ok (syWorld s')" and "skel_step\<^sup>*\<^sup>* (sysSkel s) (sysSkel s')" and "syActive s' = syActive s"
  shows "advance s s'"
  by (rule advanceI [OF assms(2,3)]) (use assms(1,4) in \<open>simp_all add: sys_inv_def events_ok_def\<close>)

lemma start_advances:
  assumes "sys_inv s"
  shows "outcome (advance s) (sys_step cbs (SStart l tid) s)"
proof -
  let ?w = "syWorld s"
  have ok: "world_ok ?w" using assms by (simp add: sys_inv_def fit_def)
  have "advance s (s\<lparr>syWorld := putLoop l el ?w\<rparr>)" if "startLooping tid (wLoops ?w l) = Inr el" for el
  proof -
    have el: "pendingTasks el = pendingTasks (wLoops ?w l)"
      using that by (auto simp: startLooping_def assertR_def assertInLoopThread_def Let_def split: if_splits)
    have "hosts_ok (putLoop l el ?w)" using world_okD(1) [OF ok] el by (simp add: hosts_ok_def)
    moreover have "conns_ok (putLoop l el ?w)"
      by (rule conns_ok_mono [OF world_okD(2) [OF ok]]) (auto simp: same_conn_def)
    moreover have "sysSkel (s\<lparr>syWorld := putLoop l el ?w\<rparr>) = sysSkel s"
      unfolding sysSkel_def by (rule skel_eqI) (auto simp: el)
    ultimately show ?thesis by (intro advance_same [OF assms]) (simp_all add: world_ok_def)
  qed
  then show ?thesis by (simp, intro outcome_bind [OF outcome_orderly])
      (auto simp: startLooping_def assertR_def assertInLoopThread_def isInLoopThread_def Let_def)
qed

lemma take_advances:
  assumes "sys_inv s" and "sys_enabled (STake l) s"
  shows "outcome (advance s) (sys_step cbs (STake l) s)"
proof -
  let ?w = "syWorld s"
  let ?ts = "pendingTasks (wLoops ?w l)"
  let ?w' = "(putLoop l ((wLoops ?w l)\<lparr>pendingTasks := []\<rparr>) ?w)\<lparr>wBatch := (wBatch ?w)(l := ?ts)\<rparr>"
  let ?s' = "s\<lparr>syWorld := ?w', syTodo := (syTodo s)(l := ?ts), syPolled := (syPolled s)(l := False)\<rparr>"
  have ok: "world_ok ?w" using assms(1) by (simp add: sys_inv_def fit_def)
  have "hosts_ok ?w'" using world_okD(1) [OF ok] assms(2) by (simp add: hosts_ok_def looping_def)
  moreover have "conns_ok ?w'"
    by (rule conns_ok_mono [OF world_okD(2) [OF ok]]) (auto simp: same_conn_def)
  moreover have "sysSkel ?s' = (sysSkel s)\<lparr>skTodo := (skTodo (sysSkel s))(l := skPend (sysSkel s) l),
      skBatch := (skBatch (sysSkel s))(l := skPend (sysSkel s) l), skPend := (skPend (sysSkel s))(l := {}),
      skPolled := (skPolled (sysSkel s))(l := False)\<rparr>"
    unfolding sysSkel_def by (rule skel_eqI) auto
  moreover have "skel_step (sysSkel s) \<dots>" by (rule take_batch) (use assms(2) in \<open>auto simp: sysSkel_def\<close>)
  ultimately have "advance s ?s'" by (intro advance_same [OF assms(1)]) (simp_all add: world_ok_def)
  then show ?thesis by (simp add: takeTasks_def Let_def)
qed

lemma poll_advances:
  assumes "sys_inv s" and "sys_enabled (SPoll l evs) s"
  shows "outcome (advance s) (sys_step cbs (SPoll l evs) s)"
proof -
  let ?w = "syWorld s" and ?td = "syTodo s" and ?ac = "syActive s" and ?po = "syPolled s"
  let ?w1 = "?w\<lparr>wBatch := (wBatch ?w)(l := [])\<rparr>"
  let ?s' = "s\<lparr>syWorld := reap ?w1, syActive := ?ac(l := evs), syPolled := ?po(l := True)\<rparr>"
  have ok: "world_ok ?w" using assms(1) by (simp add: sys_inv_def fit_def)
  have "hosts_ok ?w1" using world_okD(1) [OF ok] by (simp add: hosts_ok_def)
  moreover have "conns_ok ?w1" by (rule conns_ok_mono [OF world_okD(2) [OF ok]]) (auto simp: same_conn_def)
  ultimately have ok1: "world_ok ?w1" by (simp add: world_ok_def)
  have drop: "skelOf ?td ?ac ?po ?w1 = skDrop l (sysSkel s)" unfolding sysSkel_def by (rule skel_eqI) auto
  have 1: "skel_step (sysSkel s) (skelOf ?td ?ac ?po (reap ?w1))" unfolding reap_ok(2) [OF ok1] drop skDrop_simps
    by (rule end_batch) (use assms(2) in \<open>simp add: sysSkel_def\<close>)
  let ?sk = "skelOf ?td ?ac ?po (reap ?w1)"
  have "sysSkel ?s' = ?sk\<lparr>skAct := (skAct ?sk)(l := fst ` set evs - {..2}), skPolled := (skPolled ?sk)(l := True)\<rparr>"
    unfolding sysSkel_def by (rule skel_eqI) auto
  moreover have "skel_step ?sk \<dots>" by (rule skel_step.poll) (use assms(2) in auto)
  ultimately have 3: "skel_step ?sk (sysSkel ?s')" by simp
  have "skel_step\<^sup>*\<^sup>* (sysSkel s) (sysSkel ?s')"
    using r_into_rtranclp [where r = skel_step, OF 1] rtranclp.rtrancl_into_rtrancl [where r = skel_step, OF _ 3] by blast
  then have "advance s ?s'"
  proof (rule advanceI [rotated])
    show "m = srvLoop (wServer ?w)" if m: "0 \<in> fst ` set (syActive ?s' m)" for m
    proof (cases "m = l")
      case True
      then obtain fd where "ep_registered (wPollers ?w l) fd = Some 0" using m assms(2) by auto
      then have "hostChannel (wServer ?w) (wOwn ?w) l 0 fd" using world_okD(1) [OF ok] by (simp add: hosts_ok_def)
      then show ?thesis using True by (simp add: hostChannel_def)
    next
      case False
      then show ?thesis using m assms(1) by (simp add: sys_inv_def events_ok_def)
    qed
  qed (use reap_ok(1) [OF ok1] assms in \<open>auto simp: sys_inv_def events_ok_def\<close>)
  then show ?thesis by (simp add: Let_def)
qed

context tame_user
begin

lemma run_advances:
  assumes "sys_inv s" and "sys_enabled (SRun l) s"
  shows "outcome (advance s) (sys_step cbs (SRun l) s)"
proof -
  obtain t ts where t: "syTodo s l = t # ts" using assms(2) by (cases "syTodo s l") auto
  have "outcome (\<lambda>w'. world_ok w' \<and> skel_step\<^sup>*\<^sup>* (skelOf (syTodo s) (syActive s) (syPolled s) (syWorld s))
      (skelOf ((syTodo s)(l := ts)) (syActive s) (syPolled s) w')) (runTask (loopTid (wLoops (syWorld s) l)) cbs t (syWorld s))"
    by (rule task_follows) (use assms t in \<open>simp_all add: sys_inv_def looping_def\<close>)
  then have "outcome (advance s) (bindR (runTask (loopTid (wLoops (syWorld s) l)) cbs t (syWorld s))
      (\<lambda>w. Inr (s\<lparr>syWorld := w, syTodo := (syTodo s)(l := ts)\<rparr>)))"
    by (rule outcome_bind) (auto intro!: advance_same [OF assms(1)] simp: sysSkel_def)
  then show ?thesis by (simp add: t)
qed

lemma event_advances:
  assumes "sys_inv s" and "sys_enabled (SEvent l rres wres t rs) s"
  shows "outcome (advance s) (sys_step cbs (SEvent l rres wres t rs) s)"
proof -
  let ?w = "syWorld s" and ?td = "syTodo s" and ?ac = "syActive s" and ?po = "syPolled s"
  let ?tid = "loopTid (wLoops ?w l)"
  obtain c re evs where a: "?ac l = (c, re) # evs" using assms(2) by (cases "?ac l") auto
  have fit: "fit ?td ?ac ?po ?w" and ok: "world_ok ?w" using assms(1) by (simp_all add: sys_inv_def fit_def)
  have dist: "distinct (map fst (?ac l))" using assms(1) by (simp add: sys_inv_def events_ok_def)
  then have dist': "distinct (map fst evs)" using a by simp
  let ?m = "if c = 0 then acceptor_handleRead ?tid cbs rs ?w
      else if c = ownId WakeupChannel then ownEvent ?tid t re l WakeupChannel ?w
      else if c = ownId TimerChannel then ownEvent ?tid t re l TimerChannel ?w
      else connEvent ?tid cbs rres wres t re c ?w"
  have here: "isInLoopThread ?tid (wLoops ?w l)" using assms(2) by (simp add: isInLoopThread_def looping_def)
  have "outcome (\<lambda>w'. world_ok w' \<and> skel_step\<^sup>*\<^sup>* (sysSkel s) (skelOf ?td (?ac(l := evs)) ?po w')) ?m"
  proof (cases "c \<le> 2")
    case True
    have same: "skelOf ?td (?ac(l := evs)) ?po w' = skelOf ?td ?ac ?po w'" for w' :: "'x world"
      using a True by (intro skel_eqI) auto
    have "srvLoop (wServer ?w) = l" if "c = 0" using assms(1) a that unfolding sys_inv_def events_ok_def
      by (metis fst_conv image_eqI list.set_intros(1))
    then have "outcome (follows ?td ?ac ?po ?w) (acceptor_handleRead ?tid cbs rs ?w)" if "c = 0"
      using that by (intro acceptor_follows [OF fit]) (use assms(2) here in simp_all)
    then have "outcome (follows ?td ?ac ?po ?w) ?m" using ownEvent_follows [OF ok here] True by auto
    then show ?thesis by (rule outcome_weaken) (auto simp: follows_def same sysSkel_def)
  next
    case False
    then have c: "2 < c" by simp
    have "outcome (\<lambda>w'. world_ok w' \<and> steady ?w w'
        \<and> skel_step\<^sup>*\<^sup>* (skelOf ?td ?ac ?po ?w) (skelOf ?td (?ac(l := evs)) ?po w')) (connEvent ?tid cbs rres wres t re c ?w)"
      by (rule event_follows [OF fit a c dist]) (use assms(2) in \<open>simp add: looping_def\<close>)
    then show ?thesis using c by (auto simp: sysSkel_def elim!: outcome_weaken)
  qed
  then have "outcome (advance s) (bindR ?m (\<lambda>w1. Inr (s\<lparr>syWorld := w1, syActive := ?ac(l := evs)\<rparr>)))"
  proof (rule outcome_bind)
    fix w1 :: "'x world"
    assume w1: "world_ok w1 \<and> skel_step\<^sup>*\<^sup>* (sysSkel s) (skelOf ?td (?ac(l := evs)) ?po w1)"
    have "advance s (s\<lparr>syWorld := w1, syActive := ?ac(l := evs)\<rparr>)"
      by (rule advanceI) (use w1 assms(1) a dist' in \<open>auto simp: sysSkel_def sys_inv_def events_ok_def split: if_splits\<close>)
    then show "outcome (advance s) (Inr (s\<lparr>syWorld := w1, syActive := ?ac(l := evs)\<rparr>))" by simp
  qed
  then show ?thesis by (simp add: a Let_def)
qed

lemma step_advances: "sys_inv s \<Longrightarrow> sys_enabled x s \<Longrightarrow> outcome (advance s) (sys_step cbs x s)"
  by (cases x) (simp_all only: start_advances take_advances run_advances poll_advances event_advances)

lemma reach_advances:
  assumes "sys_reach cbs s0 s" and "sys_inv s0"
  shows "sys_inv s \<and> skel_step\<^sup>*\<^sup>* (sysSkel s0) (sysSkel s)"
  using assms(1)
proof (induction rule: sys_reach.induct)
  case (step s x s')
  then have "advance s s'" using step_advances [of s x] by simp
  with step.IH advance_inv [of s s'] show ?case by (auto simp: advance_def)
qed (use assms(2) in simp)

end

section \<open>The system as \<^verbatim>\<open>main\<close> leaves it\<close>

text \<open>A loop whose constructor has run, its two channels, and the world with \<open>n\<close> such loops.\<close>

definition readyLoop :: "nat \<Rightarrow> task event_loop" where
  "readyLoop l = \<lparr>stopLooping = True, loopTid = -1,
     pendingTasks = [TOwnAdd l WakeupChannel, TOwnUpdate l WakeupChannel, TOwnAdd l TimerChannel, TOwnUpdate l TimerChannel],
     wakeupCount = 4\<rparr>"

fun ownChans :: "int \<times> int \<times> int \<Rightarrow> nat \<Rightarrow> own_channel \<Rightarrow> loop_cb channel" where
  "ownChans (ep, ev, tf) l WakeupChannel = readingEvents True (setReadCallback LoopHandleRead (newChannel 1 l ev))"
| "ownChans (ep, ev, tf) l TimerChannel = readingEvents True (setReadCallback TimerHandleRead (newChannel 2 l tf))"

definition readied :: "nat \<Rightarrow> (nat \<Rightarrow> int \<times> int \<times> int) \<Rightarrow> 'x world \<Rightarrow> 'x world" where
  "readied n lrets w = w\<lparr>wLoops := \<lambda>l. if l < n then readyLoop l else wLoops w l,
     wPollers := \<lambda>l. if l < n then newEPollPoller else wPollers w l,
     wOwn := \<lambda>l. if l < n then ownChans (lrets l) l else wOwn w l\<rparr>"

fun granted :: "int \<times> int \<times> int \<Rightarrow> bool" where
  "granted (ep, ev, tf) \<longleftrightarrow> 0 \<le> ep \<and> 0 \<le> ev"

lemma own_pair: "f(WakeupChannel := a, TimerChannel := b) = (\<lambda>x. case x of WakeupChannel \<Rightarrow> a | TimerChannel \<Rightarrow> b)"
  by (rule ext) (simp split: own_channel.splits)

lemma constructLoop_eq:
  "constructLoop tid rets l w = (if granted rets then Inr (w\<lparr>wLoops := (wLoops w)(l := readyLoop l),
      wPollers := (wPollers w)(l := newEPollPoller), wOwn := (wOwn w)(l := ownChans rets l)\<rparr>) else Inl Aborted)"
proof -
  obtain ep ev tf where r: "rets = (ep, ev, tf)" by (cases rets)
  have own: "ownChans (ep, ev, tf) l = (\<lambda>x. case x of
      WakeupChannel \<Rightarrow> readingEvents True (setReadCallback LoopHandleRead (newChannel 1 l ev))
    | TimerChannel \<Rightarrow> readingEvents True (setReadCallback TimerHandleRead (newChannel 2 l tf)))"
    by (rule ext) (simp split: own_channel.splits)
  have four: "(4 :: nat) = Suc (Suc (Suc (Suc 0)))" by simp
  show ?thesis
    by (cases w, simp add: r own constructLoop_def watchLoop_def createEPollPoller_def createEventfd_def createTimerfd_def runInLoop_def
        isInLoopThread_def newEventLoop_def queueTask_def perform_queue pushTask_def wakeup_def eventfdMax_def putLoop_def
        putOwn_def readyLoop_def fun_upd_twist Let_def own_pair four)
qed

lemma constructLoops_eq:
  "runR (\<lambda>l. constructLoop tid (lrets l) l) [0..<n] w
    = (if \<forall>l < n. granted (lrets l) then Inr (readied n lrets w) else Inl Aborted)"
proof (induction n)
  case (Suc n)
  have app: "runR f (xs @ ys) v = bindR (runR f xs v) (runR f ys)" for f :: "'o \<Rightarrow> 'b \<Rightarrow> 'b result" and xs ys v
  proof (induction xs arbitrary: v)
    case (Cons x xs)
    then show ?case by (cases "f x v") simp_all
  qed simp
  have "(readied n lrets w)\<lparr>wLoops := (wLoops (readied n lrets w))(n := readyLoop n),
      wPollers := (wPollers (readied n lrets w))(n := newEPollPoller),
      wOwn := (wOwn (readied n lrets w))(n := ownChans (lrets n) n)\<rparr> = readied (Suc n) lrets w"
    by (simp add: readied_def fun_eq_iff less_Suc_eq)
  then show ?case using Suc by (auto simp: app constructLoop_eq less_Suc_eq)
qed (simp add: readied_def)

definition bootedWorld :: "nat \<Rightarrow> (nat \<Rightarrow> int \<times> int \<times> int) \<Rightarrow> (effect \<Rightarrow> int) \<Rightarrow> sockaddr_in \<Rightarrow> int \<Rightarrow> 'x world" where
  "bootedWorld n lrets kern addr fd =
     queueTask 0 TListen (readied (n + 1) lrets
       (initWorld n kern ((freshServer addr fd (newEventLoops n))\<lparr>srvStarted := True\<rparr>)))"

lemma boot_eq:
  "bootServer tid (sockRet, optRet, bindRet) lrets kern n addr
    = (if \<forall>l < n + 1. granted (lrets l)
       then mapR (bootedWorld n lrets kern addr) (bindR (createNonblockingSock sockRet) (\<lambda>fd.
              bindR (setReuseAddr optRet) (\<lambda>_. bindR (bindAddr bindRet) (\<lambda>_. Inr fd))))
       else Inl Aborted)"
proof -
  have "start tid (putServer (freshServer addr fd (newEventLoops n)) (readied (n + 1) lrets (initWorld n kern srv)))
      = Inr (bootedWorld n lrets kern addr fd)" for fd srv
    by (simp add: start_def Let_def freshServer_def runInLoop_def isInLoopThread_def readied_def readyLoop_def
        initWorld_def putServer_def bootedWorld_def cong: if_cong)
  then show ?thesis unfolding bootServer_def constructLoops_def constructLoops_eq newServer_def
    by (auto simp: createNonblockingSock_def setReuseAddr_def bindAddr_def assertR_def)
qed

lemma boot_inv:
  assumes "bootServer tid rets lrets kern n addr = Inr w"
  shows "sys_inv (launched w)"
proof -
  obtain fd where w: "w = bootedWorld n lrets kern addr fd"
    using assms by (cases rets) (auto simp: boot_eq mapR_eq_Inr split: if_splits)
  have reg: "ep_registered newEPollPoller = Map.empty" by (simp add: ep_abs_new)
  have id: "chId (ownChans r l x) = ownId x" for r l x
    by (cases r; cases x) (simp_all add: readingEvents_def setReadCallback_def newChannel_def)
  have "hosts_ok w" unfolding w
    by (auto simp: hosts_ok_def bootedWorld_def readied_def readyLoop_def initWorld_def freshServer_def newEventLoops_def
        setReadCallback_def newChannel_def newEventLoop_def reg id)
  moreover have "conns_ok w" unfolding w by (auto simp: conns_ok_def bootedWorld_def readied_def initWorld_def freshServer_def reg)
  ultimately have "world_ok w" by (simp add: world_ok_def)
  moreover have "sk_inv (sysSkel (launched w))" unfolding sk_inv_def w
    by (intro conjI sk_objectsI sk_closingI sk_placesI sk_plainI sk_writtenI sk_exactI)
      (auto simp: sysSkel_def launched_def bootedWorld_def readied_def readyLoop_def initWorld_def freshServer_def
        newEventLoop_def reg split: if_splits)
  ultimately show ?thesis by (simp add: sys_inv_def fit_def sysSkel_def launched_def events_ok_def)
qed

text \<open>A scripted run, for concrete systems.\<close>

fun sys_ready :: "'x callbacks \<Rightarrow> sys_op list \<Rightarrow> 'x server_sys \<Rightarrow> bool" where
  "sys_ready cbs [] s = True"
| "sys_ready cbs (x # xs) s =
     (sys_enabled x s \<and> (case sys_step cbs x s of Inl _ \<Rightarrow> False | Inr s' \<Rightarrow> sys_ready cbs xs s'))"

lemma reach_run:
  assumes "sys_reach cbs s0 s" and "sys_ready cbs xs s" and "runR (sys_step cbs) xs s = Inr s'"
  shows "sys_reach cbs s0 s'"
  using assms
proof (induction xs arbitrary: s)
  case (Cons x xs)
  then obtain s1 where "sys_step cbs x s = Inr s1" "runR (sys_step cbs) xs s1 = Inr s'" by (auto simp: result_simps)
  with Cons show ?case by (auto intro: sys_reach.step)
qed simp

text \<open>A loop starts, registers its two channels and waits.\<close>

definition idleLoop :: "nat \<Rightarrow> task event_loop" where
  "idleLoop l = \<lparr>stopLooping = False, loopTid = int l + 1, pendingTasks = [], wakeupCount = 4\<rparr>"

definition ctlCalls :: "'cb channel \<Rightarrow> ctl_call list" where
  "ctlCalls ch = map (\<lambda>op. \<lparr>ctlOp = op, ctlFd = chFd ch, ctlEvents = chEvents ch, ctlPtr = chId ch\<rparr>) [EPOLL_CTL_ADD, EPOLL_CTL_MOD]"

definition ownPoller :: "(own_channel \<Rightarrow> loop_cb channel) \<Rightarrow> epoll_poller" where
  "ownPoller own = newEPollPoller
     \<lparr>epChannels := [chFd (own WakeupChannel) \<mapsto> (1, ADDED), chFd (own TimerChannel) \<mapsto> (2, ADDED)],
      epCalls := ctlCalls (own WakeupChannel) @ ctlCalls (own TimerChannel)\<rparr>"

definition waitingLoop :: "nat \<Rightarrow> 'x world \<Rightarrow> 'x world" where
  "waitingLoop l w = w\<lparr>wLoops := (wLoops w)(l := idleLoop l), wPollers := (wPollers w)(l := ownPoller (wOwn w l))\<rparr>"

definition settleOps :: "nat \<Rightarrow> sys_op list" where
  "settleOps l = [SStart l (int l + 1), STake l, SRun l, SRun l, SRun l, SRun l, SPoll l []]"

lemma reap_none: "wConns w = Map.empty \<Longrightarrow> reap w = w"
proof -
  have "wConns w = Map.empty \<Longrightarrow> fold destroyConn cs w = w" for cs
    by (induction cs) (simp_all add: destroyConn_def)
  then show "wConns w = Map.empty \<Longrightarrow> reap w = w" by (simp add: reap_def)
qed

lemma settle_loop:
  assumes "wLoops w l = readyLoop l" and "wPollers w l = newEPollPoller" and "wOwn w l = ownChans (ep, ev, tf) l"
    and "ev \<noteq> tf" and "wConns w = Map.empty" and "wBatch w = (\<lambda>_. [])" and "l < wLoopCount w"
  shows "runR (sys_step cbs) (settleOps l) (launched w) = Inr (launched (waitingLoop l w))"
    and "sys_ready cbs (settleOps l) (launched w)"
proof -
  note eval = settleOps_def launched_def waitingLoop_def readyLoop_def idleLoop_def ownPoller_def ctlCalls_def startLooping_def assertR_def
    assertInLoopThread_def isInLoopThread_def Let_def putLoop_def takeTasks_def ownOp_def pollerOp_def assertIn_def ep_addChannel_def
    ep_updateChannel_def ep_update_def newEPollPoller_def readingEvents_def setReadCallback_def newChannel_def isNoneEvent_def
    poll_bits reap_none fun_upd_idem looping_def
  show "runR (sys_step cbs) (settleOps l) (launched w) = Inr (launched (waitingLoop l w))"
    using assms by (cases w) (simp add: eval)
  show "sys_ready cbs (settleOps l) (launched w)"
    using assms by (cases w) (simp add: eval)
qed

text \<open>
  \<^verbatim>\<open>httpsvr\<close> with its sixteen sub loops, whose descriptors come first; the sub loops start and wait. Then
  the base loop starts and listens, its wake-up channel and the acceptor are reported, it accepts a
  connection for the first sub loop, which establishes it, and the poller of that loop reports the
  connection as readable.
\<close>

definition httpRets :: "nat \<Rightarrow> int \<times> int \<times> int" where
  "httpRets l = (3 * int l + 3, 3 * int l + 5, 3 * int l + 4)"

definition httpWorld :: "http_context world" where
  "httpWorld = bootedWorld 16 httpRets (\<lambda>_. 0) (listenAddr 9982) 54"

definition settledWorld :: "nat \<Rightarrow> http_context world" where
  "settledWorld n = httpWorld
     \<lparr>wLoops := \<lambda>l. if 0 < l \<and> l \<le> n then idleLoop l else wLoops httpWorld l,
      wPollers := \<lambda>l. if 0 < l \<and> l \<le> n then ownPoller (ownChans (httpRets l) l) else newEPollPoller\<rparr>"

lemma boot_httpWorld: "httpsvr_main 1 (54, 0, 0) httpRets (\<lambda>_. 0) [''httpsvr''] = Inr httpWorld"
  by (simp add: httpsvr_main_def boot_eq httpRets_def createNonblockingSock_def setReuseAddr_def bindAddr_def assertR_def
      httpWorld_def)

lemmas booted_eval = httpWorld_def bootedWorld_def readied_def initWorld_def freshServer_def queueTask_def perform_queue pushTask_def
  wakeup_def eventfdMax_def putLoop_def

lemma httpWorld_parts:
  "wConns httpWorld = Map.empty" "wBatch httpWorld = (\<lambda>_. [])" "wLoopCount httpWorld = 17"
  "0 < l \<Longrightarrow> l \<le> 16 \<Longrightarrow> wLoops httpWorld l = readyLoop l" "wPollers httpWorld = (\<lambda>_. newEPollPoller)"
  "l \<le> 16 \<Longrightarrow> wOwn httpWorld l = ownChans (httpRets l) l"
  by (simp_all add: booted_eval cong: if_cong)

lemma settled_reach: "n \<le> 16 \<Longrightarrow> sys_reach cbs (launched httpWorld) (launched (settledWorld n))"
proof (induction n)
  case 0
  have none: "(0 < l \<and> l \<le> 0) = False" for l :: nat by auto
  have "settledWorld 0 = httpWorld" unfolding settledWorld_def none if_False httpWorld_parts(5) [symmetric] by simp
  then show ?case by (simp add: sys_reach.start)
next
  case (Suc n)
  let ?l = "Suc n" and ?w = "settledWorld n"
  have w: "wLoops ?w ?l = readyLoop ?l" "wPollers ?w ?l = newEPollPoller" "wOwn ?w ?l = ownChans (httpRets ?l) ?l"
    "wConns ?w = Map.empty" "wBatch ?w = (\<lambda>_. [])" "?l < wLoopCount ?w"
    using Suc.prems httpWorld_parts by (simp_all add: settledWorld_def)
  note run = settle_loop [OF w(1,2) w(3) [unfolded httpRets_def] _ w(4-6)]
  have "waitingLoop ?l ?w = settledWorld ?l"
    unfolding waitingLoop_def w(3) by (simp add: settledWorld_def fun_eq_iff less_Suc_eq_le le_Suc_eq)
  then show ?case using reach_run [OF _ run(2,1)] Suc by simp
qed

lemma reap_served: "dom (wConns w) \<subseteq> snd ` set (srvConns (wServer w)) \<Longrightarrow> reap w = w"
proof -
  assume "dom (wConns w) \<subseteq> snd ` set (srvConns (wServer w))"
  then have "c \<notin> set (kept w) \<Longrightarrow> wConns w c = None" for c using kept_served [of w] by blast
  moreover have "\<forall>c \<in> set cs. wConns w c = None \<Longrightarrow> fold destroyConn cs w = w" for cs
    by (induction cs) (simp_all add: destroyConn_def)
  ultimately show "reap w = w" by (simp add: reap_def)
qed

lemma wake_event:
  assumes "readCallback (wOwn w l WakeupChannel) = Some LoopHandleRead" and "errorCallback (wOwn w l WakeupChannel) = None"
    and "closeCallback (wOwn w l WakeupChannel) = None" and "writeCallback (wOwn w l WakeupChannel) = None"
  shows "ownEvent tid t 1 l WakeupChannel w
    = Inr (putLoop l (loop_handleRead (wLoops w l)) (putOwn l WakeupChannel ((wOwn w l WakeupChannel)\<lparr>chRevents := 1\<rparr>) w))"
  using assms by (simp add: ownEvent_def handleEvent_def setRevents_def callIf_def Let_def poll_bits)

lemmas sys_eval = booted_eval settledWorld_def readyLoop_def idleLoop_def ownPoller_def ctlCalls_def httpRets_def newEventLoop_def
  launched_def startLooping_def assertInLoopThread_def isInLoopThread_def assertR_def Let_def looping_def
  takeTasks_def listen_def kernelCall_def listenSock_def emit_def putServer_def runInLoop_def ownOp_def wake_event putOwn_def
  loop_handleRead_def
  acceptorOp_def pollerOp_def assertIn_def ep_addChannel_def ep_updateChannel_def ep_update_def newEPollPoller_def
  newChannel_def setReadCallback_def readingEvents_def isNoneEvent_def poll_bits ep_registered_def
  acceptor_handleRead_def acceptSock_def newConnection_def getLocalAddr_def allocLoop_def newEventLoops_def putConn_def
  connectEstablished_def withConn_def setState_def loopAddChannel_def connPollerOp_def enableReading_def
  changeInterest_def loopUpdateChannel_def newConn_def setWriteCallback_def httpCallbacks_def onState_def reap_served

definition listenRun :: "sys_op list" where
  "listenRun = [SStart 0 1, STake 0, SRun 0, SRun 0, SRun 0, SRun 0, SRun 0, SPoll 0 [(1, 1), (0, 1)],
     SEvent 0 (ReadvBytes []) (Wrote 0) 0 [],
     SEvent 0 (ReadvBytes []) (Wrote 0) 0 [(55, listenAddr 5, 0, listenAddr 80)]]"

definition httpRun :: "sys_op list" where
  "httpRun = listenRun @ [STake 1, SRun 1, SPoll 1 [(3, 1)]]"

lemma httpRun_reach:
  obtains s where "sys_reach (httpCallbacks env rp) (launched httpWorld) s" "syActive s 1 = [(3, 1)]" "looping 1 s"
    "srvNextId (wServer (syWorld s)) = 2" "ep_registered (wPollers (syWorld s) 1) 55 = Some 3"
    "sys_idle s" "wConns (syWorld s) 3 \<noteq> None"
proof -
  have "\<exists>s. runR (sys_step (httpCallbacks env rp)) httpRun (launched (settledWorld 16)) = Inr s \<and> syActive s 1 = [(3, 1)] \<and> looping 1 s
      \<and> srvNextId (wServer (syWorld s)) = 2 \<and> ep_registered (wPollers (syWorld s) 1) 55 = Some 3
      \<and> sys_idle s \<and> wConns (syWorld s) 3 \<noteq> None"
    by (simp add: httpRun_def listenRun_def sys_eval sys_idle_def)
  moreover have "sys_ready (httpCallbacks env rp) httpRun (launched (settledWorld 16))"
    by (simp add: httpRun_def listenRun_def sys_eval) presburger
  ultimately show thesis using that reach_run [OF settled_reach] by blast
qed

lemma main_inv:
  "httpsvr_main tid rets lrets kern args = Inr w \<Longrightarrow> sys_inv (launched w)"
  "echosvr_main tid rets lrets kern args = Inr w' \<Longrightarrow> sys_inv (launched w')"
  by (auto simp: httpsvr_main_def echosvr_main_def Let_def result_simps intro: boot_inv split: if_splits)

section \<open>Properties\<close>

text \<open>
  C1: the HTTP server never touches a destroyed connection and never leaves its threads. From the state that \<^verbatim>\<open>main\<close> of
  \<^verbatim>\<open>httpsvr\<close> leaves, in every interleaving of its loops between tasks and event handlers, with any
  events, any data read and written, any accepted sockets and any files: whatever action is
  possible next, it does not end in a use after free, although tasks, pollers and lists of active
  channels hold plain pointers, nor in \<^verbatim>\<open>abortNotInLoopThread()\<close>: every handler that asserts a loop's
  thread runs on it.
\<close>

theorem server_stays_safe:
  assumes "httpsvr_main tid rets lrets kern args = Inr w" and "sys_reach (httpCallbacks env rp) (launched w) s"
    and "sys_enabled x s"
  shows "sys_step (httpCallbacks env rp) x s \<noteq> Inl UseAfterFree \<and> sys_step (httpCallbacks env rp) x s \<noteq> Inl Aborted"
proof -
  have "sys_inv s" using http_tame.reach_advances [OF assms(2) main_inv(1) [OF assms(1)]] by simp
  then have "outcome (advance s) (sys_step (httpCallbacks env rp) x s)" using assms(3) by (rule http_tame.step_advances)
  then show ?thesis by auto
qed

theorem server_stays_safe_witness:
  "\<exists>s. sys_reach (httpCallbacks bigFile []) (launched httpWorld) s \<and> syActive s 1 = [(3, 1)]
     \<and> sys_enabled (SEvent 1 (ReadvBytes []) (Wrote 0) 0 []) s
     \<and> sys_step (httpCallbacks bigFile []) (SEvent 1 (ReadvBytes []) (Wrote 0) 0 []) s \<noteq> Inl UseAfterFree"
proof -
  obtain s where s: "sys_reach (httpCallbacks bigFile []) (launched httpWorld) s" "syActive s 1 = [(3, 1)]" "looping 1 s"
    "srvNextId (wServer (syWorld s)) = 2" by (rule httpRun_reach)
  then have "sys_enabled (SEvent 1 (ReadvBytes []) (Wrote 0) 0 []) s" by simp
  with server_stays_safe [OF boot_httpWorld s(1) this] s show ?thesis by blast
qed

text \<open>
  C2: every run of \<^verbatim>\<open>httpsvr\<close> is a run of the connection protocol, and no poller ever refers to a
  stale channel: each registered channel is the acceptor's, in the poller of the server's loop, or
  one of the two channels that the constructor of the loop made, or it belongs to a connection that
  exists, is served by the loop of that poller and owns the descriptor it is registered for.
\<close>

theorem server_refines_protocol:
  assumes "httpsvr_main tid rets lrets kern args = Inr w" and "sys_reach (httpCallbacks env rp) (launched w) s"
  shows "skel_step\<^sup>*\<^sup>* (sysSkel (launched w)) (sysSkel s)
    \<and> (ep_registered (wPollers (syWorld s) l) fd = Some c
       \<longrightarrow> (c = 0 \<and> l = srvLoop (wServer (syWorld s)) \<and> fd = chFd (srvAcceptChannel (wServer (syWorld s))))
         \<or> (c = ownId WakeupChannel \<and> fd = chFd (wOwn (syWorld s) l WakeupChannel))
         \<or> (c = ownId TimerChannel \<and> fd = chFd (wOwn (syWorld s) l TimerChannel))
         \<or> (\<exists>k. wConns (syWorld s) c = Some k \<and> cLoop k = l \<and> cSock k = fd))"
proof (intro conjI impI)
  note adv = http_tame.reach_advances [OF assms(2) main_inv(1) [OF assms(1)]]
  then show "skel_step\<^sup>*\<^sup>* (sysSkel (launched w)) (sysSkel s)" by simp
  have inv: "sk_inv (sysSkel s)" "world_ok (syWorld s)" using adv by (simp_all add: sys_inv_def fit_def sysSkel_def)
  assume reg: "ep_registered (wPollers (syWorld s) l) fd = Some c"
  show "(c = 0 \<and> l = srvLoop (wServer (syWorld s)) \<and> fd = chFd (srvAcceptChannel (wServer (syWorld s))))
      \<or> (c = ownId WakeupChannel \<and> fd = chFd (wOwn (syWorld s) l WakeupChannel))
      \<or> (c = ownId TimerChannel \<and> fd = chFd (wOwn (syWorld s) l TimerChannel))
      \<or> (\<exists>k. wConns (syWorld s) c = Some k \<and> cLoop k = l \<and> cSock k = fd)"
  proof (cases "c \<le> 2")
    case True
    then have "hostChannel (wServer (syWorld s)) (wOwn (syWorld s)) l c fd"
      using world_okD(1) [OF inv(2)] reg by (simp add: hosts_ok_def)
    then show ?thesis unfolding hostChannel_def by blast
  next
    case False
    then have c: "2 < c" by simp
    then obtain k where k: "wConns (syWorld s) c = Some k" "cLoop k = l"
      using sk_plainD(4) [OF inv(1), of c l] reg by (auto simp: sysSkel_def)
    with conns_okD(4) [OF world_okD(2) [OF inv(2)] reg c] show ?thesis by blast
  qed
qed

theorem server_refines_protocol_witness:
  "\<exists>(s :: http_context server_sys) k. skel_step\<^sup>*\<^sup>* (sysSkel (launched httpWorld)) (sysSkel s)
     \<and> ep_registered (wPollers (syWorld s) 1) 55 = Some 3 \<and> wConns (syWorld s) 3 = Some k \<and> cLoop k = 1 \<and> cSock k = 55"
proof -
  obtain s where s: "sys_reach (httpCallbacks bigFile []) (launched httpWorld) s"
    "ep_registered (wPollers (syWorld s) 1) 55 = Some 3" by (rule httpRun_reach)
  from server_refines_protocol [OF boot_httpWorld s(1), of 1 55 3] s(2)
  have "skel_step\<^sup>*\<^sup>* (sysSkel (launched httpWorld)) (sysSkel s)"
    "\<exists>k. wConns (syWorld s) 3 = Some k \<and> cLoop k = 1 \<and> cSock k = 55" by auto
  with s(2) show ?thesis by blast
qed

text \<open>What the invariant says of the objects: they are the ones somebody owns.\<close>

lemma owned_objects:
  assumes "sys_inv s"
  shows "dom (wConns (syWorld s)) = set (kept (syWorld s))"
proof -
  have ok: "world_ok (syWorld s)" and inv: "sk_inv (sysSkel s)" using assms by (simp_all add: sys_inv_def fit_def sysSkel_def)
  have "dom (skObj (sysSkel s)) = skStrong (sysSkel s)" using inv by (auto simp: sk_inv_def sk_objects_def sk_exact_def)
  moreover have "dom (skObj (sysSkel s)) = dom (wConns (syWorld s))" by (auto simp: sysSkel_def)
  ultimately show ?thesis using strong_kept [OF world_okD(1) [OF ok]] by (simp add: sysSkel_def)
qed

lemma idle_tasks:
  assumes "sys_inv s" and "sys_idle s"
  shows "skPend (sysSkel s) l = {}" "skTodo (sysSkel s) l = {}" "skBatch (sysSkel s) l = {}"
proof -
  have ok: "world_ok (syWorld s)" and inv: "sk_inv (sysSkel s)" using assms(1) by (simp_all add: sys_inv_def fit_def sysSkel_def)
  show p: "skPend (sysSkel s) l = {}" and b: "skBatch (sysSkel s) l = {}"
    using world_okD(1) [OF ok] assms(2) sk_writtenD(5) [OF inv, of l]
    by (cases "l < wLoopCount (syWorld s)"; simp add: hosts_ok_def sys_idle_def sysSkel_def)+
  show "skTodo (sysSkel s) l = {}" using sk_objectsD(4) [OF inv, of _ l] b by blast
qed

lemma idle_conn:
  assumes "sys_inv s" and "sys_idle s" and "wConns (syWorld s) c = Some k"
  shows "(cName k, c) \<in> set (srvConns (wServer (syWorld s)))" "cState k = kConnected \<or> cState k = kDisconnecting"
    "ep_registered (wPollers (syWorld s) (cLoop k)) (cSock k) = Some c"
proof -
  have ok: "world_ok (syWorld s)" and inv: "sk_inv (sysSkel s)" using assms(1) by (simp_all add: sys_inv_def fit_def sysSkel_def)
  note D = conns_okD [OF world_okD(2) [OF ok]] and idle = idle_tasks [OF assms(1,2)]
  have obj: "skObj (sysSkel s) c = Some (cState k, cLoop k)" using assms(3) by (simp add: sysSkel_def)
  have m: "c \<in> skMap (sysSkel s)" using sk_exactD(1) [OF inv obj] idle by (simp add: skStrong_def)
  then obtain n where n: "(n, c) \<in> set (srvConns (wServer (syWorld s)))" by (auto simp: sysSkel_def)
  then show "(cName k, c) \<in> set (srvConns (wServer (syWorld s)))" using D(3) [OF n assms(3)] by simp
  have "cState k \<noteq> kConnecting" using sk_exactD(2) [OF inv, of c "cLoop k"] obj idle by auto
  moreover have "cState k \<noteq> kDisconnected" using sk_exactD(3) [OF inv, of c "cLoop k"] obj m idle by auto
  ultimately show st: "cState k = kConnected \<or> cState k = kDisconnecting" by (cases "cState k") simp_all
  then obtain fd where "ep_registered (wPollers (syWorld s) (cLoop k)) fd = Some c" "2 < c"
    using sk_exactD(4) [OF inv obj] by (auto simp: sysSkel_def)
  with D(4) [OF this assms(3)] show "ep_registered (wPollers (syWorld s) (cLoop k)) (cSock k) = Some c" by simp
qed

text \<open>
  C3: the HTTP server leaks no connection. In every reachable state a connection object exists iff
  somebody owns it, the map of the server, a queued task or a task of a batch that has not ended;
  and whenever no loop has a task to run, the objects, the map and the pollers agree: each
  connection that exists is in the map under its name, is open, and its channel is registered for
  its socket with the poller of its loop. No connection stays behind half-established or
  half-closed, and none outlives its removal from the map.
\<close>

theorem server_leak_free:
  assumes "httpsvr_main tid rets lrets kern args = Inr w" and "sys_reach (httpCallbacks env rp) (launched w) s"
  shows "dom (wConns (syWorld s)) = set (kept (syWorld s))
    \<and> (sys_idle s \<longrightarrow> wConns (syWorld s) c = Some k
       \<longrightarrow> (cName k, c) \<in> set (srvConns (wServer (syWorld s))) \<and> (cState k = kConnected \<or> cState k = kDisconnecting)
          \<and> ep_registered (wPollers (syWorld s) (cLoop k)) (cSock k) = Some c)"
proof -
  have "sys_inv s" using http_tame.reach_advances [OF assms(2) main_inv(1) [OF assms(1)]] by simp
  then show ?thesis using owned_objects idle_conn [of s c k] by blast
qed

theorem server_leak_free_witness:
  "\<exists>(s :: http_context server_sys) k. sys_idle s \<and> wConns (syWorld s) 3 = Some k \<and> dom (wConns (syWorld s)) = set (kept (syWorld s))
     \<and> ep_registered (wPollers (syWorld s) (cLoop k)) (cSock k) = Some 3 \<and> (cState k = kConnected \<or> cState k = kDisconnecting)"
proof -
  obtain s where s: "sys_reach (httpCallbacks bigFile []) (launched httpWorld) s" "sys_idle s" "wConns (syWorld s) 3 \<noteq> None"
    by (rule httpRun_reach)
  then obtain k where "wConns (syWorld s) 3 = Some k" by blast
  with server_leak_free [OF boot_httpWorld s(1), of 3 k] s(2) show ?thesis by blast
qed

text \<open>The same for \<^verbatim>\<open>echosvr\<close>.\<close>

theorem echosvr_stays_safe:
  assumes "echosvr_main tid rets lrets kern args = Inr w" and "sys_reach echoCbs (launched w) s" and "sys_enabled x s"
  shows "sys_step echoCbs x s \<noteq> Inl UseAfterFree \<and> sys_step echoCbs x s \<noteq> Inl Aborted"
proof -
  have "sys_inv s" using echo_tame.reach_advances [OF assms(2) main_inv(2) [OF assms(1)]] by simp
  then have "outcome (advance s) (sys_step echoCbs x s)" using assms(3) by (rule echo_tame.step_advances)
  then show ?thesis by auto
qed

end
