(* ===== verification/Server_Drain.thy ===== *)
theory Server_Drain
  imports Server_Safety "HOL-Library.Multiset"
begin

text \<open>
  What the server does when nothing happens outside: the loops run the tasks that are queued and
  the tasks these queue, and then wait. \<open>quiet_step\<close> are the actions that need no event; a task
  queues only tasks of lower rank (\<open>spawns\<close>), so the multiset of the ranks of all tasks decreases
  and every schedule of the loops ends, in a sys_idle state.
\<close>

section \<open>Model\<close>

text \<open>
  The actions without events: a loop whose queue is not empty is woken up and takes the queue, it
  runs its tasks, and it polls without a channel being reported (the event of the wake-up channel, which
  only resets the counter, is left out).
\<close>

fun quiet_op :: "sys_op \<Rightarrow> 'x server_sys \<Rightarrow> bool" where
  "quiet_op (STake l) s \<longleftrightarrow> sys_enabled (STake l) s \<and> pendingTasks (wLoops (syWorld s) l) \<noteq> []"
| "quiet_op (SRun l) s \<longleftrightarrow> sys_enabled (SRun l) s"
| "quiet_op (SPoll l evs) s \<longleftrightarrow> sys_enabled (SPoll l evs) s \<and> evs = []"
| "quiet_op _ s \<longleftrightarrow> False"

inductive quiet_step :: "'x callbacks \<Rightarrow> 'x server_sys \<Rightarrow> 'x server_sys \<Rightarrow> bool" for cbs where
  "quiet_op x s \<Longrightarrow> sys_step cbs x s = Inr s' \<Longrightarrow> quiet_step cbs s s'"

text \<open>All loops run and every reported event has been handled.\<close>

definition resting :: "'x server_sys \<Rightarrow> bool" where
  "resting s \<longleftrightarrow> (\<forall>l < wLoopCount (syWorld s). \<not> stopLooping (wLoops (syWorld s) l)) \<and> (\<forall>l. syActive s l = [])"

section \<open>What a task queues\<close>

fun task_rank :: "task \<Rightarrow> nat" where
  "task_rank (TWriteComplete c) = 3"
| "task_rank (TClose c) = 2"
| "task_rank (TRemoveConnection c) = 1"
| "task_rank _ = 0"

definition spawns :: "nat \<Rightarrow> 'x world \<Rightarrow> 'x world \<Rightarrow> bool" where
  "spawns r w w' \<longleftrightarrow> wLoopCount w' = wLoopCount w \<and> (\<forall>l. stopLooping (wLoops w' l) = stopLooping (wLoops w l))
     \<and> (\<forall>l. \<exists>ts. pendingTasks (wLoops w' l) = pendingTasks (wLoops w l) @ ts \<and> (\<forall>t \<in> set ts. task_rank t < r))"

lemma spawns_loops: "wLoopCount w' = wLoopCount w \<Longrightarrow> wLoops w' = wLoops w \<Longrightarrow> spawns r w w'"
  by (simp add: spawns_def)

lemma spawns_queue: "spawns 0 w w1 \<Longrightarrow> task_rank t < r \<Longrightarrow> spawns r w (queueTask l t w1)"
  by (auto simp: spawns_def queueTask_def perform_queue pushTask_def wakeup_def)

lemma spawns_touch: "touch c ts w w' \<Longrightarrow> (\<And>t. t \<in> set ts \<Longrightarrow> task_rank t < r) \<Longrightarrow> spawns r w w'"
  by (auto simp: touch_def calm_def spawns_def)

lemma spawns_unlinked: "spawns 0 w w1 \<Longrightarrow> 0 < r \<Longrightarrow> spawns r w (unlinked c k w1)"
  unfolding unlinked_def by (rule spawns_queue) (simp_all add: spawns_def)

lemma outcome_loops:
  assumes "outcome P m" and "\<And>w'. m = Inr w' \<Longrightarrow> wLoops w' = wLoops w \<and> wLoopCount w' = wLoopCount w"
  shows "outcome (spawns r w) m"
  using assms by (cases m) (auto intro: spawns_loops)

lemma acceptorOp_loops: "acceptorOp tid mk w = Inr w' \<Longrightarrow> wLoops w' = wLoops w \<and> wLoopCount w' = wLoopCount w \<and> wServer w' = wServer w"
  by (auto simp: acceptorOp_def pollerOp_def assertIn_def assertInLoopThread_def result_simps split: if_splits)

lemma ownOp_loops: "ownOp tid mk l x w = Inr w' \<Longrightarrow> wLoops w' = wLoops w \<and> wLoopCount w' = wLoopCount w"
  by (auto simp: ownOp_def pollerOp_def assertIn_def assertInLoopThread_def result_simps split: if_splits)

lemma listen_loops:
  assumes "listen tid w = Inr w'" and "isInLoopThread tid (wLoops w (srvLoop (wServer w)))"
  shows "wLoops w' = wLoops w \<and> wLoopCount w' = wLoopCount w"
  using assms by (auto simp: listen_def Let_def kernelCall_def result_simps runInLoop_def listenSock_def dest!: acceptorOp_loops)

context tame_user
begin

lemma close_spawns:
  assumes "mine tid c w"
  shows "outcome (spawns 2 w) (handleClose tid cbs c w)"
  using close_outcome [OF assms]
proof (rule outcome_weaken, elim exE conjE)
  fix w' w1 :: "'x world" and k1
  assume sh: "shut c k1 w w1"
    and w': "w' = unlinked c k1 w1 \<or> w' = queueTask (srvLoop (wServer w)) (TRemoveConnection c) w1"
  have "spawns 0 w w1" using sh by (simp add: shut_def calm_def spawns_def)
  then show "spawns 2 w w'" using w' by (auto intro: spawns_unlinked spawns_queue)
qed

lemma task_spawns:
  assumes "fit td ac po w" and "t \<in> set (td l)" and "\<not> stopLooping (wLoops w l)"
  shows "outcome (spawns (task_rank t) w) (runTask (loopTid (wLoops w l)) cbs t w)"
proof -
  let ?tid = "loopTid (wLoops w l)" and ?s = "skelOf td ac po w"
  have inv: "sk_inv ?s" using assms(1) by (simp_all add: fit_def)
  have todo: "t \<in> skTodo ?s l" using assms(2) by simp
  have here: "isInLoopThread ?tid (wLoops w l)" using assms(3) by (simp add: isInLoopThread_def)
  have raw: "c \<in> set (rawRefs t) \<Longrightarrow> t = TClose c" for c by (rule sk_closingD(6) [OF inv todo])
  have home: "homeTask t \<Longrightarrow> isInLoopThread ?tid (wLoops w (srvLoop (wServer w)))"
    using sk_placesD(4) [OF inv todo] here by simp
  have acc: "outcome (spawns r w) (acceptorOp ?tid mk w)" if "mk = AddChannel \<or> mk = UpdateChannel" "homeTask t" for r mk
    by (rule outcome_loops [OF acceptorOp_follows [of w mk ?tid td ac po]]) (use that home assms(1) acceptorOp_loops in \<open>auto simp: fit_def\<close>)
  have lis: "outcome (spawns r w) (listen ?tid w)" if "homeTask t" for r
    by (rule outcome_loops [OF listen_follows [of w td ac po ?tid]]) (use assms(1) listen_loops home [OF that] in \<open>auto simp: fit_def\<close>)
  have own: "outcome (spawns r w) (ownOp ?tid mk m x w)" if "mk = AddChannel \<or> mk = UpdateChannel" "ownLoop t = Some m" for r mk m x
  proof -
    have "m = l" using sk_placesD(6) [OF inv todo that(2)] by simp
    then have "outcome (follows td ac po w) (ownOp ?tid mk m x w)"
      using assms(1) here that(1) by (intro ownOp_follows) (simp_all add: fit_def)
    then show ?thesis by (rule outcome_loops) (rule ownOp_loops)
  qed
  show ?thesis
  proof (cases t)
    case (TEstablished c)
    obtain k where k: "wConns w c = Some k" "cLoop k = l" using sk_placesD(2) [OF inv, of c l] todo TEstablished by auto
    then have "outcome (enrolled c k w) (connectEstablished ?tid cbs c w)" using here by (intro established_outcome) simp_all
    then show ?thesis unfolding TEstablished runTask.simps
      by (rule outcome_weaken) (auto simp: enrolled_def intro!: spawns_loops)
  next
    case (TDestroyed c)
    obtain k where k: "wConns w c = Some k" "cState k = kDisconnected" "cLoop k = l"
      using sk_closingD(2) [OF inv, of c l] todo TDestroyed by auto
    have "outcome (retired c k w) (connectDestroyed ?tid cbs c w)"
      by (rule destroyed_outcome [OF k(1) _ k(2)]) (use here k(3) in simp)
    then show ?thesis unfolding TDestroyed runTask.simps
      by (rule outcome_weaken) (auto simp: retired_def intro!: spawns_loops)
  next
    case (TRemoveConnection c)
    then obtain k where k: "wConns w c = Some k" using sk_closingD(4) [OF inv, of c l] todo by auto
    from removeInLoop_outcome [OF k, of ?tid] home TRemoveConnection
    have "outcome (\<lambda>w'. w' = unlinked c k w) (removeConnectionInLoop ?tid c w)" by simp
    then show ?thesis unfolding TRemoveConnection runTask.simps
      by (rule outcome_weaken) (simp add: spawns_unlinked spawns_loops)
  next
    case (TClose c)
    obtain k where k: "wConns w c = Some k" "cLoop k = l" using sk_plainD(2) [OF inv, of c l] todo TClose by auto
    then have "mine ?tid c w" using here by (simp add: mine_def)
    from close_spawns [OF this] show ?thesis
      using k here by (auto simp: TClose closeInLoop_def world_simps intro!: spawns_loops)
  next
    case (TWriteComplete c)
    obtain k where k: "wConns w c = Some k" "cLoop k = l"
      using sk_writtenD(2) [OF inv, of c l] todo TWriteComplete by auto
    then have m: "mine ?tid c w" using here by (simp add: mine_def)
    show ?thesis
    proof (cases "writeCompleteCallback cbs")
      case (Some f)
      from complete_tame [OF Some m] have "outcome (spawns 3 w) (f ?tid c w)" unfolding tame_outcome
        by (rule outcome_weaken) (auto intro: spawns_touch)
      with Some show ?thesis by (simp add: TWriteComplete)
    qed (simp add: TWriteComplete)
  qed (use raw acc lis own in auto)
qed

end

section \<open>Termination\<close>

definition workload :: "'x server_sys \<Rightarrow> nat multiset" where
  "workload s = (\<Sum>l<wLoopCount (syWorld s). image_mset task_rank (mset (pendingTasks (wLoops (syWorld s) l))))
     + (\<Sum>l<wLoopCount (syWorld s). image_mset task_rank (mset (syTodo s l)))"

definition waking :: "'x server_sys \<Rightarrow> nat" where
  "waking s = (\<Sum>l<wLoopCount (syWorld s). 2 * length (pendingTasks (wLoops (syWorld s) l)) + of_bool (\<not> syPolled s l))"

definition drain_order :: "('x server_sys \<times> 'x server_sys) set" where
  "drain_order = inv_image (mult less_than <*lex*> less_than) (\<lambda>s. (workload s, waking s))"

lemma wf_drain: "wf drain_order"
  unfolding drain_order_def by (intro wf_inv_image wf_lex_prod wf_mult wf_less_than)

lemma sum_upd: "l < n \<Longrightarrow> (\<Sum>i<n. f i) = f l + (\<Sum>i\<in>{..<n} - {l}. f i)" for f :: "nat \<Rightarrow> 'a :: comm_monoid_add"
  by (rule sum.remove) simp_all

lemma spawned_mset:
  assumes "spawns r w w'"
  obtains K where "(\<Sum>l<n. image_mset task_rank (mset (pendingTasks (wLoops w' l))))
      = (\<Sum>l<n. image_mset task_rank (mset (pendingTasks (wLoops w l)))) + K" "\<And>x. x \<in># K \<Longrightarrow> x < r"
proof -
  obtain ts where ts: "\<And>l. pendingTasks (wLoops w' l) = pendingTasks (wLoops w l) @ ts l" "\<And>l t. t \<in> set (ts l) \<Longrightarrow> task_rank t < r"
    using assms unfolding spawns_def by metis
  show thesis
    by (rule that [of "\<Sum>l<n. image_mset task_rank (mset (ts l))"]) (auto simp: ts sum.distrib set_mset_sum)
qed

lemma run_decreases:
  assumes "spawns (task_rank t) (syWorld s) w'" and "syTodo s l = t # ts" and "l < wLoopCount (syWorld s)"
  shows "(s\<lparr>syWorld := w', syTodo := (syTodo s)(l := ts)\<rparr>, s) \<in> drain_order"
proof -
  let ?n = "wLoopCount (syWorld s)" and ?s' = "s\<lparr>syWorld := w', syTodo := (syTodo s)(l := ts)\<rparr>"
  obtain K where K: "(\<Sum>l<?n. image_mset task_rank (mset (pendingTasks (wLoops w' l))))
      = (\<Sum>l<?n. image_mset task_rank (mset (pendingTasks (wLoops (syWorld s) l)))) + K" "\<And>x. x \<in># K \<Longrightarrow> x < task_rank t"
    using spawned_mset [OF assms(1), where n = ?n] by metis
  have todo: "(\<Sum>i<?n. image_mset task_rank (mset (syTodo s i)))
      = (\<Sum>i<?n. image_mset task_rank (mset (((syTodo s)(l := ts)) i))) + {#task_rank t#}"
    using assms(2) by (simp add: sum_upd [OF assms(3)])
  have n: "wLoopCount w' = ?n" using assms(1) by (simp add: spawns_def)
  let ?I = "(\<Sum>i<?n. image_mset task_rank (mset (pendingTasks (wLoops (syWorld s) i))))
      + (\<Sum>i<?n. image_mset task_rank (mset (((syTodo s)(l := ts)) i)))"
  have "workload ?s' = ?I + K" "workload s = ?I + {#task_rank t#}"
    unfolding workload_def todo using K(1) n by (simp_all add: ac_simps)
  moreover have "(?I + K, ?I + {#task_rank t#}) \<in> mult less_than" by (rule one_step_implies_mult) (use K(2) in auto)
  ultimately show ?thesis by (simp add: drain_order_def)
qed

lemma take_decreases:
  assumes "sys_inv s" and "quiet_op (STake l) s" and "sys_step cbs (STake l) s = Inr s'"
  shows "(s', s) \<in> drain_order"
proof -
  have l: "l < wLoopCount (syWorld s)" "syPolled s l" "pendingTasks (wLoops (syWorld s) l) \<noteq> []" using assms(2) by (simp_all add: looping_def)
  have "sk_inv (sysSkel s)" using assms(1) by (simp add: sys_inv_def fit_def sysSkel_def)
  from sk_writtenD(3) [OF this, of l] l(2) have todo: "syTodo s l = []" by (simp add: sysSkel_def)
  have s': "s' = s\<lparr>syWorld := (putLoop l ((wLoops (syWorld s) l)\<lparr>pendingTasks := []\<rparr>) (syWorld s))
        \<lparr>wBatch := (wBatch (syWorld s))(l := pendingTasks (wLoops (syWorld s) l))\<rparr>,
      syTodo := (syTodo s)(l := pendingTasks (wLoops (syWorld s) l)), syPolled := (syPolled s)(l := False)\<rparr>"
    using assms(3) by (simp add: takeTasks_def Let_def)
  have "workload s' = workload s" unfolding workload_def s' using todo by (simp add: sum_upd [OF l(1)])
  moreover have "waking s' < waking s" unfolding waking_def s' using l(2,3)
    by (cases "pendingTasks (wLoops (syWorld s) l)") (simp_all add: sum_upd [OF l(1)])
  ultimately show ?thesis by (simp add: drain_order_def)
qed

lemma poll_decreases:
  assumes "quiet_op (SPoll l evs) s" and "sys_step cbs (SPoll l evs) s = Inr s'"
  shows "(s', s) \<in> drain_order"
proof -
  have l: "l < wLoopCount (syWorld s)" "\<not> syPolled s l" using assms(1) by (simp_all add: looping_def)
  have s': "wLoops (syWorld s') = wLoops (syWorld s)" "wLoopCount (syWorld s') = wLoopCount (syWorld s)" "syTodo s' = syTodo s"
    "syPolled s' = (syPolled s)(l := True)"
    using assms(2) by (auto simp: Let_def)
  have "workload s' = workload s" by (simp add: workload_def s')
  moreover have "waking s' < waking s" unfolding waking_def s' using l(2) by (simp add: sum_upd [OF l(1)])
  ultimately show ?thesis by (simp add: drain_order_def)
qed

lemma quiet_enabled: "quiet_op x s \<Longrightarrow> sys_enabled x s"
  by (cases x) auto

text \<open>If nothing is left to do without an event, all loops are idle.\<close>

lemma quiet_idle:
  assumes "sys_inv s" and "resting s" and "\<And>x. \<not> quiet_op x s"
  shows "sys_idle s"
proof -
  have "syPolled s l \<and> pendingTasks (wLoops (syWorld s) l) = []" if l: "l < wLoopCount (syWorld s)" for l
  proof -
    have run: "looping l s" "syActive s l = []" using assms(2) l by (simp_all add: resting_def looping_def)
    then have "syPolled s l" using assms(3) [of "SRun l"] assms(3) [of "SPoll l []"] by auto
    then show ?thesis using assms(3) [of "STake l"] run by auto
  qed
  then show ?thesis by (simp add: sys_idle_def)
qed

context tame_user
begin

lemma quiet_keeps:
  assumes "sys_inv s" and "resting s" and "quiet_step cbs s s'"
  shows "(s', s) \<in> drain_order \<and> sys_inv s' \<and> resting s'"
  using assms(3)
proof cases
  case (1 x)
  have inv: "sys_inv s'"
    using step_advances [OF assms(1) quiet_enabled [OF 1(1)]] advance_inv [OF assms(1)] by (simp add: 1(2))
  have "(s', s) \<in> drain_order \<and> resting s'"
  proof (cases x)
    case (STake l)
    with 1 show ?thesis using take_decreases [OF assms(1), of l cbs s'] assms(2)
      by (auto simp: resting_def takeTasks_def Let_def split: if_splits)
  next
    case (SPoll l evs)
    with 1 show ?thesis using poll_decreases [of l evs s cbs s'] assms(2) by (auto simp: resting_def Let_def)
  next
    case (SRun l)
    then obtain t ts where t: "syTodo s l = t # ts" using 1(1) by (cases "syTodo s l") auto
    then obtain w' where w': "runTask (loopTid (wLoops (syWorld s) l)) cbs t (syWorld s) = Inr w'"
      "s' = s\<lparr>syWorld := w', syTodo := (syTodo s)(l := ts)\<rparr>" using 1(2) SRun by (auto simp: result_simps)
    have l: "l < wLoopCount (syWorld s)" "\<not> stopLooping (wLoops (syWorld s) l)" using 1(1) SRun by (simp_all add: looping_def)
    have "spawns (task_rank t) (syWorld s) w'"
      using task_spawns [of "syTodo s" "syActive s" "syPolled s" "syWorld s" t l] assms(1) l(2) t w'(1) by (simp add: sys_inv_def)
    then show ?thesis using run_decreases [OF _ t l(1)] assms(2) by (simp add: w'(2) resting_def spawns_def)
  qed (use 1 in auto)
  with inv show ?thesis by blast
qed

lemma quiet_run_keeps:
  assumes "(quiet_step cbs)\<^sup>*\<^sup>* s s'" and "sys_inv s" and "resting s"
  shows "sys_inv s' \<and> resting s'"
  using assms by (induction rule: rtranclp_induct) (auto dest: quiet_keeps)

lemma quiet_terminates:
  assumes "sys_inv s" and "resting s"
  shows "\<not> (\<exists>f. f 0 = s \<and> (\<forall>i. quiet_step cbs (f i) (f (Suc i))))"
proof
  assume "\<exists>f. f 0 = s \<and> (\<forall>i. quiet_step cbs (f i) (f (Suc i)))"
  then obtain f where f: "f 0 = s" "\<And>i. quiet_step cbs (f i) (f (Suc i))" by blast
  have "sys_inv (f i) \<and> resting (f i)" for i
    by (induction i) (use assms f quiet_keeps in blast)+
  then have "(f (Suc i), f i) \<in> drain_order" for i using quiet_keeps f(2) by blast
  with wf_drain show False unfolding wf_iff_no_infinite_down_chain by blast
qed

end

section \<open>A run\<close>

fun quiet_ready :: "'x callbacks \<Rightarrow> sys_op list \<Rightarrow> 'x server_sys \<Rightarrow> bool" where
  "quiet_ready cbs [] s = True"
| "quiet_ready cbs (x # xs) s =
     (quiet_op x s \<and> (case sys_step cbs x s of Inl _ \<Rightarrow> False | Inr s' \<Rightarrow> quiet_ready cbs xs s'))"

lemma quiet_run:
  assumes "quiet_ready cbs xs s" and "runR (sys_step cbs) xs s = Inr s'"
  shows "(quiet_step cbs)\<^sup>*\<^sup>* s s'"
  using assms
proof (induction xs arbitrary: s)
  case (Cons x xs)
  then obtain s1 where s1: "sys_step cbs x s = Inr s1" "runR (sys_step cbs) xs s1 = Inr s'" by (auto simp: result_simps)
  then have "quiet_step cbs s s1" using Cons.prems(1) by (auto intro: quiet_step.intros)
  moreover have "(quiet_step cbs)\<^sup>*\<^sup>* s1 s'" using Cons s1 by auto
  ultimately show ?case by (rule converse_rtranclp_into_rtranclp)
qed simp

lemma idle_quiet: "sys_idle s \<Longrightarrow> syTodo s = (\<lambda>_. []) \<Longrightarrow> \<not> quiet_op x s"
  by (cases x) (auto simp: sys_idle_def looping_def)

text \<open>
  All loops of \<^verbatim>\<open>httpsvr\<close> run, the server listens and has accepted a connection for the first sub loop;
  that loop is then woken up and establishes it.
\<close>

definition settleRun :: "sys_op list" where
  "settleRun = [STake 1, SRun 1, SPoll 1 []]"

lemma acceptRun_eval:
  "\<exists>s s'. runR (sys_step (httpCallbacks env rp)) listenRun (launched (settledWorld 16)) = Inr s \<and> resting s
     \<and> runR (sys_step (httpCallbacks env rp)) settleRun s = Inr s' \<and> quiet_ready (httpCallbacks env rp) settleRun s
     \<and> sys_idle s' \<and> syTodo s' = (\<lambda>_. []) \<and> wConns (syWorld s') 3 \<noteq> None"
  by (simp add: listenRun_def settleRun_def sys_eval resting_def sys_idle_def fun_eq_iff)

lemma acceptRun_ready: "sys_ready (httpCallbacks env rp) listenRun (launched (settledWorld 16))"
  by (simp add: listenRun_def sys_eval) presburger

section \<open>Properties\<close>

text \<open>
  C4: the HTTP server comes to rest and cleans up. In every reachable state in which all loops run
  and the reported events have been handled, if no further event occurs, no schedule of the loops
  goes on for ever; and when nothing is left to run, no connection is closed or half-established:
  every connection that was being closed has been destroyed, and every one that exists is open,
  in the map of the server under its name and registered with the poller of its loop.
\<close>

theorem server_drains:
  assumes "httpsvr_main tid rets lrets kern args = Inr w" and "sys_reach (httpCallbacks env rp) (launched w) s" and "resting s"
  shows "\<not> (\<exists>f. f 0 = s \<and> (\<forall>i. quiet_step (httpCallbacks env rp) (f i) (f (Suc i))))
    \<and> ((quiet_step (httpCallbacks env rp))\<^sup>*\<^sup>* s s' \<longrightarrow> (\<forall>x. \<not> quiet_op x s') \<longrightarrow> wConns (syWorld s') c = Some k
       \<longrightarrow> (cState k = kConnected \<or> cState k = kDisconnecting) \<and> (cName k, c) \<in> set (srvConns (wServer (syWorld s')))
          \<and> ep_registered (wPollers (syWorld s') (cLoop k)) (cSock k) = Some c)"
proof (intro conjI impI)
  have inv: "sys_inv s" using http_tame.reach_advances [OF assms(2) main_inv(1) [OF assms(1)]] by simp
  show "\<not> (\<exists>f. f 0 = s \<and> (\<forall>i. quiet_step (httpCallbacks env rp) (f i) (f (Suc i))))"
    by (rule http_tame.quiet_terminates [OF inv assms(3)])
  assume run: "(quiet_step (httpCallbacks env rp))\<^sup>*\<^sup>* s s'" "\<forall>x. \<not> quiet_op x s'" and k: "wConns (syWorld s') c = Some k"
  have s': "sys_inv s'" "resting s'" using http_tame.quiet_run_keeps [OF run(1) inv assms(3)] by simp_all
  then have "sys_idle s'" using quiet_idle run(2) by blast
  note st = idle_conn [OF s'(1) this k]
  then show "cState k = kConnected \<or> cState k = kDisconnecting" "(cName k, c) \<in> set (srvConns (wServer (syWorld s')))"
    "ep_registered (wPollers (syWorld s') (cLoop k)) (cSock k) = Some c" by blast+
qed

theorem server_drains_witness:
  "\<exists>(s :: http_context server_sys) s' k. resting s \<and> s' \<noteq> s \<and> (quiet_step (httpCallbacks bigFile []))\<^sup>*\<^sup>* s s'
     \<and> \<not> (\<exists>f. f 0 = s \<and> (\<forall>i. quiet_step (httpCallbacks bigFile []) (f i) (f (Suc i))))
     \<and> (\<forall>x. \<not> quiet_op x s') \<and> wConns (syWorld s') 3 = Some k
     \<and> ep_registered (wPollers (syWorld s') (cLoop k)) (cSock k) = Some 3"
proof -
  let ?cbs = "httpCallbacks bigFile []"
  obtain s s' where s: "runR (sys_step ?cbs) listenRun (launched (settledWorld 16)) = Inr s" "resting s"
    "runR (sys_step ?cbs) settleRun s = Inr s'" "quiet_ready ?cbs settleRun s" "sys_idle s'" "syTodo s' = (\<lambda>_. [])"
    "wConns (syWorld s') 3 \<noteq> None"
    using acceptRun_eval [of bigFile "[]"] by blast
  then obtain k where k: "wConns (syWorld s') 3 = Some k" by blast
  have reach: "sys_reach ?cbs (launched httpWorld) s" by (rule reach_run [OF settled_reach acceptRun_ready s(1)]) simp
  have run: "(quiet_step ?cbs)\<^sup>*\<^sup>* s s'" by (rule quiet_run [OF s(4,3)])
  have stop: "\<forall>x. \<not> quiet_op x s'" using idle_quiet [OF s(5,6)] by blast
  moreover have "quiet_op (STake 1) s" using s(4) by (simp add: settleRun_def)
  ultimately have "s' \<noteq> s" by blast
  with server_drains [OF boot_httpWorld reach s(2), of s' 3 k] s(2) run stop k show ?thesis by blast
qed

end
