(* ===== verification/Logger.thy ===== *)
theory Logger
  imports C_Strings
begin

text \<open>
  The asynchronous logger of \<^verbatim>\<open>miniduo/logging.h\<close> and \<^verbatim>\<open>miniduo/logging.cpp\<close>. Threads append
  formatted lines to the string \<^verbatim>\<open>msg_\<close> under a mutex; the thread \<^verbatim>\<open>backendThread_\<close> swaps the
  string out and writes it to a descriptor, rotating log files in between. The interleaving of
  that thread with the others is the step relation \<open>log_step\<close>, whose atomic steps are the
  critical sections and system calls of the code. Clock, local time, file sizes and the results
  of \<^verbatim>\<open>open\<close> and \<^verbatim>\<open>write\<close> are arguments.
\<close>

section \<open>Model: data\<close>

datatype log_level = ALL_LEVELS | TRACE | DEBUG | INFO | WARN | ERROR | FATAL | DISABLE

fun level_rank :: "log_level \<Rightarrow> nat" where
  "level_rank ALL_LEVELS = 0"
| "level_rank TRACE = 1"
| "level_rank DEBUG = 2"
| "level_rank INFO = 3"
| "level_rank WARN = 4"
| "level_rank ERROR = 5"
| "level_rank FATAL = 6"
| "level_rank DISABLE = 7"

lemma level_rank_inj: "level_rank a = level_rank b \<Longrightarrow> a = b"
  by (cases a; cases b) simp_all

instantiation log_level :: linorder
begin

definition less_eq_log_level :: "log_level \<Rightarrow> log_level \<Rightarrow> bool" where
  "less_eq_log_level a b \<longleftrightarrow> level_rank a \<le> level_rank b"

definition less_log_level :: "log_level \<Rightarrow> log_level \<Rightarrow> bool" where
  "less_log_level a b \<longleftrightarrow> level_rank a < level_rank b"

instance
  by standard (auto simp: less_eq_log_level_def less_log_level_def level_rank_inj)

end

text \<open>The broken-down time of \<^verbatim>\<open>localtime_r\<close>.\<close>

record tm =
  tm_year :: int
  tm_mon :: int
  tm_mday :: int
  tm_hour :: int
  tm_min :: int
  tm_sec :: int

record logger =
  logMsg :: string
  stopLogging :: bool
  isfilelog :: bool
  fileBaseName :: string
  fileDir :: string
  logFd :: int
  logLevel :: log_level
  lastRotate :: int
  rotateInterval :: int

text \<open>
  The constructor. The members are initialised in the order of their declaration, and
  \<^verbatim>\<open>backendThread_\<close> is declared before all members but \<^verbatim>\<open>mut_\<close>, \<^verbatim>\<open>cv_\<close> and \<^verbatim>\<open>msg_\<close>: the thread runs while the others are
  still to be initialised. The only object is a local static of \<^verbatim>\<open>getLogger\<close>, so that their storage is zero
  until then (\<open>rawLogger\<close>). \<open>ctorMembers\<close> are the initialisations that follow the start of the thread.
\<close>

datatype member_init =
    InitStopLogging
  | InitIsfilelog
  | InitFileBaseName
  | InitFileDir
  | InitFd
  | InitLevel
  | InitLastRotate int
  | InitRotateInterval

fun initMember :: "member_init \<Rightarrow> logger \<Rightarrow> logger" where
  "initMember InitStopLogging l = l\<lparr>stopLogging := False\<rparr>"
| "initMember InitIsfilelog l = l\<lparr>isfilelog := False\<rparr>"
| "initMember InitFileBaseName l = l\<lparr>fileBaseName := ''log''\<rparr>"
| "initMember InitFileDir l = l\<lparr>fileDir := ''log/''\<rparr>"
| "initMember InitFd l = l\<lparr>logFd := 1\<rparr>"
| "initMember InitLevel l = l\<lparr>logLevel := DISABLE\<rparr>"
| "initMember (InitLastRotate now) l = l\<lparr>lastRotate := now\<rparr>"
| "initMember InitRotateInterval l = l\<lparr>rotateInterval := 24 * 60 * 60\<rparr>"

definition rawLogger :: logger where
  "rawLogger = \<lparr>logMsg = [], stopLogging = False, isfilelog = False, fileBaseName = [], fileDir = [],
     logFd = 0, logLevel = ALL_LEVELS, lastRotate = 0, rotateInterval = 0\<rparr>"

definition ctorMembers :: "int \<Rightarrow> member_init list" where
  "ctorMembers now = [InitStopLogging, InitIsfilelog, InitFileBaseName, InitFileDir, InitFd, InitLevel,
     InitLastRotate now, InitRotateInterval]"

definition newLogger :: "int \<Rightarrow> logger" where
  "newLogger now = fold initMember (ctorMembers now) rawLogger"

lemma newLogger_eq:
  "newLogger now = \<lparr>logMsg = [], stopLogging = False, isfilelog = False, fileBaseName = ''log'', fileDir = ''log/'',
     logFd = 1, logLevel = DISABLE, lastRotate = now, rotateInterval = 24 * 60 * 60\<rparr>"
  by (simp add: newLogger_def ctorMembers_def rawLogger_def)

section \<open>Model: formatting\<close>

text \<open>The conversions \<^verbatim>\<open>%0nd\<close> and \<^verbatim>\<open>%nd\<close>.\<close>

definition padZero :: "nat \<Rightarrow> int \<Rightarrow> string" where
  "padZero n i =
     (if i < 0 then ''-'' @ replicate (n - length (showInt i)) CHR ''0'' @ tl (showInt i)
      else replicate (n - length (showInt i)) CHR ''0'' @ showInt i)"

definition padSpace :: "nat \<Rightarrow> int \<Rightarrow> string" where
  "padSpace n i = replicate (n - length (showInt i)) CHR '' '' @ showInt i"

text \<open>\<open>ms\<close> is the number of milliseconds since the epoch.\<close>

definition timeNow :: "(int \<Rightarrow> tm) \<Rightarrow> int \<Rightarrow> string" where
  "timeNow localtime ms =
     (let t = localtime (ms div 1000)
      in take 99 (padZero 4 (tm_year t + 1900) @ ''-'' @ padZero 2 (tm_mon t + 1) @ ''-'' @ padZero 2 (tm_mday t)
           @ '' '' @ padZero 2 (tm_hour t) @ '':'' @ padZero 2 (tm_min t) @ '':'' @ padZero 2 (tm_sec t)
           @ ''.'' @ padSpace 3 (ms mod 1000)))"

definition logfileName :: "tm \<Rightarrow> logger \<Rightarrow> string" where
  "logfileName t l =
     snprintf 4096 (c_str (fileDir l) @ c_str (fileBaseName l) @ ''.'' @ showInt (tm_year t + 1900)
       @ padZero 2 (tm_mon t + 1) @ padZero 2 (tm_mday t) @ ''-'' @ padZero 2 (tm_hour t)
       @ padZero 2 (tm_min t) @ padZero 2 (tm_sec t))"

text \<open>\<^verbatim>\<open>_CutParenthesesNTail\<close>: the name of a function without its parameters.\<close>

definition cutParenthesesNTail :: "string \<Rightarrow> string" where
  "cutParenthesesNTail s = takeWhile (\<lambda>c. c \<noteq> CHR ''('') s"

section \<open>Model: logging a message\<close>

text \<open>\<open>time\<close> is \<^verbatim>\<open>timeNow()\<close>, \<open>tid\<close> the calling thread.\<close>

definition logLine :: "string \<Rightarrow> int \<Rightarrow> string \<Rightarrow> string" where
  "logLine time tid msg = ''['' @ time @ '']'' @ ''['' @ showInt tid @ '']'' @ msg @ [CHR 0x0A]"

definition append_log :: "string \<Rightarrow> int \<Rightarrow> string \<Rightarrow> logger \<Rightarrow> logger" where
  "append_log time tid msg l = l\<lparr>logMsg := logMsg l @ logLine time tid msg\<rparr>"

text \<open>
  \<^verbatim>\<open>logv\<close>: \<open>formatted\<close> is the complete formatted text, whose length \<^verbatim>\<open>vsnprintf\<close> returns although
  it stores at most 4095 characters and a zero byte, or \<open>None\<close> when \<^verbatim>\<open>vsnprintf\<close> fails and returns a
  negative number; \<^verbatim>\<open>std::string(buffer, n)\<close> then reads \<open>n\<close> bytes of the array of 4096, and throws
  \<^verbatim>\<open>std::length_error\<close> for a negative \<open>n\<close>, which is converted to a huge size.
\<close>

definition logv :: "log_level \<Rightarrow> string option \<Rightarrow> string \<Rightarrow> int \<Rightarrow> logger \<Rightarrow> logger result" where
  "logv level formatted time tid l =
     (if level < logLevel l then Inr l
      else case formatted of
             None \<Rightarrow> Inl Uncaught
           | Some txt \<Rightarrow>
               (let n = length txt;
                    buffer = take 4095 txt @ [CHR 0x00]
                in if 4096 < n then Inl OutOfBounds
                   else Inr (append_log time tid (take n buffer) l)))"

text \<open>The macro \<^verbatim>\<open>log\<close>: \<open>prefix\<close> is the level, file, line and function part of the format.\<close>

definition log_macro :: "log_level \<Rightarrow> string option \<Rightarrow> string \<Rightarrow> int \<Rightarrow> logger \<Rightarrow> logger result" where
  "log_macro level formatted time tid l =
     (if logLevel l \<le> level then logv level formatted time tid l else Inr l)"

text \<open>A \<^verbatim>\<open>LogStream\<close> that goes out of scope with the content \<open>str\<close>.\<close>

definition streamLog :: "log_level \<Rightarrow> string \<Rightarrow> string \<Rightarrow> int \<Rightarrow> logger \<Rightarrow> logger" where
  "streamLog level str time tid l = (if logLevel l \<le> level then append_log time tid str l else l)"

definition setLogLevel :: "log_level \<Rightarrow> logger \<Rightarrow> logger" where
  "setLogLevel level l = l\<lparr>logLevel := level\<rparr>"

definition setFileBaseName :: "string \<Rightarrow> logger \<Rightarrow> logger" where
  "setFileBaseName basename l = l\<lparr>fileBaseName := basename\<rparr>"

definition setRotateInterval :: "int \<Rightarrow> logger \<Rightarrow> logger" where
  "setRotateInterval interval l = l\<lparr>rotateInterval := interval\<rparr>"

section \<open>Model: log files\<close>

text \<open>\<open>openf\<close> is what \<^verbatim>\<open>open(2)\<close> returns for a name.\<close>

definition openNewLogfile :: "(int \<Rightarrow> tm) \<Rightarrow> (string \<Rightarrow> int) \<Rightarrow> logger \<Rightarrow> int result" where
  "openNewLogfile localtime openf l =
     assertR (0 < lastRotate l)
       (let fd = openf (logfileName (localtime (lastRotate l)) l)
        in if fd < 0 then Inl Aborted else Inr fd)"

definition switchToFileLog :: "(int \<Rightarrow> tm) \<Rightarrow> (string \<Rightarrow> int) \<Rightarrow> logger \<Rightarrow> logger result" where
  "switchToFileLog localtime openf l =
     assertR (logFd l = 1)
       (bindR (openNewLogfile localtime openf l) (\<lambda>newfd. Inr (l\<lparr>logFd := newfd, isfilelog := True\<rparr>)))"

definition FILE_SIZE :: int where
  "FILE_SIZE = 100 * 1024 * 1024"

text \<open>\<^verbatim>\<open>tryRotate\<close> at time \<open>now\<close> with a file of \<open>fsize\<close> bytes; the closed descriptors are returned.\<close>

definition tryRotate :: "(int \<Rightarrow> tm) \<Rightarrow> (string \<Rightarrow> int) \<Rightarrow> int \<Rightarrow> int \<Rightarrow> logger \<Rightarrow> (int list \<times> logger) result" where
  "tryRotate localtime openf now fsize l =
     (if \<not> isfilelog l then Inr ([], l)
      else if now - lastRotate l < rotateInterval l \<and> fsize < FILE_SIZE then Inr ([], l)
      else let l1 = l\<lparr>lastRotate := now\<rparr>
           in bindR (openNewLogfile localtime openf l1) (\<lambda>newfd. Inr ([logFd l], l1\<lparr>logFd := newfd\<rparr>)))"

section \<open>Model: the backend thread\<close>

text \<open>
  Where the thread stands in \<^verbatim>\<open>flush()\<close>: before the test of the outer loop, before taking the
  lock, in the loop that writes (\<^verbatim>\<open>buf\<close> and \<^verbatim>\<open>tosend\<close>), or after the return.
\<close>

datatype flush_phase = AtTop | AtLock | Writing string int | Returned

text \<open>
  \<open>lsCtor\<close> are the members that the constructor has still to initialise, \<open>lsOutput\<close> are the completed
  writes, \<open>lsClosed\<close> the closed descriptors; \<open>lsAppended\<close>, all lines
  ever appended, and \<open>lsBacklog\<close>, the size of the largest string swapped out, are history.
\<close>

record log_sys =
  lsLogger :: logger
  lsCtor :: "member_init list"
  lsPhase :: flush_phase
  lsOutput :: "(int \<times> string) list"
  lsClosed :: "int list"
  lsAppended :: string
  lsBacklog :: nat

definition log_init :: "int \<Rightarrow> log_sys" where
  "log_init now = \<lparr>lsLogger = rawLogger, lsCtor = ctorMembers now, lsPhase = AtTop, lsOutput = [], lsClosed = [],
     lsAppended = [], lsBacklog = 0\<rparr>"

text \<open>The logger after its constructor, before the backend thread has done anything.\<close>

definition log_ready :: "int \<Rightarrow> log_sys" where
  "log_ready now = (log_init now)\<lparr>lsLogger := newLogger now, lsCtor := []\<rparr>"

text \<open>\<^verbatim>\<open>int tosend = msg.size()\<close>.\<close>

definition int_of_size :: "nat \<Rightarrow> int" where
  "int_of_size n = (int n + 2 ^ 31) mod 2 ^ 32 - 2 ^ 31"

definition flush_top :: "(int \<Rightarrow> tm) \<Rightarrow> (string \<Rightarrow> int) \<Rightarrow> int \<Rightarrow> int \<Rightarrow> log_sys \<Rightarrow> log_sys result" where
  "flush_top localtime openf now fsize s =
     (if stopLogging (lsLogger s) then Inr (s\<lparr>lsPhase := Returned\<rparr>)
      else if isfilelog (lsLogger s)
      then bindR (tryRotate localtime openf now fsize (lsLogger s)) (\<lambda>(closed, l1).
             Inr (s\<lparr>lsLogger := l1, lsPhase := AtLock, lsClosed := lsClosed s @ closed\<rparr>))
      else Inr (s\<lparr>lsPhase := AtLock\<rparr>))"

text \<open>
  With the lock: the inner loop waits (and gives the lock away) while there is nothing to write
  and no request to stop; otherwise the string is swapped out.
\<close>

definition flush_swap :: "log_sys \<Rightarrow> log_sys" where
  "flush_swap s =
     (let l = lsLogger s
      in if logMsg l = [] \<and> \<not> stopLogging l then s
         else s\<lparr>lsLogger := l\<lparr>logMsg := []\<rparr>, lsPhase := Writing (logMsg l) (int_of_size (length (logMsg l))),
                lsBacklog := max (lsBacklog s) (length (logMsg l))\<rparr>)"

text \<open>One turn of the writing loop; \<open>ret\<close> is the result of \<^verbatim>\<open>write(2)\<close>.\<close>

definition flush_write :: "int \<Rightarrow> log_sys \<Rightarrow> log_sys" where
  "flush_write ret s =
     (case lsPhase s of
        Writing buf tosend \<Rightarrow>
          if 0 < tosend
          then if 0 < ret
               then s\<lparr>lsPhase := Writing (drop (nat ret) buf) (tosend - ret),
                      lsOutput := lsOutput s @ [(logFd (lsLogger s), take (nat ret) buf)]\<rparr>
               else s
          else s\<lparr>lsPhase := AtTop\<rparr>
      | _ \<Rightarrow> s)"

text \<open>The destructor: the critical section, and what follows the \<^verbatim>\<open>join\<close>.\<close>

definition dtor_stop :: "log_sys \<Rightarrow> log_sys" where
  "dtor_stop s = s\<lparr>lsLogger := (lsLogger s)\<lparr>stopLogging := True\<rparr>\<rparr>"

definition dtor_close :: "log_sys \<Rightarrow> log_sys" where
  "dtor_close s =
     (if logFd (lsLogger s) \<noteq> 1 then s\<lparr>lsClosed := lsClosed s @ [logFd (lsLogger s)]\<rparr> else s)"

text \<open>A line appended by any thread.\<close>

definition append_sys :: "string \<Rightarrow> int \<Rightarrow> string \<Rightarrow> log_sys \<Rightarrow> log_sys" where
  "append_sys time tid msg s =
     s\<lparr>lsLogger := append_log time tid msg (lsLogger s),
       lsAppended := lsAppended s @ logLine time tid msg\<rparr>"

text \<open>Until the constructor has returned only the backend thread and the constructor can act on the object.\<close>

inductive log_step :: "log_sys \<Rightarrow> log_sys \<Rightarrow> bool" where
  Construct: "lsCtor s = m # ms \<Longrightarrow> log_step s (s\<lparr>lsLogger := initMember m (lsLogger s), lsCtor := ms\<rparr>)"
| Top: "lsPhase s = AtTop \<Longrightarrow> flush_top localtime openf now fsize s = Inr s' \<Longrightarrow> log_step s s'"
| Swap: "lsPhase s = AtLock \<Longrightarrow> log_step s (flush_swap s)"
| Write: "lsPhase s = Writing buf tosend \<Longrightarrow> ret \<le> tosend \<Longrightarrow> log_step s (flush_write ret s)"
| Append: "lsCtor s = [] \<Longrightarrow> log_step s (append_sys time tid msg s)"
| Configure: "lsCtor s = [] \<Longrightarrow> f \<in> {setLogLevel level, setFileBaseName name, setRotateInterval interval}
    \<Longrightarrow> log_step s (s\<lparr>lsLogger := f (lsLogger s)\<rparr>)"
| SwitchToFile: "lsCtor s = [] \<Longrightarrow> switchToFileLog localtime openf (lsLogger s) = Inr l1
    \<Longrightarrow> log_step s (s\<lparr>lsLogger := l1\<rparr>)"
| Stop: "lsCtor s = [] \<Longrightarrow> log_step s (dtor_stop s)"
| Join: "lsPhase s = Returned \<Longrightarrow> log_step s (dtor_close s)"

section \<open>The stream of lines\<close>

fun unwritten :: "flush_phase \<Rightarrow> string" where
  "unwritten (Writing buf tosend) = buf"
| "unwritten _ = []"

definition log_written :: "log_sys \<Rightarrow> string" where
  "log_written s = concat (map snd (lsOutput s))"

text \<open>
  What holds in every reachable state as long as no string of 2 GB or more was swapped out
  (\<^verbatim>\<open>tosend\<close> is an \<^verbatim>\<open>int\<close>): nothing is lost, repeated or reordered.
\<close>

definition log_ok :: "log_sys \<Rightarrow> bool" where
  "log_ok s \<longleftrightarrow> (lsBacklog s < 2 ^ 31 \<longrightarrow>
     log_written s @ unwritten (lsPhase s) @ logMsg (lsLogger s) = lsAppended s
     \<and> (\<forall>buf tosend. lsPhase s = Writing buf tosend \<longrightarrow> tosend = int (length buf)))
     \<and> (lsPhase s = Returned \<longrightarrow> stopLogging (lsLogger s))
     \<and> (lsCtor s \<noteq> [] \<longrightarrow> \<not> stopLogging (lsLogger s))"

lemma int_of_size_small: "n < 2 ^ 31 \<Longrightarrow> int_of_size n = int n"
  by (simp add: int_of_size_def)

lemma tryRotate_keeps:
  "tryRotate localtime openf now fsize l = Inr (closed, l1) \<Longrightarrow> logMsg l1 = logMsg l \<and> stopLogging l1 = stopLogging l"
  by (auto simp: tryRotate_def result_simps Let_def split: if_splits)

lemma switchToFileLog_keeps:
  "switchToFileLog localtime openf l = Inr l1 \<Longrightarrow> logMsg l1 = logMsg l \<and> stopLogging l1 = stopLogging l"
  by (auto simp: switchToFileLog_def result_simps)

lemma log_ok_init: "log_ok (log_init now)"
  by (simp add: log_ok_def log_init_def rawLogger_def log_written_def)

lemma initMember_keeps:
  "logMsg (initMember m l) = logMsg l" "\<not> stopLogging l \<Longrightarrow> \<not> stopLogging (initMember m l)"
  by (cases m; simp)+

lemma log_ok_construct:
  "log_ok s \<Longrightarrow> lsCtor s = m # ms \<Longrightarrow> log_ok (s\<lparr>lsLogger := initMember m (lsLogger s), lsCtor := ms\<rparr>)"
  by (auto simp: log_ok_def log_written_def initMember_keeps)

text \<open>The constructor alone.\<close>

lemma constructed: "log_step\<^sup>*\<^sup>* (log_init now) (log_ready now)"
proof -
  have "log_step\<^sup>*\<^sup>* s (s\<lparr>lsLogger := fold initMember ms (lsLogger s), lsCtor := []\<rparr>)" if "lsCtor s = ms" for s ms
    using that
  proof (induction ms arbitrary: s)
    case (Cons m ms)
    let ?s = "s\<lparr>lsLogger := initMember m (lsLogger s), lsCtor := ms\<rparr>"
    have "log_step s ?s" by (rule log_step.Construct) (fact Cons.prems)
    moreover have "log_step\<^sup>*\<^sup>* ?s (?s\<lparr>lsLogger := fold initMember ms (lsLogger ?s), lsCtor := []\<rparr>)" by (rule Cons.IH) simp
    ultimately show ?case by (simp add: converse_rtranclp_into_rtranclp)
  next
    case Nil
    then have "s\<lparr>lsCtor := []\<rparr> = s" by (cases s) simp
    then show ?case by simp
  qed
  from this [of "log_init now" "ctorMembers now"] show ?thesis by (simp add: log_ready_def log_init_def newLogger_def)
qed

lemma ready_facts [simp]:
  "lsCtor (log_ready now) = []" "lsPhase (log_ready now) = AtTop" "lsBacklog (log_ready now) = 0" "lsOutput (log_ready now) = []"
  "lsAppended (log_ready now) = []" "lsLogger (log_ready now) = newLogger now"
  by (simp_all add: log_ready_def log_init_def)

lemma log_ok_top:
  assumes "log_ok s" and "lsPhase s = AtTop" and "flush_top localtime openf now fsize s = Inr s'"
  shows "log_ok s'"
  using assms by (auto simp: flush_top_def log_ok_def log_written_def result_simps dest: tryRotate_keeps split: if_splits)

lemma log_ok_swap:
  assumes "log_ok s" and "lsPhase s = AtLock"
  shows "log_ok (flush_swap s)"
  using assms by (auto simp: flush_swap_def log_ok_def log_written_def Let_def int_of_size_small)

lemma log_ok_write:
  assumes "log_ok s" and "lsPhase s = Writing buf tosend" and "ret \<le> tosend"
  shows "log_ok (flush_write ret s)"
proof -
  have rejoin: "take n buf @ drop n buf @ xs = buf @ xs" for n xs by (metis append_assoc append_take_drop_id)
  show ?thesis using assms by (auto simp: flush_write_def log_ok_def log_written_def rejoin)
qed

text \<open>The steps of the other threads.\<close>

lemma log_ok_others:
  assumes "log_ok s"
  shows "log_ok (append_sys time tid msg s)" "lsCtor s = [] \<Longrightarrow> log_ok (dtor_stop s)" "log_ok (dtor_close s)"
    and "f \<in> {setLogLevel level, setFileBaseName name, setRotateInterval interval}
      \<Longrightarrow> log_ok (s\<lparr>lsLogger := f (lsLogger s)\<rparr>)"
    and "switchToFileLog localtime openf (lsLogger s) = Inr l1 \<Longrightarrow> log_ok (s\<lparr>lsLogger := l1\<rparr>)"
  using assms
  by (auto simp: log_ok_def log_written_def append_sys_def append_log_def dtor_stop_def dtor_close_def
      setLogLevel_def setFileBaseName_def setRotateInterval_def dest: switchToFileLog_keeps)

lemma log_ok_step:
  assumes "log_ok s" and "log_step s s'"
  shows "log_ok s'"
  using assms(2,1) by cases (auto intro: log_ok_construct log_ok_top log_ok_swap log_ok_write log_ok_others simp del: insert_iff)

interpretation log_inv: invariant_system log_step "log_init now" log_ok for now
  by unfold_locales (auto intro: log_ok_init log_ok_step)

section \<open>The writing loop\<close>

text \<open>
  The loop that writes a string; \<open>sysWrite\<close> gives the result of \<^verbatim>\<open>write(2)\<close> in a state. It is a
  partial function: not returning is \<open>None\<close>.
\<close>

partial_function (option) writeLoop :: "(log_sys \<Rightarrow> int) \<Rightarrow> log_sys \<Rightarrow> log_sys option" where
  "writeLoop sysWrite s =
     (case lsPhase s of
        Writing buf tosend \<Rightarrow>
          if 0 < tosend then writeLoop sysWrite (flush_write (sysWrite s) s) else Some (flush_write 0 s)
      | _ \<Rightarrow> Some s)"

text \<open>\<^verbatim>\<open>write(2)\<close> that takes at least one byte, and no more than it is offered.\<close>

definition writes_some :: "(log_sys \<Rightarrow> int) \<Rightarrow> bool" where
  "writes_some sysWrite \<longleftrightarrow>
     (\<forall>s buf tosend. lsPhase s = Writing buf tosend \<and> 0 < tosend \<longrightarrow> 0 < sysWrite s \<and> sysWrite s \<le> tosend)"

lemma writeLoop_returns:
  assumes "writes_some sysWrite" and "lsPhase s = Writing buf (int (length buf))"
  shows "\<exists>s'. writeLoop sysWrite s = Some s' \<and> lsPhase s' = AtTop \<and> log_written s' = log_written s @ buf
    \<and> lsLogger s' = lsLogger s \<and> lsAppended s' = lsAppended s"
  using assms(2)
proof (induction "length buf" arbitrary: s buf rule: less_induct)
  case less
  show ?case
  proof (cases "buf = []")
    case True
    then show ?thesis using less.prems
      by (simp add: writeLoop.simps [of sysWrite s] flush_write_def log_written_def)
  next
    case False
    let ?n = "nat (sysWrite s)" and ?s = "flush_write (sysWrite s) s"
    have n: "0 < ?n" "?n \<le> length buf" "sysWrite s = int ?n"
    proof -
      have "0 < int (length buf)" using False by simp
      then have "0 < sysWrite s \<and> sysWrite s \<le> int (length buf)"
        using assms(1) less.prems unfolding writes_some_def by blast
      then show "0 < ?n" "?n \<le> length buf" "sysWrite s = int ?n" by (simp_all add: nat_le_iff)
    qed
    have s1: "lsPhase ?s = Writing (drop ?n buf) (int (length (drop ?n buf)))"
      "log_written ?s = log_written s @ take ?n buf" "lsLogger ?s = lsLogger s" "lsAppended ?s = lsAppended s"
      using less.prems n False by (auto simp: flush_write_def log_written_def)
    have "length (drop ?n buf) < length buf" using n by simp
    from less.hyps [OF this s1(1)] obtain s' where s': "writeLoop sysWrite ?s = Some s'" "lsPhase s' = AtTop"
      "log_written s' = log_written ?s @ drop ?n buf" "lsLogger s' = lsLogger ?s" "lsAppended s' = lsAppended ?s" by blast
    have "writeLoop sysWrite s = writeLoop sysWrite ?s"
      using less.prems False by (simp add: writeLoop.simps [of sysWrite s])
    then show ?thesis using s' s1(2-4) by simp
  qed
qed

lemma writeLoop_stuck:
  assumes "writeLoop sysWrite s = Some s'"
  shows "(\<forall>s. sysWrite s \<le> 0) \<longrightarrow> (\<forall>buf tosend. lsPhase s = Writing buf tosend \<longrightarrow> tosend \<le> 0)"
proof (rule writeLoop.raw_induct [OF _ assms, where P = "\<lambda>k s s'.
    (\<forall>s. k s \<le> 0) \<longrightarrow> (\<forall>buf tosend. lsPhase s = Writing buf tosend \<longrightarrow> tosend \<le> 0)"], intro impI allI, rule ccontr)
  fix f k s s' buf tosend
  assume IH: "\<And>k s s'. f k s = Some s' \<Longrightarrow>
      (\<forall>s. k s \<le> 0) \<longrightarrow> (\<forall>buf tosend. lsPhase s = Writing buf tosend \<longrightarrow> tosend \<le> 0)"
    and run: "(case lsPhase s of Writing buf tosend \<Rightarrow>
        if 0 < tosend then f k (flush_write (k s) s) else Some (flush_write 0 s) | _ \<Rightarrow> Some s) = Some s'"
    and a: "\<forall>s. k s \<le> 0" "lsPhase s = Writing buf tosend" "\<not> tosend \<le> 0"
  have "flush_write (k s) s = s" using a by (simp add: flush_write_def not_less)
  then have "f k s = Some s'" using run a(2,3) by simp
  from IH [OF this] a show False by blast
qed

section \<open>Model: exit_if\<close>

text \<open>A use of the macro \<^verbatim>\<open>log\<close> by some thread.\<close>

definition log_sys_macro :: "log_level \<Rightarrow> string option \<Rightarrow> string \<Rightarrow> int \<Rightarrow> log_sys \<Rightarrow> log_sys result" where
  "log_sys_macro level formatted time tid s =
     bindR (log_macro level formatted time tid (lsLogger s)) (\<lambda>l.
       Inr (s\<lparr>lsLogger := l, lsAppended := lsAppended s @ drop (length (logMsg (lsLogger s))) (logMsg l)\<rparr>))"

text \<open>
  The macro \<^verbatim>\<open>exit_if\<close> up to the \<^verbatim>\<open>join\<close> in the destructor, after which the process ends by
  \<^verbatim>\<open>_Exit\<close>.
\<close>

definition exit_if :: "bool \<Rightarrow> string option \<Rightarrow> string \<Rightarrow> int \<Rightarrow> log_sys \<Rightarrow> log_sys result" where
  "exit_if b formatted time tid s =
     (if b then bindR (log_sys_macro ERROR formatted time tid s) (\<lambda>s1. Inr (dtor_stop s1)) else Inr s)"

lemma logv_appends:
  assumes "length formatted \<le> 4095" and "logLevel l \<le> level"
  shows "logv level (Some formatted) time tid l = Inr (append_log time tid formatted l)"
  using assms by (simp add: logv_def Let_def not_less)

lemma exit_if_steps:
  assumes "length formatted \<le> 4095" and "logLevel (lsLogger s) \<le> ERROR" and "lsCtor s = []"
  shows "exit_if True (Some formatted) time tid s = Inr (dtor_stop (append_sys time tid formatted s))"
    and "log_step\<^sup>*\<^sup>* s (dtor_stop (append_sys time tid formatted s))"
proof -
  show "exit_if True (Some formatted) time tid s = Inr (dtor_stop (append_sys time tid formatted s))"
    using assms
    by (simp add: exit_if_def log_sys_macro_def log_macro_def logv_appends append_sys_def append_log_def)
  show "log_step\<^sup>*\<^sup>* s (dtor_stop (append_sys time tid formatted s))"
    using log_step.Append [OF assms(3)] log_step.Stop [of "append_sys time tid formatted s"] assms(3)
    by (simp add: append_sys_def) (meson r_into_rtranclp rtranclp.rtrancl_into_rtrancl)
qed

section \<open>Properties\<close>

text \<open>
  C17: the log is complete and in order. In every interleaving of the backend thread with the
  constructor of the logger, which starts it before the other members are initialised, and with
  threads that log, change settings, switch to files or stop the logger, the bytes written so far,
  followed by the string being written and the string still collected, are exactly the lines
  appended so far in their order, as long as no collected string reached 2 GB.
\<close>

theorem log_stream_intact:
  assumes "log_step\<^sup>*\<^sup>* (log_init now) s" and "lsBacklog s < 2 ^ 31"
  shows "log_written s @ unwritten (lsPhase s) @ logMsg (lsLogger s) = lsAppended s"
  using log_inv.reachable [OF assms(1)] assms(2) by (simp add: log_ok_def)

theorem log_stream_intact_witness:
  "log_written (append_sys ''t'' 7 ''hello'' (log_ready 1)) @ unwritten AtTop
     @ logMsg (lsLogger (append_sys ''t'' 7 ''hello'' (log_ready 1)))
   = lsAppended (append_sys ''t'' 7 ''hello'' (log_ready 1))"
proof -
  let ?s = "append_sys ''t'' 7 ''hello'' (log_ready 1)"
  have "log_step\<^sup>*\<^sup>* (log_init 1) ?s"
    by (rule rtranclp.rtrancl_into_rtrancl [OF constructed log_step.Append]) simp
  moreover have "lsBacklog ?s < 2 ^ 31" "lsPhase ?s = AtTop" by (simp_all add: append_sys_def)
  ultimately show ?thesis using log_stream_intact [of 1 ?s] by simp
qed

text \<open>
  C22: a round of the backend thread returns and writes everything. If \<^verbatim>\<open>write(2)\<close> always takes at
  least one byte, then from every reachable state at the head of the loop with lines collected,
  and no request to stop, the rest of the round terminates, after it every line appended before
  has been written, and the thread is back at the head.
\<close>

theorem log_round_flushes:
  assumes "log_step\<^sup>*\<^sup>* (log_init now) s" and "lsPhase s = AtTop" and "lsBacklog s < 2 ^ 31"
    and "length (logMsg (lsLogger s)) < 2 ^ 31" and "logMsg (lsLogger s) \<noteq> []" and "\<not> stopLogging (lsLogger s)"
    and "flush_top localtime openf t fsize s = Inr s1" and "writes_some sysWrite"
  shows "\<exists>s2. writeLoop sysWrite (flush_swap s1) = Some s2 \<and> lsPhase s2 = AtTop \<and> log_written s2 = lsAppended s"
proof -
  have all: "log_written s @ logMsg (lsLogger s) = lsAppended s"
    using log_inv.reachable [OF assms(1)] assms(2,3) by (simp add: log_ok_def)
  have s1: "log_written s1 = log_written s" "logMsg (lsLogger s1) = logMsg (lsLogger s)"
    using assms(6,7) by (auto simp: flush_top_def result_simps log_written_def dest: tryRotate_keeps split: if_splits)
  let ?s = "flush_swap s1"
  have "lsPhase ?s = Writing (logMsg (lsLogger s)) (int (length (logMsg (lsLogger s))))" "log_written ?s = log_written s"
    using s1 assms(4,5) by (simp_all add: flush_swap_def Let_def int_of_size_small log_written_def)
  with writeLoop_returns [OF assms(8), of ?s] all show ?thesis by auto
qed

theorem log_round_flushes_witness:
  "\<exists>s s2. writeLoop (\<lambda>s. 1) (flush_swap s) = Some s2 \<and> log_written s2 = logLine ''t'' 7 ''hello''"
proof -
  let ?s = "append_sys ''t'' 7 ''hello'' (log_ready 1)"
  have "log_step\<^sup>*\<^sup>* (log_init 1) ?s"
    by (rule rtranclp.rtrancl_into_rtrancl [OF constructed log_step.Append]) simp
  moreover have "lsPhase ?s = AtTop" "lsBacklog ?s < 2 ^ 31" "length (logMsg (lsLogger ?s)) < 2 ^ 31"
    "logMsg (lsLogger ?s) \<noteq> []" "\<not> stopLogging (lsLogger ?s)" "lsAppended ?s = logLine ''t'' 7 ''hello''"
    using showInt_facts(1) [of 7]
    by (simp_all add: append_sys_def append_log_def newLogger_eq logLine_def)
  moreover have "flush_top l f 0 0 ?s = Inr (?s\<lparr>lsPhase := AtLock\<rparr>)" for l f
    by (simp add: flush_top_def append_sys_def append_log_def newLogger_eq)
  moreover have "writes_some (\<lambda>s. 1)" by (simp add: writes_some_def)
  ultimately show ?thesis using log_round_flushes [of 1 ?s] by metis
qed

text \<open>
  C39: a failing \<^verbatim>\<open>write(2)\<close> is retried for ever. If the call keeps failing (a full disk, a closed
  descriptor), the writing loop never returns once it has something to write, so that the
  \<^verbatim>\<open>join\<close> in the destructor blocks the process that wants to end.
\<close>

theorem failing_write_hangs:
  assumes "\<forall>s. sysWrite s \<le> 0" and "lsPhase s = Writing buf tosend" and "0 < tosend"
  shows "writeLoop sysWrite s = None"
proof (cases "writeLoop sysWrite s")
  case (Some s')
  then show ?thesis using writeLoop_stuck [OF Some] assms by force
qed

theorem failing_write_hangs_witness:
  "writeLoop (\<lambda>s. -1) ((log_init 1)\<lparr>lsPhase := Writing ''x'' 1\<rparr>) = None"
  using failing_write_hangs [of "\<lambda>s. -1" "(log_init 1)\<lparr>lsPhase := Writing ''x'' 1\<rparr>" "''x''" 1] by simp

text \<open>
  C40: \<^verbatim>\<open>exit_if\<close> can lose its own message. On a constructed logger whose level lets errors pass, with a
  message of at most 4095 characters: the destructor only sets the stop flag; if the backend
  thread stands at the head of its loop it returns without looking at the collected string, and
  the message of \<^verbatim>\<open>exit_if\<close>, together with everything not yet swapped out, is never written. If
  the thread was waiting for lines, it still takes the message.
\<close>

theorem exit_message_lost:
  assumes "length formatted \<le> 4095" and "logLevel (lsLogger s) \<le> ERROR" and "lsCtor s = []"
  shows "\<exists>s1. exit_if True (Some formatted) time tid s = Inr s1 \<and> log_step\<^sup>*\<^sup>* s s1
    \<and> (lsPhase s = AtTop \<longrightarrow> (\<forall>localtime openf now fsize. \<exists>s2. flush_top localtime openf now fsize s1 = Inr s2
         \<and> lsPhase s2 = Returned \<and> log_written s2 = log_written s
         \<and> logMsg (lsLogger s2) = logMsg (lsLogger s) @ logLine time tid formatted))
    \<and> (lsPhase s = AtLock \<longrightarrow> unwritten (lsPhase (flush_swap s1)) = logMsg (lsLogger s) @ logLine time tid formatted)"
proof -
  let ?s1 = "dtor_stop (append_sys time tid formatted s)"
  have "flush_top localtime openf now fsize ?s1 = Inr (?s1\<lparr>lsPhase := Returned\<rparr>)" for localtime openf now fsize
    by (simp add: flush_top_def dtor_stop_def)
  moreover have "unwritten (lsPhase (flush_swap ?s1)) = logMsg (lsLogger s) @ logLine time tid formatted"
    by (simp add: flush_swap_def dtor_stop_def append_sys_def append_log_def Let_def)
  ultimately show ?thesis using exit_if_steps [OF assms]
    by (intro exI [of _ ?s1]) (auto simp: dtor_stop_def append_sys_def append_log_def log_written_def)
qed

theorem exit_message_lost_witness:
  "\<exists>s s1 s2. exit_if True (Some ''bind failed'') ''t'' 7 s = Inr s1 \<and> flush_top (\<lambda>_. \<lparr>tm_year = 124, tm_mon = 0, tm_mday = 1, tm_hour = 0, tm_min = 0, tm_sec = 0\<rparr>) (\<lambda>_. 3) 0 0 s1 = Inr s2
     \<and> lsPhase s2 = Returned \<and> log_written s2 = [] \<and> logMsg (lsLogger s2) = logLine ''t'' 7 ''bind failed''"
proof -
  let ?s = "(log_ready 1)\<lparr>lsLogger := setLogLevel TRACE (newLogger 1)\<rparr>"
  have "logLevel (lsLogger ?s) \<le> ERROR" by (simp add: setLogLevel_def less_eq_log_level_def)
  from exit_message_lost [OF _ this, of "''bind failed''" "''t''" 7] show ?thesis
    by (fastforce simp: log_written_def setLogLevel_def newLogger_eq)
qed

text \<open>
  What \<open>logv\<close> does with a message that is not discarded: a text of exactly 4096 characters
  is cut by one and followed by a zero byte; a longer text makes \<^verbatim>\<open>std::string(buffer, n)\<close> read past
  the end of the array; and a failing \<^verbatim>\<open>vsnprintf\<close> ends in an exception.
\<close>

lemma logv_long_lines:
  assumes "logLevel l \<le> level"
  shows "length txt = 4096 \<Longrightarrow> logv level (Some txt) time tid l = Inr (append_log time tid (butlast txt @ [CHR 0x00]) l)"
    and "4096 < length txt \<Longrightarrow> logv level (Some txt) time tid l = Inl OutOfBounds"
    and "logv level None time tid l = Inl Uncaught"
  using assms by (auto simp: logv_def Let_def butlast_conv_take not_less)

end
