(* ===== verification/Util.thy ===== *)
theory Util
  imports Logger Timer_Queue
begin

text \<open>
  The helpers of \<^verbatim>\<open>miniduo/util.cpp\<close>: the cached thread id, the clock and the textual form of a time
  stamp; and the class \<^verbatim>\<open>AutoContext\<close> of \<^verbatim>\<open>miniduo/util.h\<close>, which keeps one object of any type.
\<close>

section \<open>Model\<close>

text \<open>
  \<^verbatim>\<open>currentTid\<close>: \<open>cached\<close> is the thread-local \<^verbatim>\<open>t_cachedTid\<close>; the result is returned with the new
  value of that variable.
\<close>

definition currentTid :: "int \<Rightarrow> int \<Rightarrow> int \<times> int" where
  "currentTid gettid cached = (let cached = (if cached = 0 then gettid else cached) in (cached, cached))"

text \<open>
  \<^verbatim>\<open>timeString\<close>: the quotient by \<^verbatim>\<open>1e6\<close> is a floating-point division, rounded by \<open>fl\<close> and
  truncated; the integer division of the milliseconds truncates towards zero.
\<close>

definition timeString :: "(rat \<Rightarrow> rat) \<Rightarrow> (int \<Rightarrow> tm) \<Rightarrow> timestamp \<Rightarrow> string" where
  "timeString fl localtime now =
     (let t = localtime (trunc_double (fl (fl (of_int now) / 1000000)));
          ms = (if 0 \<le> now then now div 1000 mod 1000 else - ((- now) div 1000 mod 1000))
      in snprintf 100 (padZero 4 (tm_year t + 1900) @ ''-'' @ padZero 2 (tm_mon t + 1) @ ''-'' @ padZero 2 (tm_mday t)
           @ '' '' @ padZero 2 (tm_hour t) @ '':'' @ padZero 2 (tm_min t) @ '':'' @ padZero 2 (tm_sec t)
           @ ''.'' @ padSpace 3 ms))"

text \<open>
  \<^verbatim>\<open>getTimeOfNow\<close>: the clock counts nanoseconds since the epoch; \<^verbatim>\<open>duration_cast\<close> truncates towards
  zero.
\<close>

definition getTimeOfNow :: "int \<Rightarrow> timestamp" where
  "getTimeOfNow nanos = (if 0 \<le> nanos then nanos div 1000 else - (- nanos div 1000))"

text \<open>
  \<^verbatim>\<open>AutoContext\<close> with the heap it works on, which maps an address to the type of the object there.
  \<open>acDelete\<close> is the type that the stored deleter casts to. \<open>a\<close> is what \<^verbatim>\<open>new T()\<close> returns. Deleting an
  object through another type is an access outside of it.
\<close>

record 'ty auto_context =
  acContext :: "nat option"
  acDelete :: "'ty option"

definition newAutoContext :: "'ty auto_context" where
  "newAutoContext = \<lparr>acContext = None, acDelete = None\<rparr>"

definition autoGet :: "'ty \<Rightarrow> nat \<Rightarrow> 'ty auto_context \<times> (nat \<rightharpoonup> 'ty) \<Rightarrow> nat \<times> 'ty auto_context \<times> (nat \<rightharpoonup> 'ty)" where
  "autoGet ty a s =
     (case s of (ac, h) \<Rightarrow>
        (case acContext ac of
           None \<Rightarrow> (a, ac\<lparr>acContext := Some a, acDelete := Some ty\<rparr>, h(a \<mapsto> ty))
         | Some p \<Rightarrow> (p, ac, h)))"

definition autoDtor :: "'ty auto_context \<times> (nat \<rightharpoonup> 'ty) \<Rightarrow> (nat \<rightharpoonup> 'ty) result" where
  "autoDtor s =
     (case s of (ac, h) \<Rightarrow>
        (case acContext ac of
           None \<Rightarrow> Inr h
         | Some p \<Rightarrow>
             (case acDelete ac of
                None \<Rightarrow> Inl Uncaught
              | Some ty \<Rightarrow>
                  (case h p of
                     None \<Rightarrow> Inl UseAfterFree
                   | Some ty' \<Rightarrow> if ty' = ty then Inr (h(p := None)) else Inl OutOfBounds))))"

text \<open>Calls of \<^verbatim>\<open>getContext<T>()\<close> in a row, with the pointers they return.\<close>

fun autoGets :: "('ty \<times> nat) list \<Rightarrow> 'ty auto_context \<times> (nat \<rightharpoonup> 'ty) \<Rightarrow> nat list \<times> 'ty auto_context \<times> (nat \<rightharpoonup> 'ty)" where
  "autoGets [] s = ([], s)"
| "autoGets ((ty, a) # xs) s = (let (p, s1) = autoGet ty a s; (ps, s2) = autoGets xs s1 in (p # ps, s2))"

section \<open>Lemmas\<close>

lemma autoGets_present:
  "acContext ac = Some p \<Longrightarrow> autoGets xs (ac, h) = (replicate (length xs) p, ac, h)"
  by (induction xs) (auto simp: autoGet_def)

text \<open>
  A context that is used with any types and then destroyed leaves the heap as it was: the object of
  the first call is the only one that is created, every call returns it whatever type it asks for,
  and the destructor deletes it through the type it was created with.
\<close>

lemma autoContext_balanced:
  assumes "\<forall>x \<in> set xs. h (snd x) = None"
  shows "autoDtor (snd (autoGets xs (newAutoContext, h))) = Inr h
    \<and> (xs \<noteq> [] \<longrightarrow> fst (autoGets xs (newAutoContext, h)) = replicate (length xs) (snd (hd xs)))"
proof (cases xs)
  case (Cons x ys)
  obtain ty a where x: "x = (ty, a)" by (cases x)
  have "h a = None" using assms Cons x by simp
  then show ?thesis using Cons x
    by (simp add: autoGet_def newAutoContext_def autoGets_present autoDtor_def fun_upd_idem)
qed (simp add: newAutoContext_def autoDtor_def)

text \<open>The clock never runs backwards and is exact to a microsecond.\<close>

lemma getTimeOfNow_mono: "m \<le> n \<Longrightarrow> getTimeOfNow m \<le> getTimeOfNow n"
  by (auto simp: getTimeOfNow_def zdiv_mono1 intro: order_trans [of _ 0] pos_imp_zdiv_nonneg_iff [THEN iffD2])

lemma getTimeOfNow_exact: "\<bar>n - 1000 * getTimeOfNow n\<bar> < 1000"
  by (auto simp: getTimeOfNow_def)

text \<open>Every call on a thread returns the same id, whichever is the first.\<close>

lemma currentTid_stable:
  assumes "gettid \<noteq> 0" and "cached = 0 \<or> cached = gettid"
  shows "currentTid gettid cached = (gettid, gettid)"
  using assms by (auto simp: currentTid_def)

lemma no_zero_byte_int: "CHR 0x00 \<notin> set (showInt i)"
  using showNat_digits [of "CHR 0x00"] by (auto simp: showInt_def isdigit_def)

lemma no_zero_byte_pad: "CHR 0x00 \<notin> set (padZero n i)" "CHR 0x00 \<notin> set (padSpace n i)"
  using no_zero_byte_int [of i] list.set_sel(2) [of "showInt i" "CHR 0x00"]
  by (cases "showInt i"; auto simp: padZero_def padSpace_def)+

text \<open>
  The logger's time and \<^verbatim>\<open>timeString\<close> agree on every time stamp whose conversion to seconds is not
  disturbed by rounding.
\<close>

lemma timeString_timeNow:
  assumes "0 \<le> now" and "trunc_double (fl (fl (of_int now) / 1000000)) = now div 1000000"
  shows "timeString fl localtime now = timeNow localtime (now div 1000)"
proof -
  have "now div 1000 div 1000 = now div 1000000" by (simp add: zdiv_zmult2_eq [symmetric])
  moreover have "c_str s = s" if "CHR 0x00 \<notin> set s" for s using that by (auto simp: c_str_def takeWhile_eq_all_conv)
  ultimately show ?thesis using assms
    by (simp add: timeString_def timeNow_def snprintf_def Let_def no_zero_byte_pad)
qed

end
