(* ===== verification/Spec2Isabelle.thy ===== *)
theory Spec2Isabelle
  imports Byte_Buffer EPoll_Poller Poll_Poller Timer_Queue Event_Loop Http_Message Loop_Object Net_Address
    Tcp_Connection Http_Server Echo_Server Connection_Lifetime Connection_Protocol Connection_Effects Server_System
    Server_Safety Server_Drain Logger Util
begin

text \<open>
  This development verifies \<^emph>\<open>miniduo\<close>, a multi-threaded network library in C++ built around
  the reactor pattern, with an asynchronous logger and a static HTTP server on top.

  \<^bold>\<open>The program.\<close> An \<^verbatim>\<open>EventLoop\<close> (\<^verbatim>\<open>miniduo/EventLoop.cpp\<close>) runs on one thread: it executes the
  tasks that any thread queued, asks a poller (\<^verbatim>\<open>miniduo/poller.cpp\<close>, on \<^verbatim>\<open>poll(2)\<close> or \<^verbatim>\<open>epoll(7)\<close>)
  for the active \<^verbatim>\<open>Channel\<close>s (\<^verbatim>\<open>miniduo/channel.cpp\<close>) and lets each call its callbacks. A
  \<^verbatim>\<open>TimerQueue\<close> (\<^verbatim>\<open>miniduo/timer.cpp\<close>) turns timers into events of one descriptor. A
  \<^verbatim>\<open>TcpServer\<close> with its \<^verbatim>\<open>Acceptor\<close> (\<^verbatim>\<open>miniduo/conn.cpp\<close>) creates a \<^verbatim>\<open>TcpConnection\<close> per client
  and gives it to one of the loops of an \<^verbatim>\<open>EventLoops\<close> object; a connection moves bytes between
  its socket and two \<^verbatim>\<open>Buffer\<close>s (\<^verbatim>\<open>miniduo/buffer.cpp\<close>). \<^verbatim>\<open>HttpServer\<close>
  (\<^verbatim>\<open>miniduo/http/httpserver.cpp\<close>) parses requests with \<^verbatim>\<open>HttpRequest\<close> and builds responses with
  \<^verbatim>\<open>HttpResponse\<close> (\<^verbatim>\<open>miniduo/http/httpmsg.cpp\<close>). \<^verbatim>\<open>Logger\<close> (\<^verbatim>\<open>miniduo/logging.cpp\<close>) has a thread of its
  own; \<^verbatim>\<open>miniduo/net.cpp\<close> wraps the socket calls and addresses.

  \<^bold>\<open>Conventions.\<close> Objects are records, enumerations are datatypes, event masks, ports and
  addresses are words of their width, \<^verbatim>\<open>size_t\<close> arithmetic in \<^verbatim>\<open>Buffer\<close> is reduced modulo
  \<open>2 ^ 64\<close> and the \<^verbatim>\<open>int64_t\<close> times of timers to their range explicitly, conversions between
  integer types are functions. A failing \<^verbatim>\<open>assert\<close>, an
  \<^verbatim>\<open>abort\<close>, an uncaught exception, an access outside an object or to a destroyed one, and a call
  that does not return are values of the type \<open>fault\<close>; every fallible operation returns a
  \<open>result\<close>. Pointers that the code shares are addresses into a map (timers, connections).
  System calls are outside the program: what they return is an argument of the operation that
  makes them, and what they are asked to do is recorded in a trace where a property speaks of it.
  Callbacks of the user are arguments too. The theories, each with its locales and properties:

  \<^item> \<open>Miniduo_Prelude\<close>: results, \<^verbatim>\<open>size_t\<close>, slices of lists, the locale \<open>invariant_system\<close> for step
    relations. \<open>C_Strings\<close>: what the sources use of the C and C++ string libraries.
  \<^item> \<open>Byte_Buffer\<close>: \<^verbatim>\<open>Buffer\<close>. The locale \<open>byte_queue\<close> states the contract of a queue of bytes and is
    interpreted on \<open>appendBuf\<close> and \<open>retrieve\<close>; the invariant of the indices, exactly when the
    contract holds, and what \<open>makeSpace\<close> does to the contents when it moves them.
  \<^item> \<open>Channel\<close>: interest sets and the dispatch of events.
  \<^item> \<open>Poller_Interface\<close>, \<open>EPoll_Poller\<close>, \<open>Poll_Poller\<close>: the contract of \<^verbatim>\<open>BasePoller\<close> as the locale
    \<open>poller\<close> over a specification machine, interpreted for both pollers; the protocol of
    \<^verbatim>\<open>epoll_ctl(2)\<close>, and which channels a call of \<^verbatim>\<open>poll\<close> activates.
  \<^item> \<open>Timer_Queue\<close>: \<^verbatim>\<open>Timer\<close> and \<^verbatim>\<open>TimerQueue\<close>; which timers fire, in which order, which are
    rescheduled, that the descriptor is armed whenever a timer is pending and the times are in
    range, and that an interval beyond \<^verbatim>\<open>int64_t\<close> leaves it unarmed.
  \<^item> \<open>Event_Loop\<close>: task queue, wake-up, quit, \<^verbatim>\<open>EventLoops\<close>, and the interleaving of the loop thread
    with other threads as a step relation. \<open>queueInLoop\<close> and \<open>quit\<close> are the lists of their atomic
    actions, which the relation \<open>loop_step\<close> carries out one by one between the steps \<open>own_step\<close> of the
    loop thread: no task is lost or reordered, and a blocked loop with work is always woken up, so
    that its own steps alone (a deterministic run) do the work.
  \<^item> \<open>Loop_Object\<close>: an \<^verbatim>\<open>EventLoop\<close> with its poller and timers; its constructor, which
    queues the registration of the wake-up and the timer channel, its destructor and the timer
    interface for other threads.
  \<^item> \<open>Net_Address\<close>: \<^verbatim>\<open>SockAddr\<close> and the socket helpers; the round trip of addresses.
  \<^item> \<open>Tcp_World\<close>, \<open>Tcp_Connection\<close>: the state shared by server, connections and loops (queues,
    pollers, the channels of the loops, live objects, handles, trace), the life time of connections, and every handler of
    \<^verbatim>\<open>TcpConnection\<close>, \<^verbatim>\<open>TcpServer\<close> and \<^verbatim>\<open>Acceptor\<close>. The locale \<open>quiet_user\<close> is the contract of a user
    whose connection callback leaves the world alone. The outgoing stream, the closing of a
    connection, names, and the faults of shutdown, of \<open>send\<close> and of the destructor.
  \<^item> \<open>Http_Message\<close>: the request parser and the response builder. The parser's loop is a
    \<open>partial_function\<close>, which returns on every input; it refines a specification on strings, from
    which the round trip and the independence of the segmentation follow.
  \<^item> \<open>Http_Server\<close>: the callbacks of \<^verbatim>\<open>HttpServer\<close>, an interpretation of \<open>quiet_user\<close>; what is
    answered, and a whole session from the request to the closed socket.
  \<^item> \<open>Echo_Server\<close>: the example \<^verbatim>\<open>examples/echosvr.cpp\<close>, a second interpretation; reading, callback
    and writing compose to an echo.
  \<^item> \<open>Connection_Lifetime\<close>: which operations may touch a destroyed connection. The locale
    \<open>careful_user\<close> is the contract of callbacks that respect the life time, interpreted for the
    HTTP server and for the echo server; everything a shared pointer refers to stays alive under
    every sequence of operations, so that only the plain pointers captured by tasks can dangle.
  \<^item> \<open>Connection_Protocol\<close>: the abstract protocol between server, loops and connections: which
    objects exist, who refers to them, which tasks are queued. Its steps are an inductive relation,
    its invariant says that nothing refers to an object that does not exist and that no object, and
    no step of a connection's life, is forgotten: whoever exists is owned, and whoever has to be
    established or removed has the task for it in the right queue.
  \<^item> \<open>Connection_Effects\<close>: what each handler changes as far as the protocol is concerned. The locale
    \<open>tame_user\<close> extends \<open>quiet_user\<close> by the contract that the other callbacks work on their own
    connection and queue nothing but its closing, interpreted for the HTTP server and for the echo
    server; and why \<open>closeInNextLoop\<close> is outside of it.
  \<^item> \<open>Server_System\<close>, \<open>Server_Safety\<close>: \<^verbatim>\<open>main\<close> of \<^verbatim>\<open>examples/httpsvr.cpp\<close> and of \<^verbatim>\<open>examples/echosvr.cpp\<close>, and
    the running loops as one system whose actions are those of \<^verbatim>\<open>EventLoop::loop\<close>: start, take the
    queue, run a task, poll, handle an event. \<^verbatim>\<open>main\<close> includes the constructors of the loops, whose
    registrations are the first tasks of each loop; pollers know channels by address: 0 is the
    acceptor's, 1 and 2 are a loop's wake-up and timer channel, greater ones are connections. The system refines the protocol, so in every
    interleaving no action touches a destroyed connection, none runs on a wrong thread, and no
    connection is leaked: objects, map and pollers agree whenever the queues are empty.
  \<^item> \<open>Server_Drain\<close>: without further events the loops come to rest under every schedule, because a
    task queues only tasks of lower rank, and then every closed connection has been destroyed.
  \<^item> \<open>Logger\<close>, \<open>Util\<close>: the logger with the interleaving of its thread, which its constructor starts
    before the last members are initialised, an interpretation of
    \<open>invariant_system\<close>; the stream of lines, termination of a flush, what is lost at exit. The
    thread id, the clock and the printing of times; \<^verbatim>\<open>AutoContext\<close>.

  The theory at hand adds the equivalence of the two pollers.

  \<^bold>\<open>Bounds and fuel.\<close> There is no fuel. Loops that may not return (\<open>decodeLoop\<close>, \<open>writeLoop\<close>) are
  partial functions, and that they return is proved. The theorems about streams ask that a buffer
  has room without moving its contents (\<open>room\<close>), because moving them corrupts the contents, as
  \<open>Byte_Buffer\<close> shows; a buffer whose reader stands at the front always has
  room up to \<open>max_size\<close>, \<open>2 ^ 63 - 1\<close> bytes. The theorem about the log stream excludes collected strings of
  2 GB, since the code keeps their length in an \<^verbatim>\<open>int\<close>. Connection numbers stay below \<open>2 ^ 31\<close>.
  The theorems about answers ask for files of less than 2 GiB, since the code passes their size
  through an \<^verbatim>\<open>int\<close>; the one about the timer descriptor asks for clock readings and intervals up to
  \<open>2 ^ 61\<close> microseconds and expirations within \<open>2 ^ 62\<close>, beyond which the \<^verbatim>\<open>int64_t\<close> arithmetic can
  leave it unarmed. The session of the HTTP server assumes system calls that are never short, and the
  independence of the segmentation that the first segment is found incomplete; what happens
  otherwise is stated by other theorems.
  The loops of \<open>Server_System\<close> interleave between tasks and event handlers, not inside them: a handler
  shares with other threads only the queues, which a mutex protects, and the map of the server,
  which only the server's loop uses. The loops run until the end; nobody calls \<^verbatim>\<open>quit\<close>,
  and nobody adds timers to the loops of the two example servers. An event may
  be reported for any channel the poller knows, whatever it watches.

  \<^bold>\<open>Not modelled.\<close> The kernel and the clock, of which only documented behaviour is assumed in the
  hypotheses of single theorems; the memory model below the mutexes and atomics (steps of the
  relations are critical sections and atomic accesses); the signal disposition of
  \<^verbatim>\<open>IgnoreSigPipe\<close>; destructors that only free memory; log statements inside the other components,
  which have no effect on their state; the programs under \<^verbatim>\<open>test\<close>; \<^verbatim>\<open>examples/echo-httpsvr.cpp\<close>, which
  runs two servers on the same loops.
\<close>

text \<open>
  C11: the two pollers are interchangeable. From their empty states, every sequence of channel
  operations fails in both or succeeds in both, and then the same channels are registered and
  the kernel is asked to watch the same descriptors for the same events, although one keeps a
  dense array with swap-with-last removal and the other a map of states and a kernel object.
\<close>

theorem poll_epoll_equivalent:
  assumes "list_all (\<lambda>x. chan_ok (op_channel x)) xs"
  shows "mapR (\<lambda>p. (pp_registered p, pp_watched p)) (runR pp_step xs newPollPoller)
       = mapR (\<lambda>p. (ep_registered p, ep_watched p)) (runR ep_step xs newEPollPoller)"
  using pp.run_refines [OF pp_inv_new assms] ep.run_refines [OF ep_inv_new assms]
  by (simp only: pp_abs_new ep_abs_new)

theorem poll_epoll_equivalent_witness:
  "mapR (\<lambda>p. (pp_registered p, pp_watched p)) (runR pp_step [AddChannel (reading_channel 7 3)] newPollPoller)
   = mapR (\<lambda>p. (ep_registered p, ep_watched p)) (runR ep_step [AddChannel (reading_channel 7 3)] newEPollPoller)"
  using poll_epoll_equivalent [of "[AddChannel (reading_channel 7 3)]"] reading_channel_ok(1) [of 3 7]
  by simp

end
